theory Spec2Isabelle
  imports Main "HOL-Library.Char_ord" "HOL-Library.List_Lexorder" "HOL-Library.Multiset"
    "HOL-Library.Word" "HOL-Library.AList"
begin

unbundle bit_operations_syntax

section \<open>What the program takes from its libraries\<close>

text \<open>
  build-cache is a Go program. The functions below are embedded from its source; what
  they call in the Go standard library (runtime, crypto/sha1 with encoding/hex,
  path/filepath, os) is not part of the repository and is taken as a parameter, the
  record \<open>os_env\<close>:
  \<^item> \<open>runtime_Version\<close>, \<open>runtime_GOOS\<close>, \<open>runtime_GOARCH\<close>: the three strings of package runtime;
  \<^item> \<open>sha1_hex h\<close>: \<open>hex.EncodeToString(h.Sum(nil))\<close> for a SHA-1 hash \<open>h\<close> into which the bytes
    \<open>h\<close> have been written. A \<open>hash.Hash\<close> is modelled by the bytes written to it so far:
    \<open>sha1.New()\<close> is \<open>[]\<close>, \<open>h.Write(b)\<close> is \<open>h @ b\<close> (Write of a hash never fails);
  \<^item> \<open>filepath_Join\<close>: \<open>filepath.Join\<close> of two path elements;
  \<^item> \<open>readFile path\<close>: the bytes \<open>os.Open\<close>, \<open>io.Copy\<close> and \<open>Close\<close> deliver for the file at
    \<open>path\<close>, \<open>None\<close> when one of the three fails;
  \<^item> \<open>modTime path\<close>: \<open>os.Stat(path)\<close> followed by \<open>ModTime()\<close>, \<open>None\<close> when Stat fails. A
    \<open>time.Time\<close> is an integer, the zero time is \<open>0\<close>.
\<close>

record os_env =
  runtime_Version :: string
  runtime_GOOS :: string
  runtime_GOARCH :: string
  sha1_hex :: "string \<Rightarrow> string"
  filepath_Join :: "string \<Rightarrow> string \<Rightarrow> string"
  readFile :: "string \<Rightarrow> string option"
  modTime :: "string \<Rightarrow> int option"

text \<open>\<open>log.Fatal\<close> prints and ends the process with status 1.\<close>

datatype failure = LogFatal

definition bindF :: "failure + 'a \<Rightarrow> ('a \<Rightarrow> failure + 'b) \<Rightarrow> failure + 'b" where
  "bindF m f = (case m of Inl x \<Rightarrow> Inl x | Inr a \<Rightarrow> f a)"

section \<open>The first main.go: packages as "go list -json" prints them\<close>

text \<open>
  The fields of \<open>Package\<close> that the program reads. Other fields of the JSON output
  (Name, Doc, Goroot, ...) are never used and are left out.
\<close>

record golist_Package =
  Dir :: string
  ImportPath :: string
  Target :: string
  Stale :: bool
  GoFiles :: "string list"
  CgoFiles :: "string list"
  CFiles :: "string list"
  CXXFiles :: "string list"
  MFiles :: "string list"
  HFiles :: "string list"
  SFiles :: "string list"
  SwigFiles :: "string list"
  SwigCXXFiles :: "string list"
  SysoFiles :: "string list"
  CgoCFLAGS :: "string list"
  CgoCPPFLAGS :: "string list"
  CgoCXXFLAGS :: "string list"
  CgoLDFLAGS :: "string list"
  CgoPkgConfig :: "string list"
  Deps :: "string list"
  TestImports :: "string list"
  fingerprint :: "string option"

text \<open>
  A \<open>*Package\<close> is an address, the heap maps every address to the struct it points to,
  and \<open>pkgs map[string]*Package\<close> is a map from import paths to addresses.
\<close>

type_synonym golist_heap = "nat \<Rightarrow> golist_Package"

fun addFile :: "os_env \<Rightarrow> golist_Package \<Rightarrow> string \<Rightarrow> string \<Rightarrow> failure + string" where
  "addFile e p h file =
     (case readFile e (filepath_Join e (Dir p) file) of
        None \<Rightarrow> Inl LogFatal
      | Some content \<Rightarrow> Inr ((h @ file) @ content))"

fun addFiles :: "os_env \<Rightarrow> golist_Package \<Rightarrow> string \<Rightarrow> string list \<Rightarrow> failure + string" where
  "addFiles e p h [] = Inr h"
| "addFiles e p h (file # files) = bindF (addFile e p h file) (\<lambda>h'. addFiles e p h' files)"

fun addFlags :: "string \<Rightarrow> string list \<Rightarrow> string" where
  "addFlags h [] = h"
| "addFlags h (flag # flags) = addFlags (h @ flag) flags"

text \<open>\<open>strings.IndexByte\<close>: the index of the first occurrence, or -1.\<close>

fun IndexByte :: "string \<Rightarrow> char \<Rightarrow> int" where
  "IndexByte [] c = -1"
| "IndexByte (x # xs) c =
     (if x = c then 0 else (let i = IndexByte xs c in if i = -1 then -1 else i + 1))"

definition isStdLib :: "string \<Rightarrow> bool" where
  "isStdLib pkgName =
     (let dot = IndexByte pkgName CHR ''.'' in
      if dot = -1 then True
      else (let slash = IndexByte pkgName CHR ''/'' in dot > slash))"

text \<open>
  The loop over \<open>p.Deps\<close> of Fingerprint. \<open>F\<close> is the recursive call. The result is
  \<open>Inl fp\<close> when the loop returned \<open>fp\<close> from Fingerprint (after storing it in
  \<open>p.fingerprint\<close>), and \<open>Inr h\<close> when it ran to its end with hash state \<open>h\<close>.
\<close>

fun golist_Fingerprint_deps ::
  "(golist_heap \<Rightarrow> nat \<Rightarrow> (failure + string \<times> golist_heap) option) \<Rightarrow> (string \<rightharpoonup> nat) \<Rightarrow> nat \<Rightarrow>
   string list \<Rightarrow> golist_heap \<Rightarrow> string \<Rightarrow> (failure + (string + string) \<times> golist_heap) option" where
  "golist_Fingerprint_deps F pkgs p [] s h = Some (Inr (Inr h, s))"
| "golist_Fingerprint_deps F pkgs p (dep # ds) s h =
     (if isStdLib dep then golist_Fingerprint_deps F pkgs p ds s h
      else case pkgs dep of
        None \<Rightarrow> Some (Inl LogFatal)
      | Some pkg \<Rightarrow>
         (case F s pkg of
            None \<Rightarrow> None
          | Some (Inl x) \<Rightarrow> Some (Inl x)
          | Some (Inr (fp, s1)) \<Rightarrow>
              if fp = [] then Some (Inr (Inl fp, s1(p := (s1 p)\<lparr>fingerprint := Some fp\<rparr>)))
              else golist_Fingerprint_deps F pkgs p ds s1 (h @ fp)))"

text \<open>
  Fingerprint calls itself on the dependencies, and nothing in it bounds the depth:
  the first argument is the number of nested calls allowed, and \<open>None\<close> says that it
  was used up.
\<close>

fun golist_Fingerprint ::
  "nat \<Rightarrow> os_env \<Rightarrow> (string \<rightharpoonup> nat) \<Rightarrow> golist_heap \<Rightarrow> nat \<Rightarrow> (failure + string \<times> golist_heap) option" where
  "golist_Fingerprint 0 e pkgs s p = None"
| "golist_Fingerprint (Suc n) e pkgs s p =
     (case fingerprint (s p) of
        Some fp \<Rightarrow> Some (Inr (fp, s))
      | None \<Rightarrow>
         (let h0 = addFlags [] [runtime_Version e, runtime_GOOS e, runtime_GOARCH e, ImportPath (s p)] in
          case
            bindF (addFiles e (s p) h0 (GoFiles (s p))) (\<lambda>h.
            bindF (addFiles e (s p) h (CgoFiles (s p))) (\<lambda>h.
            bindF (addFiles e (s p) h (CFiles (s p))) (\<lambda>h.
            bindF (addFiles e (s p) h (CXXFiles (s p))) (\<lambda>h.
            bindF (addFiles e (s p) h (MFiles (s p))) (\<lambda>h.
            bindF (addFiles e (s p) h (HFiles (s p))) (\<lambda>h.
            bindF (addFiles e (s p) h (SFiles (s p))) (\<lambda>h.
            bindF (addFiles e (s p) h (SwigFiles (s p))) (\<lambda>h.
            bindF (addFiles e (s p) h (SwigCXXFiles (s p))) (\<lambda>h.
            addFiles e (s p) h (SysoFiles (s p)))))))))))
          of
            Inl x \<Rightarrow> Some (Inl x)
          | Inr h1 \<Rightarrow>
             (let h2 = addFlags h1 (CgoCFLAGS (s p));
                  h3 = addFlags h2 (CgoCPPFLAGS (s p));
                  h4 = addFlags h3 (CgoCXXFLAGS (s p));
                  h5 = addFlags h4 (CgoLDFLAGS (s p));
                  h6 = addFlags h5 (CgoPkgConfig (s p))
              in case golist_Fingerprint_deps (golist_Fingerprint n e pkgs) pkgs p (Deps (s p)) s h6 of
                   None \<Rightarrow> None
                 | Some (Inl x) \<Rightarrow> Some (Inl x)
                 | Some (Inr (Inl fp, s1)) \<Rightarrow> Some (Inr (fp, s1))
                 | Some (Inr (Inr h7, s1)) \<Rightarrow>
                     (let sd = sha1_hex e h7
                      in Some (Inr (sd, s1(p := (s1 p)\<lparr>fingerprint := Some sd\<rparr>)))))))"

section \<open>pkg.go: packages as go/build loads them\<close>

text \<open>
  The fields of \<open>token.Position\<close>, \<open>build.Context\<close> and \<open>build.Package\<close> (package go/build)
  that the program reads or writes.
\<close>

record token_Position =
  Filename :: string
  Line :: int
  Column :: int

record build_Context =
  GOARCH :: string
  GOOS :: string
  Compiler :: string
  BuildTags :: "string list"
  InstallSuffix :: string

record build_Package =
  Dir :: string
  Name :: string
  ImportComment :: string
  ImportPath :: string
  Root :: string
  BinDir :: string
  Goroot :: bool
  PkgObj :: string
  GoFiles :: "string list"
  CgoFiles :: "string list"
  CFiles :: "string list"
  CXXFiles :: "string list"
  MFiles :: "string list"
  HFiles :: "string list"
  SFiles :: "string list"
  SwigFiles :: "string list"
  SwigCXXFiles :: "string list"
  SysoFiles :: "string list"
  CgoCFLAGS :: "string list"
  CgoCPPFLAGS :: "string list"
  CgoCXXFLAGS :: "string list"
  CgoLDFLAGS :: "string list"
  CgoPkgConfig :: "string list"
  Imports :: "string list"
  ImportPos :: "string \<Rightarrow> token_Position list"
  TestGoFiles :: "string list"
  XTestGoFiles :: "string list"

record PackageError =
  ImportStack :: "string list"
  Pos :: string
  Err :: string
  isImportCycle :: bool
  hard :: bool

text \<open>
  \<open>Package\<close> of pkg.go. \<open>Package_bp\<close> is the embedded \<open>*build.Package\<close>, so that the Go
  expression \<open>p.Dir\<close> is \<open>Dir (Package_bp p)\<close>. A pointer to another package is an address
  of the heap. \<open>imports'\<close> is the field \<open>imports\<close>: \<open>None\<close> is the nil slice, which
  reusePackage tells apart from an empty one.
\<close>

record Package =
  Package_bp :: build_Package
  buildContext :: build_Context
  baseImportPath :: string
  Target :: string
  Standard :: bool
  Stale :: bool
  Incomplete :: bool
  Error :: "PackageError option"
  imports' :: "nat list option"
  deps :: "nat list"
  local :: bool
  fingerprint :: "string option"
  race :: bool

type_synonym heap = "nat \<Rightarrow> Package"

text \<open>An argument of \<open>stringList\<close> is a string or a slice of strings.\<close>

datatype strarg = Str string | Strs "string list"

fun stringList :: "strarg list \<Rightarrow> string list" where
  "stringList [] = []"
| "stringList (Str a # args) = a # stringList args"
| "stringList (Strs a # args) = a @ stringList args"

fun contains :: "string list \<Rightarrow> string \<Rightarrow> bool" where
  "contains [] tag = False"
| "contains (t # tags) tag = (if t = tag then True else contains tags tag)"

text \<open>
  The three loops of Fingerprint. The one over \<open>p.deps\<close> gives \<open>Inl fp\<close> when it
  returned \<open>fp\<close> from Fingerprint (after storing it in \<open>p.fingerprint\<close>), and \<open>Inr h\<close> when
  it ran to its end with hash state \<open>h\<close>; \<open>F\<close> is the recursive call \<open>dep.Fingerprint()\<close>.
\<close>

fun Fingerprint_deps ::
  "(heap \<Rightarrow> nat \<Rightarrow> (failure + string \<times> heap) option) \<Rightarrow> nat \<Rightarrow> nat list \<Rightarrow> heap \<Rightarrow> string \<Rightarrow>
   (failure + (string + string) \<times> heap) option" where
  "Fingerprint_deps F p [] s h = Some (Inr (Inr h, s))"
| "Fingerprint_deps F p (dep # ds) s h =
     (if \<not> race (s p) \<and> Standard (s dep) then Fingerprint_deps F p ds s h
      else case F s dep of
        None \<Rightarrow> None
      | Some (Inl x) \<Rightarrow> Some (Inl x)
      | Some (Inr (fp, s1)) \<Rightarrow>
          if fp = [] then Some (Inr (Inl fp, s1(p := (s1 p)\<lparr>fingerprint := Some fp\<rparr>)))
          else Fingerprint_deps F p ds s1 (h @ fp))"

fun Fingerprint_flags :: "string \<Rightarrow> string list \<Rightarrow> string" where
  "Fingerprint_flags h [] = h"
| "Fingerprint_flags h (flag # flags) = Fingerprint_flags (h @ flag) flags"

fun Fingerprint_files :: "os_env \<Rightarrow> string \<Rightarrow> string \<Rightarrow> string list \<Rightarrow> failure + string" where
  "Fingerprint_files e dir h [] = Inr h"
| "Fingerprint_files e dir h (file # files) =
     (case readFile e (filepath_Join e dir file) of
        None \<Rightarrow> Inl LogFatal
      | Some content \<Rightarrow> Fingerprint_files e dir ((h @ file) @ content) files)"

text \<open>
  Fingerprint of pkg.go, with the number of nested calls allowed as its first argument
  (\<open>None\<close>: used up).
\<close>

fun Fingerprint :: "nat \<Rightarrow> os_env \<Rightarrow> heap \<Rightarrow> nat \<Rightarrow> (failure + string \<times> heap) option" where
  "Fingerprint 0 e s p = None"
| "Fingerprint (Suc n) e s p =
     (case fingerprint (s p) of
        Some fp \<Rightarrow> Some (Inr (fp, s))
      | None \<Rightarrow>
         (case Fingerprint_deps (Fingerprint n e) p (deps (s p)) s [] of
            None \<Rightarrow> None
          | Some (Inl x) \<Rightarrow> Some (Inl x)
          | Some (Inr (Inl fp, s1)) \<Rightarrow> Some (Inr (fp, s1))
          | Some (Inr (Inr h1, s1)) \<Rightarrow>
             (let bp = Package_bp (s1 p);
                  flags = stringList [
                    Str (runtime_Version e),
                    Str (runtime_GOOS e),
                    Str (runtime_GOARCH e),
                    Str (ImportPath bp),
                    Strs (CgoCFLAGS bp),
                    Strs (CgoCPPFLAGS bp),
                    Strs (CgoCXXFLAGS bp),
                    Strs (CgoLDFLAGS bp),
                    Strs (CgoPkgConfig bp)];
                  h2 = Fingerprint_flags h1 flags;
                  files = stringList [
                    Strs (GoFiles bp),
                    Strs (CgoFiles bp),
                    Strs (CFiles bp),
                    Strs (CXXFiles bp),
                    Strs (MFiles bp),
                    Strs (HFiles bp),
                    Strs (SFiles bp),
                    Strs (SwigFiles bp),
                    Strs (SwigCXXFiles bp),
                    Strs (SysoFiles bp)]
              in case Fingerprint_files e (Dir bp) h2 files of
                   Inl x \<Rightarrow> Some (Inl x)
                 | Inr h3 \<Rightarrow>
                     (let sd = sha1_hex e h3
                      in Some (Inr (sd, s1(p := (s1 p)\<lparr>fingerprint := Some sd\<rparr>)))))))"

text \<open>Go's zero values of the structs.\<close>

definition zero_golist_Package :: golist_Package where
  "zero_golist_Package = \<lparr>
     golist_Package.Dir = [], ImportPath = [], Target = [], Stale = False,
     GoFiles = [], CgoFiles = [], CFiles = [], CXXFiles = [], MFiles = [], HFiles = [],
     SFiles = [], SwigFiles = [], SwigCXXFiles = [], SysoFiles = [],
     CgoCFLAGS = [], CgoCPPFLAGS = [], CgoCXXFLAGS = [], CgoLDFLAGS = [], CgoPkgConfig = [],
     Deps = [], TestImports = [], fingerprint = None\<rparr>"

definition zero_build_Context :: build_Context where
  "zero_build_Context = \<lparr>GOARCH = [], GOOS = [], Compiler = [], BuildTags = [], InstallSuffix = []\<rparr>"

definition zero_build_Package :: build_Package where
  "zero_build_Package = \<lparr>
     build_Package.Dir = [], Name = [], ImportComment = [], ImportPath = [], Root = [], BinDir = [],
     Goroot = False, PkgObj = [],
     GoFiles = [], CgoFiles = [], CFiles = [], CXXFiles = [], MFiles = [], HFiles = [],
     SFiles = [], SwigFiles = [], SwigCXXFiles = [], SysoFiles = [],
     CgoCFLAGS = [], CgoCPPFLAGS = [], CgoCXXFLAGS = [], CgoLDFLAGS = [], CgoPkgConfig = [],
     Imports = [], ImportPos = (\<lambda>path. []), TestGoFiles = [], XTestGoFiles = []\<rparr>"

definition zero_Package :: Package where
  "zero_Package = \<lparr>
     Package_bp = zero_build_Package, buildContext = zero_build_Context, baseImportPath = [],
     Target = [], Standard = False, Stale = False, Incomplete = False, Error = None,
     imports' = None, deps = [], local = False, fingerprint = None, race = False\<rparr>"

section \<open>pkg.go: the staleness evaluator\<close>

definition usesSwig :: "Package \<Rightarrow> bool" where
  "usesSwig p \<longleftrightarrow> length (SwigFiles (Package_bp p)) > 0 \<or> length (SwigCXXFiles (Package_bp p)) > 0"

definition usesCgo :: "Package \<Rightarrow> bool" where
  "usesCgo p \<longleftrightarrow> length (CgoFiles (Package_bp p)) > 0"

text \<open>
  The closure \<open>olderThan\<close> of isStale, with the time \<open>built\<close> it captures:
  \<open>err != nil || fi.ModTime().After(built)\<close>.
\<close>

definition olderThan :: "os_env \<Rightarrow> int \<Rightarrow> string \<Rightarrow> bool" where
  "olderThan e built file = (case modTime e file of None \<Rightarrow> True | Some t \<Rightarrow> t > built)"

text \<open>
  isStale reads the heap and the file system and changes neither. It returns its verdict
  and the line it logs, if any. \<open>topRoot\<close> is the \<open>map[string]bool\<close> of computeStale (a
  missing key reads as false). A loop that returns true at the first hit is \<open>list_ex\<close>.
\<close>

definition isStale :: "os_env \<Rightarrow> heap \<Rightarrow> nat \<Rightarrow> (string \<Rightarrow> bool) \<Rightarrow> bool \<times> string list" where
  "isStale e s p topRoot =
     (let bp = Package_bp (s p) in
      if Standard (s p) \<and> (baseImportPath (s p) = ''unsafe'' \<or> Compiler (buildContext (s p)) = ''gccgo'')
      then (False, [])
      else if Error (s p) \<noteq> None then (True, [])
      else if length (GoFiles bp) = 0 \<and> length (CgoFiles bp) = 0 \<and> length (TestGoFiles bp) = 0 \<and>
              length (XTestGoFiles bp) = 0 \<and> \<not> usesSwig (s p)
      then (False, [])
      else if Target (s p) = [] \<or> Stale (s p) then (True, [''isStale 1: '' @ ImportPath bp])
      else
        (let built = (case modTime e (Target (s p)) of Some t \<Rightarrow> t | None \<Rightarrow> 0) in
         if built = 0 then (True, [''isStale 2: '' @ ImportPath bp])
         else if list_ex (\<lambda>p1. Stale (s p1) \<or> Target (s p1) \<noteq> [] \<and> olderThan e built (Target (s p1)))
                   (deps (s p))
         then (True, [''isStale 3: '' @ ImportPath bp])
         else if Root bp \<noteq> [] \<and> \<not> topRoot (Root bp) then (False, [])
         else
           (let srcs = stringList [Strs (GoFiles bp), Strs (CFiles bp), Strs (CXXFiles bp),
                  Strs (MFiles bp), Strs (HFiles bp), Strs (SFiles bp), Strs (CgoFiles bp),
                  Strs (SysoFiles bp), Strs (SwigFiles bp), Strs (SwigCXXFiles bp)]
            in if list_ex (\<lambda>src. olderThan e built (filepath_Join e (Dir bp) src)) srcs
               then (True, [''isStale 4: '' @ ImportPath bp])
               else (False, []))))"

text \<open>
  The closures \<open>walk\<close> and \<open>packageList\<close> of computeStale. \<open>seen\<close> is the set of keys of the
  map \<open>seen\<close>, and the pair (seen, all) is what \<open>walk\<close> changes. \<open>walk\<close> calls itself on
  the imports; its first argument bounds the nesting (\<open>None\<close>: used up). Ranging over
  the nil slice \<open>p.imports\<close> visits nothing.
\<close>

fun each_opt :: "('a \<Rightarrow> 'st \<Rightarrow> 'st option) \<Rightarrow> 'a list \<Rightarrow> 'st \<Rightarrow> 'st option" where
  "each_opt f [] st = Some st"
| "each_opt f (x # xs) st = (case f x st of None \<Rightarrow> None | Some st' \<Rightarrow> each_opt f xs st')"

definition imports_of :: "Package \<Rightarrow> nat list" where
  "imports_of p = (case imports' p of None \<Rightarrow> [] | Some ps \<Rightarrow> ps)"

fun walk :: "nat \<Rightarrow> heap \<Rightarrow> nat \<Rightarrow> nat set \<times> nat list \<Rightarrow> (nat set \<times> nat list) option" where
  "walk 0 s p st = None"
| "walk (Suc n) s p (seen, all) =
     (if p \<in> seen then Some (seen, all)
      else case each_opt (walk n s) (imports_of (s p)) (insert p seen, all) of
        None \<Rightarrow> None
      | Some (seen', all') \<Rightarrow> Some (seen', all' @ [p]))"

definition packageList :: "nat \<Rightarrow> heap \<Rightarrow> nat list \<Rightarrow> nat list option" where
  "packageList n s roots = map_option snd (each_opt (walk n s) roots ({}, []))"

text \<open>The loop \<open>for _, p := range pkgs { topRoot[p.Root] = true }\<close>.\<close>

fun topRoots :: "heap \<Rightarrow> nat list \<Rightarrow> (string \<Rightarrow> bool) \<Rightarrow> (string \<Rightarrow> bool)" where
  "topRoots s [] topRoot = topRoot"
| "topRoots s (p # pkgs) topRoot = topRoots s pkgs (topRoot(Root (Package_bp (s p)) := True))"

text \<open>The loop \<open>p.Stale = isStale(p, topRoot)\<close> over the list of \<open>packageList\<close>, with the lines logged.\<close>

fun setStale :: "os_env \<Rightarrow> (string \<Rightarrow> bool) \<Rightarrow> nat list \<Rightarrow> heap \<times> string list \<Rightarrow> heap \<times> string list" where
  "setStale e topRoot [] (s, out) = (s, out)"
| "setStale e topRoot (p # ps) (s, out) =
     (let (stale, line) = isStale e s p topRoot
      in setStale e topRoot ps (s(p := (s p)\<lparr>Stale := stale\<rparr>), out @ line))"

definition computeStale :: "nat \<Rightarrow> os_env \<Rightarrow> heap \<Rightarrow> nat list \<Rightarrow> (heap \<times> string list) option" where
  "computeStale n e s pkgs =
     (let topRoot = topRoots s pkgs (\<lambda>root. False) in
      case packageList n s pkgs of
        None \<Rightarrow> None
      | Some all \<Rightarrow> Some (setStale e topRoot all (s, [])))"

section \<open>The second main.go: the cache directory\<close>

text \<open>
  The calls of package os change the file system, and another process that shares the
  cache directory may change it between two calls. So every call takes the state \<open>'w\<close>
  of the world and returns the next one with its result, and what a call does is a
  parameter (the record \<open>os_api\<close>): nothing is assumed about how the result of one call
  relates to the result of the next. An error is \<open>ErrExist\<close> when \<open>os.IsExist\<close> holds of
  it and \<open>ErrNotExist\<close> when \<open>os.IsNotExist\<close> does. An open file is named by its path.
  \<open>os_view w\<close> is the file system as Fingerprint and isStale read it in state \<open>w\<close>.
\<close>

datatype os_error = ErrExist | ErrNotExist | ErrOther

definition os_IsExist :: "os_error option \<Rightarrow> bool" where
  "os_IsExist err \<longleftrightarrow> err = Some ErrExist"

definition os_IsNotExist :: "os_error option \<Rightarrow> bool" where
  "os_IsNotExist err \<longleftrightarrow> err = Some ErrNotExist"

record os_FileInfo =
  ModTime :: int
  Mode :: "32 word"

record 'w os_api =
  os_Stat :: "string \<Rightarrow> 'w \<Rightarrow> (os_error + os_FileInfo) \<times> 'w"
  os_Link :: "string \<Rightarrow> string \<Rightarrow> 'w \<Rightarrow> os_error option \<times> 'w"
  os_Open :: "string \<Rightarrow> 'w \<Rightarrow> os_error option \<times> 'w"
  os_Create :: "string \<Rightarrow> 'w \<Rightarrow> os_error option \<times> 'w"
  File_Chmod :: "string \<Rightarrow> 32 word \<Rightarrow> 'w \<Rightarrow> os_error option \<times> 'w"
  File_Close :: "string \<Rightarrow> 'w \<Rightarrow> 'w"
  io_Copy :: "string \<Rightarrow> string \<Rightarrow> 'w \<Rightarrow> os_error option \<times> 'w"
  os_Remove :: "string \<Rightarrow> 'w \<Rightarrow> os_error option \<times> 'w"
  os_RemoveAll :: "string \<Rightarrow> 'w \<Rightarrow> os_error option \<times> 'w"
  os_Mkdir :: "string \<Rightarrow> 32 word \<Rightarrow> 'w \<Rightarrow> os_error option \<times> 'w"
  os_MkdirAll :: "string \<Rightarrow> 32 word \<Rightarrow> 'w \<Rightarrow> os_error option \<times> 'w"
  os_Chtimes :: "string \<Rightarrow> int \<Rightarrow> int \<Rightarrow> 'w \<Rightarrow> os_error option \<times> 'w"
  time_Now :: "'w \<Rightarrow> int \<times> 'w"
  os_Getenv :: "string \<Rightarrow> string"
  os_ExpandEnv :: "string \<Rightarrow> string"
  filepath_Dir :: "string \<Rightarrow> string"
  os_view :: "'w \<Rightarrow> os_env"

definition os_ModePerm :: "32 word" where
  "os_ModePerm = 511"

definition exists :: "'w os_api \<Rightarrow> string \<Rightarrow> 'w \<Rightarrow> bool \<times> 'w" where
  "exists api path w =
     (case os_Stat api path w of
        (Inl err, w') \<Rightarrow> if os_IsNotExist (Some err) then (False, w') else (True, w')
      | (Inr fi, w') \<Rightarrow> (True, w'))"

definition cacheDir :: "'w os_api \<Rightarrow> string" where
  "cacheDir api =
     (let d = os_Getenv api ''CACHE'' in
      if d = [] then os_ExpandEnv api ''${HOME}/buildcache'' else d)"

text \<open>
  linkOrCopy returns an error, \<open>None\<close> for nil. The deferred calls of Close run when the
  function returns, the last deferred first.
\<close>

definition linkOrCopy :: "'w os_api \<Rightarrow> string \<Rightarrow> string \<Rightarrow> 'w \<Rightarrow> os_error option \<times> 'w" where
  "linkOrCopy api src dst w =
     (case exists api dst w of
        (True, w1) \<Rightarrow> (None, w1)
      | (False, w1) \<Rightarrow>
         (case os_Link api src dst w1 of (err, w2) \<Rightarrow>
          if err = None \<or> os_IsExist err then (None, w2)
          else
           (case os_Open api src w2 of
              (Some err, w3) \<Rightarrow> (Some err, w3)
            | (None, w3) \<Rightarrow>
               (case os_Stat api src w3 of
                  (Inl err, w4) \<Rightarrow> (Some err, File_Close api src w4)
                | (Inr srcInfo, w4) \<Rightarrow>
                   (case os_Create api dst w4 of
                      (Some err, w5) \<Rightarrow> (Some err, File_Close api src w5)
                    | (None, w5) \<Rightarrow>
                       (case File_Chmod api dst (Mode srcInfo AND os_ModePerm) w5 of
                          (Some err, w6) \<Rightarrow>
                            (case os_Remove api dst w6 of (ignored, w7) \<Rightarrow>
                               (Some err, File_Close api src (File_Close api dst w7)))
                        | (None, w6) \<Rightarrow>
                            (case io_Copy api dst src w6 of (err, w7) \<Rightarrow>
                               (err, File_Close api src (File_Close api dst w7)))))))))"

text \<open>
  A run of the program ends with an exit status, the lines logged so far and the state
  of the world (\<open>log.Fatal\<close> and \<open>os.Exit(1)\<close> give status 1; the text that \<open>log.Fatal\<close>
  prints for an error value is not modelled).
\<close>

datatype 'w exit = Exit int "string list" 'w

text \<open>
  Lines 488 to 494 of save, the insert into the store: the tag is \<open>*\<close> when the
  artifact was linked or copied into the cache and a blank when the entry was there.
\<close>

definition save_put :: "'w os_api \<Rightarrow> string \<Rightarrow> string \<Rightarrow> 'w \<Rightarrow> (failure + string) \<times> 'w" where
  "save_put api target dst w =
     (case exists api dst w of
        (True, w1) \<Rightarrow> (Inr '' '', w1)
      | (False, w1) \<Rightarrow>
         (case linkOrCopy api target dst w1 of
            (Some err, w2) \<Rightarrow> (Inl LogFatal, w2)
          | (None, w2) \<Rightarrow> (Inr ''*'', w2)))"

section \<open>pkg.go: loading the packages\<close>

text \<open>
  What the loader takes from go/build, go/scanner, go/token, path, path/filepath,
  strconv and unicode, and from the process (\<open>GOBIN\<close>, the working directory), is the
  record \<open>build_env\<close>. \<open>Context_Import ctx path srcDir\<close> is
  \<open>ctx.Import(path, srcDir, build.ImportComment)\<close>: it always gives a package, and an
  error or nil. \<open>Default_ImportDir dir\<close> is \<open>build.Default.ImportDir(dir, build.FindOnly)\<close>,
  whose error loadPackage drops. \<open>filepath_Split_file\<close> is the second result of
  \<open>filepath.Split\<close>. \<open>map_range\<close> is the order in which \<open>range\<close> visits the entries of a
  map, which Go leaves open. An \<open>error\<close> is a \<open>scanner.ErrorList\<close> or any other error, of
  which only the text matters. Strings are byte strings; \<open>strings.Map\<close> is applied byte
  by byte, which is what Go does on ASCII paths.
\<close>

record scanner_Error =
  ErrorPos :: token_Position
  Msg :: string

datatype go_error = ErrorList "scanner_Error list" | errors_New string

record build_env =
  gobin :: string
  cwd :: string
  build_Default :: build_Context
  build_IsLocalImport :: "string \<Rightarrow> bool"
  Context_Import :: "build_Context \<Rightarrow> string \<Rightarrow> string \<Rightarrow> build_Package \<times> go_error option"
  Default_ImportDir :: "string \<Rightarrow> build_Package"
  path_Join :: "string \<Rightarrow> string \<Rightarrow> string"
  filepath_ToSlash :: "string \<Rightarrow> string"
  filepath_Rel :: "string \<Rightarrow> string \<Rightarrow> string option"
  filepath_Split_file :: "string \<Rightarrow> string"
  unicode_IsGraphic :: "char \<Rightarrow> bool"
  unicode_IsSpace :: "char \<Rightarrow> bool"
  Position_String :: "token_Position \<Rightarrow> string"
  scanner_Error_Error :: "scanner_Error \<Rightarrow> string"
  scanner_ErrorList_Error :: "scanner_Error list \<Rightarrow> string"
  strconv_Quote :: "string \<Rightarrow> string"
  map_range :: "(string \<times> nat) list \<Rightarrow> (string \<times> nat) list"

text \<open>\<open>strings.Join\<close>, and \<open>strings.Split\<close> for a separator of one byte.\<close>

fun strings_Join :: "string list \<Rightarrow> string \<Rightarrow> string" where
  "strings_Join [] sep = []"
| "strings_Join [a] sep = a"
| "strings_Join (a # b # rest) sep = a @ sep @ strings_Join (b # rest) sep"

fun strings_Split :: "string \<Rightarrow> char \<Rightarrow> string list" where
  "strings_Split [] sep = [[]]"
| "strings_Split (c # cs) sep =
     (if c = sep then [] # strings_Split cs sep
      else case strings_Split cs sep of
        [] \<Rightarrow> [[c]]
      | w # ws \<Rightarrow> (c # w) # ws)"

definition packageBaseImportPath :: "string \<Rightarrow> string" where
  "packageBaseImportPath s =
     (let i = IndexByte s CHR '':'' in if i = -1 then s else take (nat i) s)"

text \<open>\<open>None\<close> is the nil slice.\<close>

definition packageOptions :: "string \<Rightarrow> string list option" where
  "packageOptions s =
     (let i = IndexByte s CHR '':'' in
      if i = -1 then None else Some (strings_Split (drop (nat (i + 1)) s) CHR '',''))"

definition newline :: string where
  "newline = [char_of (10 :: nat)]"

definition tab :: string where
  "tab = [char_of (9 :: nat)]"

definition PackageError_Error :: "PackageError \<Rightarrow> string" where
  "PackageError_Error p =
     (if isImportCycle p
      then Err p @ newline @ ''package '' @ strings_Join (ImportStack p) (newline @ tab @ ''imports '') @ newline
      else if Pos p \<noteq> [] then Pos p @ '': '' @ Err p
      else if length (ImportStack p) = 0 then Err p
      else ''package '' @ strings_Join (ImportStack p) (newline @ tab @ ''imports '') @ '': '' @ Err p)"

text \<open>
  An importStack is the list of its paths, the top last. loadImport pushes on entry and
  pops on return, so a function gets the stack as a value.
\<close>

fun shorterThan_ties :: "string list \<Rightarrow> string list \<Rightarrow> bool" where
  "shorterThan_ties (a # s) (b # t) = (if a \<noteq> b then a < b else shorterThan_ties s t)"
| "shorterThan_ties s t = False"

definition shorterThan :: "string list \<Rightarrow> string list \<Rightarrow> bool" where
  "shorterThan s t = (if length s \<noteq> length t then length s < length t else shorterThan_ties s t)"

text \<open>
  The state of the loader: the global \<open>packageCache\<close>, the heap, and the next address that
  \<open>new(Package)\<close> hands out.
\<close>

record loader =
  packageCache :: "string \<rightharpoonup> nat"
  mem :: heap
  fresh :: nat

text \<open>
  The characters that makeImportValid refuses, by their codes:
  \<open>!"#$%&'()*,:;<=>?[\]^{|}\<close> and the backquote (the replacement character U+FFFD
  is not a byte).
\<close>

definition illegalChars :: "nat list" where
  "illegalChars = [33, 34, 35, 36, 37, 38, 39, 40, 41, 42, 44, 58, 59, 60, 61, 62, 63,
     91, 92, 93, 94, 123, 124, 125, 96]"

definition makeImportValid :: "build_env \<Rightarrow> char \<Rightarrow> char" where
  "makeImportValid b r =
     (if \<not> unicode_IsGraphic b r \<or> unicode_IsSpace b r \<or> of_char r \<in> set illegalChars
      then CHR ''_'' else r)"

definition dirToImportPath :: "build_env \<Rightarrow> string \<Rightarrow> string" where
  "dirToImportPath b dir = path_Join b ''_'' (map (makeImportValid b) (filepath_ToSlash b dir))"

definition shortPath :: "build_env \<Rightarrow> string \<Rightarrow> string" where
  "shortPath b path =
     (case filepath_Rel b (cwd b) path of
        Some rel \<Rightarrow> if length rel < length path then rel else path
      | None \<Rightarrow> path)"

definition expandScanner :: "build_env \<Rightarrow> go_error \<Rightarrow> go_error" where
  "expandScanner b err =
     (case err of
        ErrorList errs \<Rightarrow>
          errors_New (concat (map (\<lambda>e. newline @
            scanner_Error_Error b (e\<lparr>ErrorPos := (ErrorPos e)\<lparr>Filename := shortPath b (Filename (ErrorPos e))\<rparr>\<rparr>)) errs))
      | errors_New text \<Rightarrow> errors_New text)"

definition error_Error :: "build_env \<Rightarrow> go_error \<Rightarrow> string" where
  "error_Error b err = (case err of ErrorList errs \<Rightarrow> scanner_ErrorList_Error b errs | errors_New text \<Rightarrow> text)"

definition reusePackage :: "nat \<Rightarrow> string list \<Rightarrow> heap \<Rightarrow> heap" where
  "reusePackage p stk s =
     (let s1 =
        (if imports' (s p) = None
         then (let s0 = (if Error (s p) = None
                         then s(p := (s p)\<lparr>Error := Some \<lparr>ImportStack = stk, Pos = [],
                                  Err = ''import cycle not allowed'', isImportCycle = True, hard = False\<rparr>\<rparr>)
                         else s)
               in s0(p := (s0 p)\<lparr>Incomplete := True\<rparr>))
         else s)
      in case Error (s1 p) of
           None \<Rightarrow> s1
         | Some err \<Rightarrow>
             if \<not> isImportCycle err \<and> shorterThan stk (ImportStack err)
             then s1(p := (s1 p)\<lparr>Error := Some (err\<lparr>ImportStack := stk\<rparr>)\<rparr>)
             else s1)"

definition raceExclude :: "string \<Rightarrow> bool" where
  "raceExclude path \<longleftrightarrow> path \<in> set [''runtime/race'', ''runtime/cgo'', ''cmd/cgo'', ''syscall'', ''errors'']"

definition cgoExclude :: "string \<Rightarrow> bool" where
  "cgoExclude path \<longleftrightarrow> path \<in> set [''runtime/cgo'']"

definition cgoSyscallExclude :: "string \<Rightarrow> bool" where
  "cgoSyscallExclude path \<longleftrightarrow> path \<in> set [''runtime/cgo'', ''runtime/race'']"

text \<open>
  The paths that load imports for a package: its \<open>Imports\<close> and the implicit ones
  (lines 893 to 912).
\<close>

definition load_importPaths :: "Package \<Rightarrow> string list" where
  "load_importPaths p =
     (let importPaths = Imports (Package_bp p);
          importPaths = (if length (CgoFiles (Package_bp p)) > 0 \<and> (\<not> Standard p \<or> \<not> cgoExclude (baseImportPath p))
                         then importPaths @ [''runtime/cgo''] else importPaths);
          importPaths = (if length (CgoFiles (Package_bp p)) > 0 \<and> (\<not> Standard p \<or> \<not> cgoSyscallExclude (baseImportPath p))
                         then importPaths @ [''syscall''] else importPaths)
      in if \<not> Standard p \<or> (baseImportPath p \<noteq> ''runtime'' \<and> baseImportPath p \<noteq> ''unsafe'')
         then (let importPaths = importPaths @ [''runtime'']
               in if race p \<and> (\<not> Standard p \<or> \<not> raceExclude (baseImportPath p))
                  then importPaths @ [''runtime/race''] else importPaths)
         else importPaths)"

text \<open>The install target that load computes (lines 871 to 891).\<close>

definition load_Target :: "os_env \<Rightarrow> build_env \<Rightarrow> build_Context \<Rightarrow> Package \<Rightarrow> string" where
  "load_Target e b ctx p =
     (let bp = Package_bp p in
      if Name bp = ''main''
      then (let elem = filepath_Split_file b (Dir bp);
                full = GOOS ctx @ ''_'' @ GOARCH ctx @ ''/'' @ elem;
                elem = (if GOOS ctx \<noteq> runtime_GOOS e \<or> GOARCH ctx \<noteq> runtime_GOARCH e then full else elem);
                target = (if BinDir bp \<noteq> [] then filepath_Join e (BinDir bp) elem else Target p)
            in if target \<noteq> [] \<and> GOOS ctx = ''windows'' then target @ ''.exe'' else target)
      else if local p then []
      else PkgObj bp)"

text \<open>
  The loop of load over the import paths. \<open>L\<close> is loadImport for the build context of
  the package. \<open>depmap\<close> is the map \<open>deps\<close>, as the list of its entries. The package \<open>p\<close> is
  read from the heap at every step, since a call of loadImport may change it (this is
  how an import cycle is recorded).
\<close>

fun load_imports ::
  "(string \<Rightarrow> string \<Rightarrow> string list \<Rightarrow> token_Position list \<Rightarrow> loader \<Rightarrow> (nat \<times> loader) option) \<Rightarrow>
   build_env \<Rightarrow> nat \<Rightarrow> string list \<Rightarrow> string list \<Rightarrow>
   loader \<times> (string \<times> nat) list \<times> nat list \<Rightarrow> (loader \<times> (string \<times> nat) list \<times> nat list) option" where
  "load_imports L b p stk [] (st, depmap, imports) = Some (st, depmap, imports)"
| "load_imports L b p stk (path # paths) (st, depmap, imports) =
     (if path = ''C'' then load_imports L b p stk paths (st, depmap, imports)
      else case L path (Dir (Package_bp (mem st p))) stk (ImportPos (Package_bp (mem st p)) path) st of
        None \<Rightarrow> None
      | Some (p1, st1) \<Rightarrow>
         (let s1 = mem st1;
              s2 = (if local (s1 p1) \<and> \<not> local (s1 p) \<and> Error (s1 p) = None
                    then s1(p := (s1 p)\<lparr>Error := Some \<lparr>ImportStack = stk,
                           Pos = (case ImportPos (Package_bp (s1 p)) path of
                                    [] \<Rightarrow> [] | pos # rest \<Rightarrow> Position_String b pos),
                           Err = ''local import '' @ strconv_Quote b path @ '' in non-local package'',
                           isImportCycle = False, hard = False\<rparr>\<rparr>)
                    else s1);
              path = (if local (s2 p1) then ImportPath (Package_bp (s2 p1)) else path);
              depmap = AList.update path p1 depmap;
              depmap = fold (\<lambda>dep depmap. AList.update (ImportPath (Package_bp (s2 dep))) dep depmap)
                         (deps (s2 p1)) depmap;
              s3 = (if Incomplete (s2 p1) then s2(p := (s2 p)\<lparr>Incomplete := True\<rparr>) else s2)
          in load_imports L b p stk paths (st1\<lparr>mem := s3\<rparr>, depmap, imports @ [p1])))"

text \<open>
  \<open>sort.Sort(packageList(ps))\<close> orders by ImportPath. It is modelled by the insertion
  sort of the library; \<open>sort.Sort\<close> is not stable, which shows only when two different
  packages of the slice have the same ImportPath.
\<close>

definition sort_packageList :: "heap \<Rightarrow> nat list \<Rightarrow> nat list" where
  "sort_packageList s ps = sort_key (\<lambda>p. ImportPath (Package_bp (s p))) ps"

definition load ::
  "(string \<Rightarrow> string \<Rightarrow> string list \<Rightarrow> token_Position list \<Rightarrow> loader \<Rightarrow> (nat \<times> loader) option) \<Rightarrow>
   os_env \<Rightarrow> build_env \<Rightarrow> build_Context \<Rightarrow> string list \<Rightarrow> build_Package \<Rightarrow> go_error option \<Rightarrow>
   nat \<Rightarrow> loader \<Rightarrow> loader option" where
  "load L e b ctx stk bp err p st =
     (let p0 = (mem st p)\<lparr>Package_bp := bp, buildContext := ctx,
                  Standard := (Goroot bp \<and> ImportPath bp \<noteq> [] \<and> CHR ''.'' \<notin> set (ImportPath bp)),
                  race := contains (BuildTags ctx) ''race''\<rparr>
      in case err of
           Some er \<Rightarrow>
             Some (st\<lparr>mem := (mem st)(p := p0\<lparr>Incomplete := True,
               Error := Some \<lparr>ImportStack = stk, Pos = [], Err = error_Error b (expandScanner b er),
                 isImportCycle = False, hard = False\<rparr>\<rparr>)\<rparr>)
         | None \<Rightarrow>
            (let p1 = p0\<lparr>Target := load_Target e b ctx p0\<rparr>;
                 st1 = st\<lparr>mem := (mem st)(p := p1)\<rparr>
             in case load_imports L b p stk (load_importPaths p1) (st1, [], []) of
                  None \<Rightarrow> None
                | Some (st2, depmap, imports) \<Rightarrow>
                   (let s2 = mem st2;
                        p2 = (s2 p)\<lparr>imports' := Some imports\<rparr>;
                        s3 = s2(p := p2);
                        p3 = p2\<lparr>deps := sort_packageList s3 (map snd (map_range b depmap))\<rparr>;
                        p4 = (if Standard p3 \<and> (baseImportPath p3 = ''unsafe'' \<or> Compiler ctx = ''gccgo'')
                              then p3\<lparr>Target := []\<rparr> else p3);
                        p5 = (if length (CFiles (Package_bp p4)) > 0 \<and> \<not> usesCgo p4 \<and>
                                 (\<not> Standard p4 \<or> baseImportPath p4 \<noteq> ''runtime'')
                              then p4\<lparr>Error := Some \<lparr>ImportStack = stk, Pos = [],
                                     Err = ''C source files not allowed when not using cgo: '' @
                                           strings_Join (CFiles (Package_bp p4)) '' '',
                                     isImportCycle = False, hard = False\<rparr>\<rparr>
                              else p4)
                    in Some (st2\<lparr>mem := s2(p := p5)\<rparr>))))"

text \<open>
  loadImport, with the number of nested calls allowed as its first argument (\<open>None\<close>:
  used up). \<open>stk\<close> is the stack before the push.
\<close>

fun loadImport ::
  "nat \<Rightarrow> os_env \<Rightarrow> build_env \<Rightarrow> build_Context \<Rightarrow> string \<Rightarrow> string \<Rightarrow> string list \<Rightarrow>
   token_Position list \<Rightarrow> loader \<Rightarrow> (nat \<times> loader) option" where
  "loadImport 0 e b ctx path srcDir stk0 importPos st = None"
| "loadImport (Suc n) e b ctx path srcDir stk0 importPos st =
     (let stk = stk0 @ [path];
          isLocal = build_IsLocalImport b path;
          importPath = (if isLocal then dirToImportPath b (filepath_Join e srcDir path) else path);
          fullImportPath = (if contains (BuildTags ctx) ''race'' then importPath @ '':race'' else importPath)
      in case packageCache st fullImportPath of
           Some p \<Rightarrow> Some (p, st\<lparr>mem := reusePackage p stk (mem st)\<rparr>)
         | None \<Rightarrow>
            (let p = fresh st;
                 st1 = st\<lparr>packageCache := (packageCache st)(fullImportPath \<mapsto> p),
                          mem := (mem st)(p := zero_Package\<lparr>local := isLocal\<rparr>),
                          fresh := Suc p\<rparr>;
                 (bp, err) = Context_Import b ctx path srcDir;
                 bp = bp\<lparr>ImportPath := fullImportPath\<rparr>;
                 bp = (if gobin b \<noteq> [] then bp\<lparr>BinDir := gobin b\<rparr> else bp);
                 err = (if err = None \<and> \<not> isLocal \<and> ImportComment bp \<noteq> [] \<and> ImportComment bp \<noteq> path
                        then Some (errors_New (''code in directory '' @ Dir bp @ '' expects import '' @
                                     strconv_Quote b (ImportComment bp)))
                        else err);
                 st2 = st1\<lparr>mem := (mem st1)(p := (mem st1 p)\<lparr>baseImportPath := importPath\<rparr>)\<rparr>
             in case load (loadImport n e b ctx) e b ctx stk bp err p st2 of
                  None \<Rightarrow> None
                | Some st3 \<Rightarrow>
                   (case Error (mem st3 p) of
                      Some perr \<Rightarrow>
                        (case importPos of
                           [] \<Rightarrow> Some (p, st3)
                         | pos # rest \<Rightarrow>
                             Some (p, st3\<lparr>mem := (mem st3)(p := (mem st3 p)\<lparr>Error := Some (perr\<lparr>Pos :=
                               Position_String b (pos\<lparr>Filename := shortPath b (Filename pos)\<rparr>)\<rparr>)\<rparr>)\<rparr>))
                    | None \<Rightarrow> Some (p, st3))))"

definition loadPackage ::
  "nat \<Rightarrow> os_env \<Rightarrow> build_env \<Rightarrow> string \<Rightarrow> string list \<Rightarrow> loader \<Rightarrow> (nat \<times> loader) option" where
  "loadPackage n e b arg stk st =
     (let base = packageBaseImportPath arg;
          options = (case packageOptions arg of None \<Rightarrow> [] | Some opts \<Rightarrow> opts);
          base = (if build_IsLocalImport b base
                  then (let bp = Default_ImportDir b (filepath_Join e (cwd b) base)
                        in if ImportPath bp \<noteq> [] \<and> ImportPath bp \<noteq> ''.'' then ImportPath bp else base)
                  else base);
          buildContext = build_Default b;
          buildContext = (if contains options ''race''
            then buildContext\<lparr>
                   InstallSuffix := (if InstallSuffix buildContext \<noteq> []
                                     then InstallSuffix buildContext @ ''_'' else InstallSuffix buildContext) @ ''race'',
                   BuildTags := BuildTags buildContext @ [''race'']\<rparr>
            else buildContext)
      in loadImport n e b buildContext base (cwd b) stk [] st)"

section \<open>restore, in the second and in the first main.go\<close>

text \<open>
  \<open>fmt_strings\<close> is what the verb \<open>%s\<close> prints for a \<open>[]string\<close>, and \<open>pad40\<close> what \<open>%-40s\<close>
  prints for a string.
\<close>

definition fmt_strings :: "string list \<Rightarrow> string" where
  "fmt_strings xs = ''['' @ strings_Join xs '' '' @ '']''"

definition pad40 :: "string \<Rightarrow> string" where
  "pad40 x = x @ replicate (40 - length x) CHR '' ''"

text \<open>
  packagesForBuild (pkg.go). The first loop loads every argument once; the import stack
  is empty whenever loadPackage is called, since loadImport pops what it pushes.
\<close>

fun packagesForBuild_args ::
  "nat \<Rightarrow> os_env \<Rightarrow> build_env \<Rightarrow> string list \<Rightarrow> nat list \<times> string set \<times> loader \<Rightarrow>
   (nat list \<times> string set \<times> loader) option" where
  "packagesForBuild_args n e b [] acc = Some acc"
| "packagesForBuild_args n e b (arg # args) (pkgs, seen, st) =
     (if arg \<in> seen then packagesForBuild_args n e b args (pkgs, seen, st)
      else case loadPackage n e b arg [] st of
        None \<Rightarrow> None
      | Some (p, st1) \<Rightarrow> packagesForBuild_args n e b args (pkgs @ [p], insert arg seen, st1))"

text \<open>
  The loops that report the errors. The map \<open>printed\<close> has the pointers to the errors as
  keys; every PackageError is allocated for one package and stored only there, so the
  set of the packages whose error was printed stands for it. The state of the loops is
  \<open>printed\<close>, the lines logged and the count \<open>errors\<close>.
\<close>

fun packagesForBuild_deps :: "heap \<Rightarrow> nat list \<Rightarrow> nat set \<times> string list \<times> nat \<Rightarrow> nat set \<times> string list \<times> nat" where
  "packagesForBuild_deps s [] acc = acc"
| "packagesForBuild_deps s (dep # ds) (printed, out, errors) =
     (case Error (s dep) of
        None \<Rightarrow> packagesForBuild_deps s ds (printed, out, errors)
      | Some err \<Rightarrow>
          if dep \<in> printed then packagesForBuild_deps s ds (printed, out, errors)
          else packagesForBuild_deps s ds (insert dep printed, out @ [PackageError_Error err], errors + 1))"

fun packagesForBuild_errors :: "heap \<Rightarrow> nat list \<Rightarrow> nat set \<times> string list \<times> nat \<Rightarrow> nat set \<times> string list \<times> nat" where
  "packagesForBuild_errors s [] acc = acc"
| "packagesForBuild_errors s (pkg # pkgs) (printed, out, errors) =
     (let (out, errors) = (case Error (s pkg) of
            None \<Rightarrow> (out, errors)
          | Some err \<Rightarrow> (out @ [''can't load package: '' @ PackageError_Error err], errors + 1))
      in packagesForBuild_errors s pkgs (packagesForBuild_deps s (deps (s pkg)) (printed, out, errors)))"

text \<open>
  The result of packagesForBuild: the lines logged, and the packages with the loader
  state, or \<open>None\<close> for \<open>os.Exit(1)\<close>. The outer \<open>None\<close> says that the nested calls allowed
  were used up.
\<close>

definition packagesForBuild ::
  "nat \<Rightarrow> os_env \<Rightarrow> build_env \<Rightarrow> string list \<Rightarrow> loader \<Rightarrow> (string list \<times> (nat list \<times> loader) option) option" where
  "packagesForBuild n e b args st =
     (let args = (if length args = 0 then [''.''] else args) in
      case packagesForBuild_args n e b args ([], {}, st) of
        None \<Rightarrow> None
      | Some (pkgs, seen, st1) \<Rightarrow>
         (case computeStale n e (mem st1) pkgs of
            None \<Rightarrow> None
          | Some (s2, out) \<Rightarrow>
             (let (printed, out, errors) = packagesForBuild_errors s2 pkgs ({}, out, 0)
              in if errors > 0 then Some (out, None)
                 else Some (out, Some (pkgs, st1\<lparr>mem := s2\<rparr>)))))"

fun loadAll_deps :: "nat list \<Rightarrow> nat set \<times> nat list \<Rightarrow> nat set \<times> nat list" where
  "loadAll_deps [] acc = acc"
| "loadAll_deps (dep # ds) (seen, all) =
     (if dep \<in> seen then loadAll_deps ds (seen, all) else loadAll_deps ds (insert dep seen, all @ [dep]))"

fun loadAll_roots :: "heap \<Rightarrow> nat list \<Rightarrow> nat set \<times> nat list \<Rightarrow> nat set \<times> nat list" where
  "loadAll_roots s [] acc = acc"
| "loadAll_roots s (root # roots) (seen, all) =
     (if root \<in> seen then loadAll_roots s roots (seen, all)
      else loadAll_roots s roots (loadAll_deps (deps (s root)) (insert root seen, all @ [root])))"

definition loadAll ::
  "nat \<Rightarrow> os_env \<Rightarrow> build_env \<Rightarrow> string list \<Rightarrow> loader \<Rightarrow> (string list \<times> (nat list \<times> loader) option) option" where
  "loadAll n e b args st =
     (case packagesForBuild n e b args st of
        None \<Rightarrow> None
      | Some (out, None) \<Rightarrow> Some (out, None)
      | Some (out, Some (roots, st1)) \<Rightarrow>
          Some (out, Some (sort_packageList (mem st1) (snd (loadAll_roots (mem st1) roots ({}, []))), st1)))"

text \<open>
  The loop of restore over the packages (second main.go, lines 519 to 537). The state
  is the heap, the lines logged and the world; the loop ends the run with \<open>Inl\<close> when
  Fingerprint, linkOrCopy or \<open>os.Chtimes\<close> fails. \<open>0755\<close> is 493.
\<close>

fun restore_loop ::
  "'w os_api \<Rightarrow> nat \<Rightarrow> string \<Rightarrow> int \<Rightarrow> nat list \<Rightarrow> heap \<times> string list \<times> 'w \<Rightarrow>
   ('w exit + heap \<times> string list \<times> 'w) option" where
  "restore_loop api n dir now [] acc = Some (Inr acc)"
| "restore_loop api n dir now (pkg # pkgs) (s, out, w) =
     (if Standard (s pkg) \<and> \<not> race (s pkg) then restore_loop api n dir now pkgs (s, out, w)
      else case Fingerprint n (os_view api w) s pkg of
        None \<Rightarrow> None
      | Some (Inl x) \<Rightarrow> Some (Inl (Exit 1 out w))
      | Some (Inr (fp, s1)) \<Rightarrow>
         (let src = filepath_Join (os_view api w) dir fp;
              importPath = ImportPath (Package_bp (s1 pkg));
              target = Target (s1 pkg)
          in case exists api src w of
               (False, w1) \<Rightarrow>
                 restore_loop api n dir now pkgs
                   (s1, out @ [pad40 ''-'' @ ''  '' @ importPath @ '' ('' @ fp @ '':'' @ target @ '')''], w1)
             | (True, w1) \<Rightarrow>
                (let out1 = out @ [pad40 fp @ ''  '' @ importPath @ '' ('' @ target @ '')''];
                     w2 = snd (os_Remove api target w1);
                     w3 = snd (os_MkdirAll api (filepath_Dir api target) 493 w2)
                 in case linkOrCopy api src target w3 of
                      (Some err, w4) \<Rightarrow> Some (Inl (Exit 1 out1 w4))
                    | (None, w4) \<Rightarrow>
                       (case os_Chtimes api target now now w4 of
                          (Some err, w5) \<Rightarrow> Some (Inl (Exit 1 out1 w5))
                        | (None, w5) \<Rightarrow> restore_loop api n dir now pkgs (s1, out1, w5)))))"

text \<open>
  restore of the second main.go. \<open>b\<close> is go/build and the process, \<open>since\<close> prints a
  duration, \<open>n\<close> bounds the nested calls of the loader, of the walk and of Fingerprint,
  and \<open>st\<close> is the loader state, with the global \<open>packageCache\<close>. \<open>time.Since\<close> reads the
  clock. The result is how the process ends: with \<open>os.Exit(0)\<close> when the cache directory
  does not exist, with status 1 after \<open>os.Exit(1)\<close> or \<open>log.Fatal\<close>, with status 0 when
  \<open>main\<close> returns.
\<close>

definition restore ::
  "'w os_api \<Rightarrow> build_env \<Rightarrow> (int \<Rightarrow> string) \<Rightarrow> nat \<Rightarrow> string list \<Rightarrow> loader \<Rightarrow> 'w \<Rightarrow> 'w exit option" where
  "restore api b since n args st w =
     (let args = (if length args = 0 then [''.''] else args);
          dir = cacheDir api
      in case exists api dir w of
           (False, w1) \<Rightarrow> Some (Exit 0 [dir @ '' does not exist''] w1)
         | (True, w1) \<Rightarrow>
            (let out = [''restoring '' @ fmt_strings args @ '' from '' @ dir];
                 (start, w2) = time_Now api w1
             in case loadAll n (os_view api w2) b args st of
                  None \<Rightarrow> None
                | Some (lines, None) \<Rightarrow> Some (Exit 1 (out @ lines) w2)
                | Some (lines, Some (pkgs, st1)) \<Rightarrow>
                   (let (finish, w3) = time_Now api w2;
                        out = out @ lines @ [''finished loading: '' @ since (finish - start)];
                        (now, w4) = time_Now api w3
                    in case restore_loop api n dir now pkgs (mem st1, out, w4) of
                         None \<Rightarrow> None
                       | Some (Inl ex) \<Rightarrow> Some ex
                       | Some (Inr (s, out, w5)) \<Rightarrow> Some (Exit 0 out w5))))"

subsection \<open>The first main.go\<close>

text \<open>
  \<open>goList dir\<close> is the package that \<open>go list -json dir\<close> prints, \<open>None\<close> when the command
  fails or its output cannot be parsed: goList or its caller then ends the run with
  \<open>log.Fatal\<close>. The map \<open>pkgs\<close> is the list of its entries, \<open>new\<close> hands out the address
  \<open>golist_fresh\<close>.
\<close>

record golist_loader =
  pkgMap :: "(string \<times> nat) list"
  golist_mem :: golist_heap
  golist_fresh :: nat

fun golist_each ::
  "(string \<Rightarrow> golist_loader \<Rightarrow> (failure + golist_loader) option) \<Rightarrow> string list \<Rightarrow> golist_loader \<Rightarrow>
   (failure + golist_loader) option" where
  "golist_each f [] st = Some (Inr st)"
| "golist_each f (dep # ds) st =
     (if isStdLib dep then golist_each f ds st
      else case f dep st of
        None \<Rightarrow> None
      | Some (Inl x) \<Rightarrow> Some (Inl x)
      | Some (Inr st1) \<Rightarrow> golist_each f ds st1)"

fun loadPackages ::
  "nat \<Rightarrow> (string \<Rightarrow> golist_Package option) \<Rightarrow> string \<Rightarrow> golist_loader \<Rightarrow>
   (failure + nat \<times> golist_loader) option" where
  "loadPackages 0 goList importPath st = None"
| "loadPackages (Suc n) goList importPath st =
     (case map_of (pkgMap st) importPath of
        Some pkg \<Rightarrow> Some (Inr (pkg, st))
      | None \<Rightarrow>
         (case goList importPath of
            None \<Rightarrow> Some (Inl LogFatal)
          | Some pkg \<Rightarrow>
             (let p = golist_fresh st;
                  st1 = st\<lparr>pkgMap := AList.update (golist_Package.ImportPath pkg) p (pkgMap st),
                           golist_mem := (golist_mem st)(p := pkg),
                           golist_fresh := Suc p\<rparr>
              in case golist_each (\<lambda>dep st. map_option (map_sum id snd) (loadPackages n goList dep st))
                        (Deps pkg) st1 of
                   None \<Rightarrow> None
                 | Some (Inl x) \<Rightarrow> Some (Inl x)
                 | Some (Inr st2) \<Rightarrow> Some (Inr (p, st2)))))"

text \<open>
  load of the first main.go. The two loops over the map visit its entries in the orders
  \<open>range1\<close> and \<open>range2\<close>. \<open>strings.HasPrefix\<close> is written with \<open>take\<close>.
\<close>

fun golist_load_tests ::
  "(string \<Rightarrow> golist_loader \<Rightarrow> (failure + golist_loader) option) \<Rightarrow> nat list \<Rightarrow> golist_loader \<Rightarrow>
   (failure + golist_loader) option" where
  "golist_load_tests f [] st = Some (Inr st)"
| "golist_load_tests f (pkg # pkgs) st =
     (case golist_each f (TestImports (golist_mem st pkg)) st of
        None \<Rightarrow> None
      | Some (Inl x) \<Rightarrow> Some (Inl x)
      | Some (Inr st1) \<Rightarrow> golist_load_tests f pkgs st1)"

definition golist_sort_packageList :: "golist_heap \<Rightarrow> nat list \<Rightarrow> nat list" where
  "golist_sort_packageList s ps = sort_key (\<lambda>p. golist_Package.ImportPath (s p)) ps"

definition golist_load ::
  "nat \<Rightarrow> (string \<Rightarrow> golist_Package option) \<Rightarrow> ((string \<times> nat) list \<Rightarrow> (string \<times> nat) list) \<Rightarrow>
   ((string \<times> nat) list \<Rightarrow> (string \<times> nat) list) \<Rightarrow> string \<Rightarrow> (failure + nat list \<times> golist_loader) option" where
  "golist_load n goList range1 range2 dir =
     (let st = \<lparr>pkgMap = [], golist_mem = (\<lambda>a. zero_golist_Package), golist_fresh = 1\<rparr>
      in case loadPackages n goList dir st of
           None \<Rightarrow> None
         | Some (Inl x) \<Rightarrow> Some (Inl x)
         | Some (Inr (root, st1)) \<Rightarrow>
            (let rootPkgs = map snd (filter
                   (\<lambda>(importPath, pkg). take (length (golist_Package.ImportPath (golist_mem st1 root))) importPath =
                      golist_Package.ImportPath (golist_mem st1 root))
                   (range1 (pkgMap st1)))
             in case golist_load_tests
                       (\<lambda>dep st. map_option (map_sum id snd) (loadPackages n goList dep st)) rootPkgs st1 of
                  None \<Rightarrow> None
                | Some (Inl x) \<Rightarrow> Some (Inl x)
                | Some (Inr st2) \<Rightarrow>
                    Some (Inr (golist_sort_packageList (golist_mem st2) (map snd (range2 (pkgMap st2))), st2))))"

text \<open>The loop of restore over the packages (first main.go, lines 333 to 348).\<close>

fun golist_restore_loop ::
  "'w os_api \<Rightarrow> nat \<Rightarrow> (string \<rightharpoonup> nat) \<Rightarrow> string \<Rightarrow> int \<Rightarrow> nat list \<Rightarrow> golist_heap \<times> string list \<times> 'w \<Rightarrow>
   'w exit option" where
  "golist_restore_loop api n pkgs dir now [] (s, out, w) = Some (Exit 0 out w)"
| "golist_restore_loop api n pkgs dir now (pkg # rest) (s, out, w) =
     (case golist_Fingerprint n (os_view api w) pkgs s pkg of
        None \<Rightarrow> None
      | Some (Inl x) \<Rightarrow> Some (Exit 1 out w)
      | Some (Inr (fp, s1)) \<Rightarrow>
         (let src = filepath_Join (os_view api w) dir fp
          in case exists api src w of
               (False, w1) \<Rightarrow>
                 golist_restore_loop api n pkgs dir now rest
                   (s1, out @ [pad40 ''-'' @ ''  '' @ golist_Package.ImportPath (s1 pkg)], w1)
             | (True, w1) \<Rightarrow>
                (let out1 = out @ [pad40 fp @ ''  '' @ golist_Package.ImportPath (s1 pkg)];
                     w2 = snd (os_Remove api (golist_Package.Target (s1 pkg)) w1)
                 in case os_Link api src (golist_Package.Target (s1 pkg)) w2 of
                      (Some err, w3) \<Rightarrow> Some (Exit 1 out1 w3)
                    | (None, w3) \<Rightarrow>
                       (case os_Chtimes api (golist_Package.Target (s1 pkg)) now now w3 of
                          (Some err, w4) \<Rightarrow> Some (Exit 1 out1 w4)
                        | (None, w4) \<Rightarrow> golist_restore_loop api n pkgs dir now rest (s1, out1, w4)))))"

text \<open>
  restore of the first main.go; \<open>prog\<close> is \<open>os.Args[0]\<close>. More than two arguments end the
  run with \<open>log.Fatalf\<close> before anything else is looked at.
\<close>

definition golist_restore ::
  "'w os_api \<Rightarrow> string \<Rightarrow> (string \<Rightarrow> golist_Package option) \<Rightarrow> ((string \<times> nat) list \<Rightarrow> (string \<times> nat) list) \<Rightarrow>
   ((string \<times> nat) list \<Rightarrow> (string \<times> nat) list) \<Rightarrow> nat \<Rightarrow> string list \<Rightarrow> 'w \<Rightarrow> 'w exit option" where
  "golist_restore api prog goList range1 range2 n args w =
     (if length args > 2 then Some (Exit 1 [''usage: '' @ prog @ '' restore [package-path]''] w)
      else
       (let path = (if length args = 1 then args ! 0 else ''.'');
            dir = cacheDir api
        in case exists api dir w of
             (False, w1) \<Rightarrow> Some (Exit 0 [dir @ '' does not exist''] w1)
           | (True, w1) \<Rightarrow>
              (let out = [''restoring '' @ path @ '' from '' @ dir]
               in case golist_load n goList range1 range2 path of
                    None \<Rightarrow> None
                  | Some (Inl x) \<Rightarrow> Some (Exit 1 out w1)
                  | Some (Inr (pkgList, st)) \<Rightarrow>
                     (let (now, w2) = time_Now api w1
                      in golist_restore_loop api n (map_of (pkgMap st)) dir now pkgList
                           (golist_mem st, out, w2)))))"


definition unmemo :: "heap \<Rightarrow> heap" where
  "unmemo s = (\<lambda>q. (s q)\<lparr>fingerprint := None\<rparr>)"

definition owned_files :: "build_Package \<Rightarrow> string list" where
  "owned_files bp = GoFiles bp @ CgoFiles bp @ CFiles bp @ CXXFiles bp @ MFiles bp @ HFiles bp @
     SFiles bp @ SwigFiles bp @ SwigCXXFiles bp @ SysoFiles bp"

definition cgo_flags :: "build_Package \<Rightarrow> string list" where
  "cgo_flags bp = CgoCFLAGS bp @ CgoCPPFLAGS bp @ CgoCXXFLAGS bp @ CgoLDFLAGS bp @ CgoPkgConfig bp"

definition file_bytes :: "os_env \<Rightarrow> string \<Rightarrow> string \<Rightarrow> string" where
  "file_bytes e dir file = the (readFile e (filepath_Join e dir file))"

definition included :: "heap \<Rightarrow> nat \<Rightarrow> nat list \<Rightarrow> nat list" where
  "included s p ds = filter (\<lambda>d. race (s p) \<or> \<not> Standard (s d)) ds"

text \<open>What a call of Fingerprint guarantees when it returns.\<close>

definition fp_post :: "heap \<Rightarrow> nat \<Rightarrow> string \<Rightarrow> heap \<Rightarrow> bool" where
  "fp_post s d fp s' \<longleftrightarrow>
     unmemo s' = unmemo s \<and> fingerprint (s' d) = Some fp \<and>
     (\<forall>q x. fingerprint (s q) = Some x \<longrightarrow> fingerprint (s' q) = Some x)"

text \<open>What a call returns, when it returns: not out of nested calls, no \<open>log.Fatal\<close>.\<close>

definition returned :: "(failure + 'a \<times> 'h) option \<Rightarrow> 'a option" where
  "returned r = (case r of Some (Inr (a, s)) \<Rightarrow> Some a | _ \<Rightarrow> None)"

text \<open>
  The bytes that section 4.2 of the spec feeds to the hash, in its words: the toolchain
  identity and the unit's identity string; every flag list; the byte content of every
  owned source file, by category and in lexical filename order within a category; the
  fingerprints of the dependencies (given as \<open>depfps\<close>, in the order the spec asks for).
\<close>

definition spec_digest_input :: "os_env \<Rightarrow> build_Package \<Rightarrow> string list \<Rightarrow> string" where
  "spec_digest_input e bp depfps =
     (runtime_Version e @ runtime_GOOS e @ runtime_GOARCH e @ ImportPath bp) @
     concat (CgoCFLAGS bp @ CgoCPPFLAGS bp @ CgoCXXFLAGS bp @ CgoLDFLAGS bp @ CgoPkgConfig bp) @
     concat (map (file_bytes e (Dir bp))
       (sort (GoFiles bp) @ sort (CgoFiles bp) @ sort (CFiles bp) @ sort (CXXFiles bp) @
        sort (MFiles bp) @ sort (HFiles bp) @ sort (SFiles bp) @ sort (SwigFiles bp) @
        sort (SwigCXXFiles bp) @ sort (SysoFiles bp))) @
     concat depfps"

definition golist_unmemo :: "golist_heap \<Rightarrow> golist_heap" where
  "golist_unmemo s = (\<lambda>q. (s q)\<lparr>golist_Package.fingerprint := None\<rparr>)"

definition golist_owned_files :: "golist_Package \<Rightarrow> string list" where
  "golist_owned_files p =
     golist_Package.GoFiles p @ golist_Package.CgoFiles p @ golist_Package.CFiles p @
     golist_Package.CXXFiles p @ golist_Package.MFiles p @ golist_Package.HFiles p @
     golist_Package.SFiles p @ golist_Package.SwigFiles p @ golist_Package.SwigCXXFiles p @
     golist_Package.SysoFiles p"

definition golist_cgo_flags :: "golist_Package \<Rightarrow> string list" where
  "golist_cgo_flags p =
     golist_Package.CgoCFLAGS p @ golist_Package.CgoCPPFLAGS p @ golist_Package.CgoCXXFLAGS p @
     golist_Package.CgoLDFLAGS p @ golist_Package.CgoPkgConfig p"

text \<open>The packages whose fingerprints the loop over \<open>p.Deps\<close> asks for, in its order.\<close>

definition golist_included :: "(string \<rightharpoonup> nat) \<Rightarrow> string list \<Rightarrow> nat list" where
  "golist_included pkgs ds = map (\<lambda>dep. the (pkgs dep)) (filter (\<lambda>dep. \<not> isStdLib dep) ds)"

definition golist_fp_post :: "golist_heap \<Rightarrow> nat \<Rightarrow> string \<Rightarrow> golist_heap \<Rightarrow> bool" where
  "golist_fp_post s d fp s' \<longleftrightarrow>
     golist_unmemo s' = golist_unmemo s \<and> golist_Package.fingerprint (s' d) = Some fp \<and>
     (\<forall>q x. golist_Package.fingerprint (s q) = Some x \<longrightarrow> golist_Package.fingerprint (s' q) = Some x)"

text \<open>The import graph of a heap: an edge from every package to each of its \<open>imports\<close>.\<close>

definition import_edges :: "heap \<Rightarrow> (nat \<times> nat) set" where
  "import_edges s = {(p, q). q \<in> set (imports_of (s p))}"

text \<open>Every package of the list has its imports in \<open>done\<close> or earlier in the list.\<close>

fun imports_first :: "heap \<Rightarrow> nat set \<Rightarrow> nat list \<Rightarrow> bool" where
  "imports_first s done [] = True"
| "imports_first s done (x # xs) = (set (imports_of (s x)) \<subseteq> done \<and> imports_first s (insert x done) xs)"

text \<open>The first three tests of isStale: a fake package, and a package without Go sources.\<close>

definition fake_builtin :: "Package \<Rightarrow> bool" where
  "fake_builtin p \<longleftrightarrow>
     Standard p \<and> (baseImportPath p = ''unsafe'' \<or> Compiler (buildContext p) = ''gccgo'')"

definition no_go_source :: "Package \<Rightarrow> bool" where
  "no_go_source p \<longleftrightarrow>
     GoFiles (Package_bp p) = [] \<and> CgoFiles (Package_bp p) = [] \<and> TestGoFiles (Package_bp p) = [] \<and>
     XTestGoFiles (Package_bp p) = [] \<and> \<not> usesSwig p"

text \<open>What \<open>walk\<close> over the packages \<open>ps\<close> adds to (seen, all), for a rank that falls along imports.\<close>

definition walk_post :: "heap \<Rightarrow> (nat \<Rightarrow> nat) \<Rightarrow> nat list \<Rightarrow> nat set \<times> nat list \<Rightarrow> nat set \<times> nat list \<Rightarrow> bool" where
  "walk_post s rank ps st st' \<longleftrightarrow>
     (\<exists>new. snd st' = snd st @ new \<and> fst st' = fst st \<union> set new \<and> set new \<inter> fst st = {} \<and>
        distinct new \<and> set ps \<subseteq> fst st' \<and> (\<forall>x\<in>set new. \<exists>p\<in>set ps. rank x \<le> rank p) \<and>
        imports_first s (fst st) new)"

section \<open>The loader and import cycles\<close>

text \<open>
  Acyclicity below a mark. \<open>grounded mark s p\<close>: the load of \<open>p\<close> has set \<open>imports\<close>, and
  every import that \<open>mark\<close> does not mark is grounded too. The two marks are Incomplete and
  a recorded Error.
\<close>

inductive grounded :: "(Package \<Rightarrow> bool) \<Rightarrow> heap \<Rightarrow> nat \<Rightarrow> bool" for mark s where
  "imports' (s p) = Some ps \<Longrightarrow> (\<And>q. q \<in> set ps \<Longrightarrow> \<not> mark (s q) \<Longrightarrow> grounded mark s q) \<Longrightarrow>
   grounded mark s p"

definition has_Error :: "Package \<Rightarrow> bool" where
  "has_Error p \<longleftrightarrow> Error p \<noteq> None"

text \<open>The imports between the packages that have no Error.\<close>

definition error_free_edges :: "heap \<Rightarrow> (nat \<times> nat) set" where
  "error_free_edges s = {(p, q). q \<in> set (imports_of (s p)) \<and> Error (s q) = None}"

text \<open>
  What loadImport hands back: a package whose load is over, or one that is marked
  Incomplete and carries an Error.
\<close>

definition ready :: "heap \<Rightarrow> nat \<Rightarrow> bool" where
  "ready s q \<longleftrightarrow> imports' (s q) \<noteq> None \<or> (Incomplete (s q) \<and> Error (s q) \<noteq> None)"

text \<open>
  The invariant of the loader state: the packages whose load is over are grounded for
  both marks; Incomplete goes from an import to the importer, and an import is loaded or
  Incomplete; a loaded package that is Incomplete has an Error or an Incomplete import;
  nothing lives at or above \<open>fresh\<close>.
\<close>

definition loader_inv :: "loader \<Rightarrow> bool" where
  "loader_inv st \<longleftrightarrow>
     (\<forall>r. imports' (mem st r) \<noteq> None \<longrightarrow>
        grounded Incomplete (mem st) r \<and> grounded has_Error (mem st) r) \<and>
     (\<forall>r ps q. imports' (mem st r) = Some ps \<longrightarrow> q \<in> set ps \<longrightarrow>
        (Incomplete (mem st q) \<longrightarrow> Incomplete (mem st r)) \<and>
        (Incomplete (mem st q) \<or> imports' (mem st q) \<noteq> None)) \<and>
     (\<forall>r ps. imports' (mem st r) = Some ps \<longrightarrow> Incomplete (mem st r) \<longrightarrow> Error (mem st r) = None \<longrightarrow>
        (\<exists>q\<in>set ps. Incomplete (mem st q))) \<and>
     (\<forall>r. fresh st \<le> r \<longrightarrow> mem st r = zero_Package) \<and>
     (\<forall>k a. packageCache st k = Some a \<longrightarrow> a < fresh st)"

text \<open>What a call of the loader may change in the packages that were there before it.\<close>

definition ext :: "loader \<Rightarrow> loader \<Rightarrow> bool" where
  "ext st st' \<longleftrightarrow>
     fresh st \<le> fresh st' \<and>
     (\<forall>r<fresh st. imports' (mem st r) \<noteq> None \<longrightarrow>
        imports' (mem st' r) = imports' (mem st r) \<and> Incomplete (mem st' r) = Incomplete (mem st r)) \<and>
     (\<forall>r<fresh st. Incomplete (mem st r) \<longrightarrow> Incomplete (mem st' r)) \<and>
     (\<forall>r<fresh st. Error (mem st r) \<noteq> None \<longrightarrow> Error (mem st' r) \<noteq> None) \<and>
     (\<forall>r<fresh st. imports' (mem st r) = None \<longrightarrow> imports' (mem st' r) = None) \<and>
     (\<forall>r<fresh st. Package_bp (mem st' r) = Package_bp (mem st r)) \<and>
     (\<forall>r<fresh st. Incomplete (mem st' r) \<longrightarrow> Incomplete (mem st r) \<or> Error (mem st' r) \<noteq> None) \<and>
     (\<forall>k a. packageCache st k = Some a \<longrightarrow> packageCache st' k = Some a)"

text \<open>The result \<open>(p1, st1)\<close> of a call of loadImport in the state \<open>st\<close>.\<close>

definition loaded :: "loader \<Rightarrow> nat \<Rightarrow> loader \<Rightarrow> bool" where
  "loaded st p1 st1 \<longleftrightarrow> loader_inv st1 \<and> ext st st1 \<and> p1 < fresh st1 \<and> ready (mem st1) p1"

text \<open>
  The state inside the loop of load for the package \<open>p\<close>, which was allocated in the state
  \<open>st0\<close>, with \<open>imports\<close> collected so far.
\<close>

definition loading :: "loader \<Rightarrow> nat \<Rightarrow> loader \<Rightarrow> nat list \<Rightarrow> bool" where
  "loading st0 p st imports \<longleftrightarrow>
     loader_inv st \<and> ext st0 st \<and> fresh st0 \<le> p \<and> p < fresh st \<and> imports' (mem st p) = None \<and>
     (\<forall>q\<in>set imports. ready (mem st) q \<and> (Incomplete (mem st q) \<longrightarrow> Incomplete (mem st p))) \<and>
     (Incomplete (mem st p) \<longrightarrow> Error (mem st p) \<noteq> None \<or> (\<exists>q\<in>set imports. Incomplete (mem st q)))"

text \<open>The pieces of load and loadImport, named so that the proofs can speak of them.\<close>

definition fullImportPath :: "os_env \<Rightarrow> build_env \<Rightarrow> build_Context \<Rightarrow> string \<Rightarrow> string \<Rightarrow> string" where
  "fullImportPath e b ctx path srcDir =
     (let importPath = (if build_IsLocalImport b path then dirToImportPath b (filepath_Join e srcDir path) else path)
      in if contains (BuildTags ctx) ''race'' then importPath @ '':race'' else importPath)"

definition loadImport_bp :: "os_env \<Rightarrow> build_env \<Rightarrow> build_Context \<Rightarrow> string \<Rightarrow> string \<Rightarrow> build_Package" where
  "loadImport_bp e b ctx path srcDir =
     (let bp = (fst (Context_Import b ctx path srcDir))\<lparr>ImportPath := fullImportPath e b ctx path srcDir\<rparr>
      in if gobin b \<noteq> [] then bp\<lparr>BinDir := gobin b\<rparr> else bp)"

definition loadImport_err :: "os_env \<Rightarrow> build_env \<Rightarrow> build_Context \<Rightarrow> string \<Rightarrow> string \<Rightarrow> go_error option" where
  "loadImport_err e b ctx path srcDir =
     (let bp = loadImport_bp e b ctx path srcDir; err = snd (Context_Import b ctx path srcDir)
      in if err = None \<and> \<not> build_IsLocalImport b path \<and> ImportComment bp \<noteq> [] \<and> ImportComment bp \<noteq> path
         then Some (errors_New (''code in directory '' @ Dir bp @ '' expects import '' @
                      strconv_Quote b (ImportComment bp)))
         else err)"

definition loadImport_new :: "os_env \<Rightarrow> build_env \<Rightarrow> build_Context \<Rightarrow> string \<Rightarrow> string \<Rightarrow> loader \<Rightarrow> loader" where
  "loadImport_new e b ctx path srcDir st =
     st\<lparr>packageCache := (packageCache st)(fullImportPath e b ctx path srcDir \<mapsto> fresh st),
        fresh := Suc (fresh st),
        mem := (mem st)(fresh st := zero_Package\<lparr>local := build_IsLocalImport b path,
          baseImportPath := (if build_IsLocalImport b path
             then dirToImportPath b (filepath_Join e srcDir path) else path)\<rparr>)\<rparr>"

definition loadImport_pos :: "build_env \<Rightarrow> token_Position list \<Rightarrow> nat \<Rightarrow> loader \<Rightarrow> loader" where
  "loadImport_pos b importPos p st =
     (case Error (mem st p) of
        Some perr \<Rightarrow>
          (case importPos of
             [] \<Rightarrow> st
           | pos # rest \<Rightarrow>
               st\<lparr>mem := (mem st)(p := (mem st p)\<lparr>Error := Some (perr\<lparr>Pos :=
                 Position_String b (pos\<lparr>Filename := shortPath b (Filename pos)\<rparr>)\<rparr>)\<rparr>)\<rparr>)
      | None \<Rightarrow> st)"

definition load_head :: "os_env \<Rightarrow> build_env \<Rightarrow> build_Context \<Rightarrow> build_Package \<Rightarrow> Package \<Rightarrow> Package" where
  "load_head e b ctx bp p =
     (let p0 = p\<lparr>Package_bp := bp, buildContext := ctx,
                  Standard := (Goroot bp \<and> ImportPath bp \<noteq> [] \<and> CHR ''.'' \<notin> set (ImportPath bp)),
                  race := contains (BuildTags ctx) ''race''\<rparr>
      in p0\<lparr>Target := load_Target e b ctx p0\<rparr>)"

definition load_failed :: "os_env \<Rightarrow> build_env \<Rightarrow> build_Context \<Rightarrow> string list \<Rightarrow> build_Package \<Rightarrow> go_error \<Rightarrow> Package \<Rightarrow> Package" where
  "load_failed e b ctx stk bp er p =
     p\<lparr>Package_bp := bp, buildContext := ctx,
       Standard := (Goroot bp \<and> ImportPath bp \<noteq> [] \<and> CHR ''.'' \<notin> set (ImportPath bp)),
       race := contains (BuildTags ctx) ''race'',
       Incomplete := True,
       Error := Some \<lparr>ImportStack = stk, Pos = [], Err = error_Error b (expandScanner b er),
                 isImportCycle = False, hard = False\<rparr>\<rparr>"

definition load_tail :: "build_env \<Rightarrow> build_Context \<Rightarrow> string list \<Rightarrow> nat \<Rightarrow> (string \<times> nat) list \<Rightarrow> nat list \<Rightarrow> heap \<Rightarrow> Package" where
  "load_tail b ctx stk p depmap imports s2 =
     (let p2 = (s2 p)\<lparr>imports' := Some imports\<rparr>;
          s3 = s2(p := p2);
          p3 = p2\<lparr>deps := sort_packageList s3 (map snd (map_range b depmap))\<rparr>;
          p4 = (if Standard p3 \<and> (baseImportPath p3 = ''unsafe'' \<or> Compiler ctx = ''gccgo'')
                then p3\<lparr>Target := []\<rparr> else p3)
      in if length (CFiles (Package_bp p4)) > 0 \<and> \<not> usesCgo p4 \<and>
            (\<not> Standard p4 \<or> baseImportPath p4 \<noteq> ''runtime'')
         then p4\<lparr>Error := Some \<lparr>ImportStack = stk, Pos = [],
                Err = ''C source files not allowed when not using cgo: '' @
                      strings_Join (CFiles (Package_bp p4)) '' '',
                isImportCycle = False, hard = False\<rparr>\<rparr>
         else p4)"


text \<open>
  One turn of the loop of load, after loadImport has given \<open>p1\<close> in the heap \<open>s1\<close>: the
  new value of the package \<open>p\<close>, and the new map \<open>deps\<close>.
\<close>

definition load_imports_record :: "build_env \<Rightarrow> nat \<Rightarrow> string list \<Rightarrow> string \<Rightarrow> nat \<Rightarrow> heap \<Rightarrow> Package" where
  "load_imports_record b p stk path p1 s1 =
     (let s2 = (if local (s1 p1) \<and> \<not> local (s1 p) \<and> Error (s1 p) = None
                then s1(p := (s1 p)\<lparr>Error := Some \<lparr>ImportStack = stk,
                       Pos = (case ImportPos (Package_bp (s1 p)) path of
                                [] \<Rightarrow> [] | pos # rest \<Rightarrow> Position_String b pos),
                       Err = ''local import '' @ strconv_Quote b path @ '' in non-local package'',
                       isImportCycle = False, hard = False\<rparr>\<rparr>)
                else s1)
      in if Incomplete (s2 p1) then (s2 p)\<lparr>Incomplete := True\<rparr> else s2 p)"

definition load_imports_deps ::
  "build_env \<Rightarrow> nat \<Rightarrow> string list \<Rightarrow> string \<Rightarrow> nat \<Rightarrow> heap \<Rightarrow> (string \<times> nat) list \<Rightarrow> (string \<times> nat) list" where
  "load_imports_deps b p stk path p1 s1 depmap =
     (let s2 = (if local (s1 p1) \<and> \<not> local (s1 p) \<and> Error (s1 p) = None
                then s1(p := (s1 p)\<lparr>Error := Some \<lparr>ImportStack = stk,
                       Pos = (case ImportPos (Package_bp (s1 p)) path of
                                [] \<Rightarrow> [] | pos # rest \<Rightarrow> Position_String b pos),
                       Err = ''local import '' @ strconv_Quote b path @ '' in non-local package'',
                       isImportCycle = False, hard = False\<rparr>\<rparr>)
                else s1);
          path = (if local (s2 p1) then ImportPath (Package_bp (s2 p1)) else path);
          depmap = AList.update path p1 depmap
      in fold (\<lambda>dep depmap. AList.update (ImportPath (Package_bp (s2 dep))) dep depmap)
           (deps (s2 p1)) depmap)"

text \<open>
  The calls of loadImport that the load of \<open>(path, srcDir)\<close> makes: none when the import
  fails, else one for every import path but \<open>C\<close>, from the directory of the package.
\<close>

definition loadImport_head :: "os_env \<Rightarrow> build_env \<Rightarrow> build_Context \<Rightarrow> string \<Rightarrow> string \<Rightarrow> Package" where
  "loadImport_head e b ctx path srcDir =
     load_head e b ctx (loadImport_bp e b ctx path srcDir)
       (zero_Package\<lparr>local := build_IsLocalImport b path,
          baseImportPath := (if build_IsLocalImport b path
             then dirToImportPath b (filepath_Join e srcDir path) else path)\<rparr>)"

definition loadImport_calls :: "os_env \<Rightarrow> build_env \<Rightarrow> build_Context \<Rightarrow> string \<times> string \<Rightarrow> (string \<times> string) list" where
  "loadImport_calls e b ctx c =
     (case loadImport_err e b ctx (fst c) (snd c) of
        Some er \<Rightarrow> []
      | None \<Rightarrow> map (\<lambda>path. (path, Dir (loadImport_bp e b ctx (fst c) (snd c))))
                 (filter (\<lambda>path. path \<noteq> ''C'') (load_importPaths (loadImport_head e b ctx (fst c) (snd c)))))"

text \<open>A set of calls that holds the calls of each of its calls.\<close>

definition closed_calls :: "os_env \<Rightarrow> build_env \<Rightarrow> build_Context \<Rightarrow> (string \<times> string) set \<Rightarrow> bool" where
  "closed_calls e b ctx K \<longleftrightarrow> (\<forall>c\<in>K. set (loadImport_calls e b ctx c) \<subseteq> K)"

text \<open>The calls of \<open>K\<close> whose package is not in the cache yet.\<close>

definition uncached :: "os_env \<Rightarrow> build_env \<Rightarrow> build_Context \<Rightarrow> (string \<times> string) set \<Rightarrow> loader \<Rightarrow> string set" where
  "uncached e b ctx K st = (\<lambda>c. fullImportPath e b ctx (fst c) (snd c)) ` K - dom (packageCache st)"

section \<open>The import graph that go/build describes\<close>

text \<open>
  A call of loadImport is an import path with the directory of the importer; its key is
  the name under which the package goes into \<open>packageCache\<close>. For a set \<open>K\<close> of calls, the
  import graph has an edge from the key of every call of \<open>K\<close> to the key of each call that
  its load makes. A key is \<open>failing\<close> when go/build (or the import comment) gives an error
  for it, and \<open>on_cycle\<close> when the import graph leads from it back to it.
\<close>

definition call_key :: "os_env \<Rightarrow> build_env \<Rightarrow> build_Context \<Rightarrow> string \<times> string \<Rightarrow> string" where
  "call_key e b ctx c = fullImportPath e b ctx (fst c) (snd c)"

definition call_fails :: "os_env \<Rightarrow> build_env \<Rightarrow> build_Context \<Rightarrow> string \<times> string \<Rightarrow> bool" where
  "call_fails e b ctx c \<longleftrightarrow> loadImport_err e b ctx (fst c) (snd c) \<noteq> None"

definition import_graph ::
  "os_env \<Rightarrow> build_env \<Rightarrow> build_Context \<Rightarrow> (string \<times> string) set \<Rightarrow> (string \<times> string) set" where
  "import_graph e b ctx K =
     {(k, k'). \<exists>c\<in>K. \<exists>c'\<in>set (loadImport_calls e b ctx c). k = call_key e b ctx c \<and> k' = call_key e b ctx c'}"

definition failing :: "os_env \<Rightarrow> build_env \<Rightarrow> build_Context \<Rightarrow> (string \<times> string) set \<Rightarrow> string \<Rightarrow> bool" where
  "failing e b ctx K k \<longleftrightarrow> (\<exists>c\<in>K. call_key e b ctx c = k \<and> call_fails e b ctx c)"

definition on_cycle :: "os_env \<Rightarrow> build_env \<Rightarrow> build_Context \<Rightarrow> (string \<times> string) set \<Rightarrow> string \<Rightarrow> bool" where
  "on_cycle e b ctx K k \<longleftrightarrow> (k, k) \<in> (import_graph e b ctx K)\<^sup>+"

definition blamed :: "os_env \<Rightarrow> build_env \<Rightarrow> build_Context \<Rightarrow> (string \<times> string) set \<Rightarrow> string \<Rightarrow> bool" where
  "blamed e b ctx K k \<longleftrightarrow> failing e b ctx K k \<or> on_cycle e b ctx K k"

text \<open>
  The two other errors that load records: C source files in a package that may not have
  them (here: any C source file at all), and a local import in a package that was not
  itself imported by a local path.
\<close>

definition may_err :: "os_env \<Rightarrow> build_env \<Rightarrow> build_Context \<Rightarrow> (string \<times> string) set \<Rightarrow> string \<Rightarrow> bool" where
  "may_err e b ctx K k \<longleftrightarrow>
     (\<exists>c\<in>K. call_key e b ctx c = k \<and>
        (CFiles (loadImport_bp e b ctx (fst c) (snd c)) \<noteq> [] \<or>
         \<not> build_IsLocalImport b (fst c) \<and>
         (\<exists>c'\<in>set (loadImport_calls e b ctx c). \<exists>c''\<in>K.
            call_key e b ctx c'' = call_key e b ctx c' \<and> build_IsLocalImport b (fst c''))))"

text \<open>
  Two calls with the same key name the same package: they fail together, and their loads
  import the same keys.
\<close>

definition consistent_calls :: "os_env \<Rightarrow> build_env \<Rightarrow> build_Context \<Rightarrow> (string \<times> string) set \<Rightarrow> bool" where
  "consistent_calls e b ctx K \<longleftrightarrow>
     (\<forall>c\<in>K. \<forall>c'\<in>K. call_key e b ctx c = call_key e b ctx c' \<longrightarrow>
        (call_fails e b ctx c \<longleftrightarrow> call_fails e b ctx c') \<and>
        map (call_key e b ctx) (loadImport_calls e b ctx c) =
          map (call_key e b ctx) (loadImport_calls e b ctx c'))"

text \<open>
  The package \<open>a\<close> that the cache holds for the key \<open>k\<close> is loaded as go/build describes it:
  when the load failed it has no \<open>imports\<close>, is Incomplete and has an Error; else its
  \<open>imports\<close> are the cached packages of the keys that its load imports, in their order.
\<close>

definition node_ok ::
  "os_env \<Rightarrow> build_env \<Rightarrow> build_Context \<Rightarrow> (string \<times> string) set \<Rightarrow> loader \<Rightarrow> string \<Rightarrow> nat \<Rightarrow> bool" where
  "node_ok e b ctx K st k a \<longleftrightarrow>
     (\<forall>c\<in>K. call_key e b ctx c = k \<longrightarrow>
        (if call_fails e b ctx c
         then imports' (mem st a) = None \<and> Incomplete (mem st a) \<and> Error (mem st a) \<noteq> None
         else \<exists>ps. imports' (mem st a) = Some ps \<and>
                list_all2 (\<lambda>k' q. packageCache st k' = Some q)
                  (map (call_key e b ctx) (loadImport_calls e b ctx c)) ps))"

text \<open>The two kinds of Error: the import-cycle error of reusePackage, and every other one.\<close>

definition cycle_Error :: "Package \<Rightarrow> bool" where
  "cycle_Error p \<longleftrightarrow> (\<exists>err. Error p = Some err \<and> isImportCycle err)"

definition plain_Error :: "Package \<Rightarrow> bool" where
  "plain_Error p \<longleftrightarrow> (\<exists>err. Error p = Some err \<and> \<not> isImportCycle err)"

text \<open>
  The invariant that ties the loader state to the import graph. \<open>anc\<close> holds the keys of
  the packages whose load is running. Every other cached package is loaded as go/build
  describes it, and is Incomplete only if it reaches a failing key or a key on a cycle;
  an import-cycle error is recorded only for a key on a cycle, any other Error only for a
  failing key or one of the two other errors.
\<close>

definition linked ::
  "os_env \<Rightarrow> build_env \<Rightarrow> build_Context \<Rightarrow> (string \<times> string) set \<Rightarrow> string set \<Rightarrow> loader \<Rightarrow> bool" where
  "linked e b ctx K anc st \<longleftrightarrow>
     (\<forall>k k' a. packageCache st k = Some a \<longrightarrow> packageCache st k' = Some a \<longrightarrow> k = k') \<and>
     (\<forall>k a. packageCache st k = Some a \<longrightarrow> k \<notin> anc \<longrightarrow> node_ok e b ctx K st k a) \<and>
     (\<forall>k a. packageCache st k = Some a \<longrightarrow> k \<notin> anc \<longrightarrow> Incomplete (mem st a) \<longrightarrow>
        (\<exists>k'. (k, k') \<in> (import_graph e b ctx K)\<^sup>* \<and> blamed e b ctx K k')) \<and>
     (\<forall>k a. packageCache st k = Some a \<longrightarrow> plain_Error (mem st a) \<longrightarrow>
        failing e b ctx K k \<or> may_err e b ctx K k) \<and>
     (\<forall>k a. packageCache st k = Some a \<longrightarrow> cycle_Error (mem st a) \<longrightarrow> on_cycle e b ctx K k) \<and>
     (\<forall>k a. packageCache st k = Some a \<longrightarrow> local (mem st a) \<longrightarrow>
        (\<exists>c\<in>K. call_key e b ctx c = k \<and> build_IsLocalImport b (fst c)))"

text \<open>
  What a call of loadImport for the call \<open>c\<close> adds to \<open>loaded\<close>: the package it returns is
  the one cached for the key of \<open>c\<close>; a package that was cached before becomes Incomplete
  only if its key is on a cycle, and keeps its flag \<open>local\<close>.
\<close>

definition resolved ::
  "os_env \<Rightarrow> build_env \<Rightarrow> build_Context \<Rightarrow> (string \<times> string) set \<Rightarrow> string set \<Rightarrow> string \<times> string \<Rightarrow>
   loader \<Rightarrow> nat \<Rightarrow> loader \<Rightarrow> bool" where
  "resolved e b ctx K anc c st p1 st1 \<longleftrightarrow>
     loaded st p1 st1 \<and> linked e b ctx K anc st1 \<and>
     packageCache st1 (call_key e b ctx c) = Some p1 \<and>
     (\<forall>k r. packageCache st k = Some r \<longrightarrow> Incomplete (mem st1 r) \<longrightarrow>
        Incomplete (mem st r) \<or> on_cycle e b ctx K k) \<and>
     (\<forall>r<fresh st. local (mem st1 r) = local (mem st r))"

text \<open>
  The state inside the loop of load for the package \<open>p\<close> of the call \<open>c\<close>, after the import
  paths \<open>seen\<close> (without \<open>C\<close>), with \<open>imps\<close> collected.
\<close>

definition resolving ::
  "os_env \<Rightarrow> build_env \<Rightarrow> build_Context \<Rightarrow> (string \<times> string) set \<Rightarrow> string set \<Rightarrow> string \<times> string \<Rightarrow>
   loader \<Rightarrow> nat \<Rightarrow> loader \<Rightarrow> string list \<Rightarrow> nat list \<Rightarrow> bool" where
  "resolving e b ctx K anc c st0 p st seen imps \<longleftrightarrow>
     loading st0 p st imps \<and> linked e b ctx K (insert (call_key e b ctx c) anc) st \<and>
     packageCache st0 (call_key e b ctx c) = None \<and>
     packageCache st (call_key e b ctx c) = Some p \<and>
     Package_bp (mem st p) = loadImport_bp e b ctx (fst c) (snd c) \<and>
     local (mem st p) = build_IsLocalImport b (fst c) \<and>
     list_all2 (\<lambda>path q. packageCache st
         (call_key e b ctx (path, Dir (loadImport_bp e b ctx (fst c) (snd c)))) = Some q) seen imps \<and>
     (Incomplete (mem st p) \<longrightarrow>
        on_cycle e b ctx K (call_key e b ctx c) \<or> (\<exists>q\<in>set imps. Incomplete (mem st q))) \<and>
     (\<forall>k r. packageCache st0 k = Some r \<longrightarrow> Incomplete (mem st r) \<longrightarrow>
        Incomplete (mem st0 r) \<or> on_cycle e b ctx K k) \<and>
     (\<forall>r<fresh st0. local (mem st r) = local (mem st0 r))"


section \<open>The order of map iteration\<close>





section \<open>Concrete inputs\<close>

text \<open>The closed examples below run the functions on small inputs.\<close>

text \<open>
  SHA-1 itself is not evaluated in the examples. They use a hash that shows what was
  written to it: it is injective and never gives the empty string, as a digest of 40
  hexadecimal digits never is, so two results differ exactly when the bytes written
  differ.
\<close>

definition shown_hex :: "string \<Rightarrow> string" where
  "shown_hex h = ''sha1('' @ h @ '')''"

definition ex_Join :: "string \<Rightarrow> string \<Rightarrow> string" where
  "ex_Join dir file = dir @ ''/'' @ file"

definition ex_env :: os_env where
  "ex_env = \<lparr>
     runtime_Version = ''go1.4'', runtime_GOOS = ''linux'', runtime_GOARCH = ''amd64'',
     sha1_hex = shown_hex, filepath_Join = ex_Join,
     readFile = map_of [
       (''/w/app/m.go'', ''package main''),
       (''/w/lib/l.go'', ''package lib''),
       (''/go/fmt/p.go'', ''package fmt'')],
     modTime = map_of [
       (''/w/app/m.go'', 10), (''/w/lib/l.go'', 10), (''/go/fmt/p.go'', 10),
       (''/w/bin/app'', 30), (''/w/pkg/lib.a'', 20), (''/go/pkg/fmt.a'', 15)]\<rparr>"

text \<open>
  A command \<open>x.org/app\<close> that imports \<open>x.org/lib\<close> and \<open>fmt\<close>; \<open>x.org/lib\<close> imports \<open>fmt\<close>.
\<close>

definition ex_app :: Package where
  "ex_app = zero_Package\<lparr>
     Package_bp := zero_build_Package\<lparr>
       build_Package.Dir := ''/w/app'', Name := ''main'', ImportPath := ''x.org/app'', Root := ''/w'',
       GoFiles := [''m.go''], Imports := [''x.org/lib'', ''fmt'']\<rparr>,
     baseImportPath := ''x.org/app'', Target := ''/w/bin/app'',
     imports' := Some [2, 3], deps := [3, 2]\<rparr>"

definition ex_lib :: Package where
  "ex_lib = zero_Package\<lparr>
     Package_bp := zero_build_Package\<lparr>
       build_Package.Dir := ''/w/lib'', Name := ''lib'', ImportPath := ''x.org/lib'', Root := ''/w'',
       GoFiles := [''l.go''], CgoCFLAGS := [''-O2''], Imports := [''fmt'']\<rparr>,
     baseImportPath := ''x.org/lib'', Target := ''/w/pkg/lib.a'',
     imports' := Some [3], deps := [3]\<rparr>"

definition ex_fmt :: Package where
  "ex_fmt = zero_Package\<lparr>
     Package_bp := zero_build_Package\<lparr>
       build_Package.Dir := ''/go/fmt'', Name := ''fmt'', ImportPath := ''fmt'', Root := ''/go'',
       Goroot := True, GoFiles := [''p.go'']\<rparr>,
     baseImportPath := ''fmt'', Target := ''/go/pkg/fmt.a'', Standard := True,
     imports' := Some [], deps := []\<rparr>"

definition ex_heap :: heap where
  "ex_heap = (\<lambda>a. zero_Package)(1 := ex_app, 2 := ex_lib, 3 := ex_fmt)"



text \<open>The same tree after \<open>p.go\<close> of the standard library's \<open>fmt\<close> was edited.\<close>

definition ex_env_edited :: os_env where
  "ex_env_edited = ex_env\<lparr>readFile := map_of [
     (''/w/app/m.go'', ''package main''),
     (''/w/lib/l.go'', ''package lib''),
     (''/go/fmt/p.go'', ''package fmt // edited'')]\<rparr>"

text \<open>
  The graph that \<open>x.org/app:race\<close> gives: every package is loaded with the build tag
  \<open>race\<close>, which loadImport appends to the import path.
\<close>

definition ex_race_heap :: heap where
  "ex_race_heap = (\<lambda>a. zero_Package)(
     1 := ex_app\<lparr>Package_bp := (Package_bp ex_app)\<lparr>ImportPath := ''x.org/app:race''\<rparr>,
       imports' := Some [3], deps := [3], race := True\<rparr>,
     3 := ex_fmt\<lparr>Package_bp := (Package_bp ex_fmt)\<lparr>ImportPath := ''fmt:race''\<rparr>, race := True\<rparr>)"

text \<open>
  The same packages as the first main.go holds them: \<open>loadPackages\<close> registers every loaded
  package under its import path, and \<open>fmt\<close> only when it is asked for by name.
\<close>

definition ex_golist_app :: golist_Package where
  "ex_golist_app = zero_golist_Package\<lparr>
     golist_Package.Dir := ''/w/app'', golist_Package.ImportPath := ''x.org/app'',
     golist_Package.Target := ''/w/bin/app'', golist_Package.GoFiles := [''m.go''],
     Deps := [''fmt'', ''x.org/lib'']\<rparr>"

definition ex_golist_lib :: golist_Package where
  "ex_golist_lib = zero_golist_Package\<lparr>
     golist_Package.Dir := ''/w/lib'', golist_Package.ImportPath := ''x.org/lib'',
     golist_Package.Target := ''/w/pkg/lib.a'', golist_Package.GoFiles := [''l.go''],
     golist_Package.CgoCFLAGS := [''-O2''], Deps := [''fmt'']\<rparr>"

definition ex_golist_fmt :: golist_Package where
  "ex_golist_fmt = zero_golist_Package\<lparr>
     golist_Package.Dir := ''/go/fmt'', golist_Package.ImportPath := ''fmt'',
     golist_Package.Target := ''/go/pkg/fmt.a'', golist_Package.GoFiles := [''p.go'']\<rparr>"

definition ex_pkgs :: "string \<rightharpoonup> nat" where
  "ex_pkgs = map_of [(''x.org/app'', 1), (''x.org/lib'', 2), (''fmt'', 3)]"

definition ex_golist_heap :: golist_heap where
  "ex_golist_heap = (\<lambda>a. zero_golist_Package)(1 := ex_golist_app, 2 := ex_golist_lib, 3 := ex_golist_fmt)"

text \<open>
  \<open>l.go\<close> of \<open>x.org/lib\<close> was written after \<open>lib.a\<close> was built; in the second heap
  \<open>x.org/app\<close> has no source files left, only its installed binary.
\<close>

definition ex_env_touched :: os_env where
  "ex_env_touched = ex_env\<lparr>modTime := map_of [
     (''/w/app/m.go'', 10), (''/w/lib/l.go'', 25), (''/go/fmt/p.go'', 10),
     (''/w/bin/app'', 30), (''/w/pkg/lib.a'', 20), (''/go/pkg/fmt.a'', 15)]\<rparr>"

definition ex_heap_binary_only :: heap where
  "ex_heap_binary_only = ex_heap(1 := ex_app\<lparr>Package_bp := (Package_bp ex_app)\<lparr>GoFiles := []\<rparr>\<rparr>)"

text \<open>
  \<open>x.org/lib\<close> lives in a second tree \<open>/v\<close>, which holds no package named on the command
  line; in the second file system \<open>fmt.a\<close> was rebuilt after \<open>lib.a\<close>.
\<close>

definition ex_heap_two_trees :: heap where
  "ex_heap_two_trees = ex_heap(2 := ex_lib\<lparr>Package_bp := (Package_bp ex_lib)\<lparr>Root := ''/v''\<rparr>\<rparr>)"

definition ex_env_fmt_rebuilt :: os_env where
  "ex_env_fmt_rebuilt = ex_env\<lparr>modTime := map_of [
     (''/w/app/m.go'', 10), (''/w/lib/l.go'', 10), (''/go/fmt/p.go'', 10),
     (''/w/bin/app'', 30), (''/w/pkg/lib.a'', 20), (''/go/pkg/fmt.a'', 25)]\<rparr>"

text \<open>
  A world in which another process inserts the same entry into the cache: the state is
  a clock that every call advances, and from time 2 on the entry exists.
\<close>

definition ex_racing_api :: "nat os_api" where
  "ex_racing_api = \<lparr>
     os_Stat = (\<lambda>path w. (if 2 \<le> w then Inr \<lparr>ModTime = 40, Mode = 420\<rparr> else Inl ErrNotExist, w + 1)),
     os_Link = (\<lambda>src dst w. (if 2 \<le> w then Some ErrExist else None, w + 1)),
     os_Open = (\<lambda>path w. (None, w + 1)),
     os_Create = (\<lambda>path w. (None, w + 1)),
     File_Chmod = (\<lambda>path mode w. (None, w + 1)),
     File_Close = (\<lambda>path w. w + 1),
     io_Copy = (\<lambda>dst src w. (None, w + 1)),
     os_Remove = (\<lambda>path w. (None, w + 1)),
     os_RemoveAll = (\<lambda>path w. (None, w + 1)),
     os_Mkdir = (\<lambda>path perm w. (None, w + 1)),
     os_MkdirAll = (\<lambda>path perm w. (None, w + 1)),
     os_Chtimes = (\<lambda>path atime mtime w. (None, w + 1)),
     time_Now = (\<lambda>w. (int w, w + 1)),
     os_Getenv = (\<lambda>name. if name = ''CACHE'' then ''/cache'' else []),
     os_ExpandEnv = (\<lambda>text. text),
     filepath_Dir = (\<lambda>path. path),
     os_view = (\<lambda>w. ex_env)\<rparr>"

text \<open>
  A workspace in which \<open>x.org/a\<close> and \<open>x.org/b\<close> import each other, \<open>x.org/c\<close> imports
  nothing, \<open>x.org/d\<close> imports \<open>x.org/a\<close>, and the standard library has \<open>runtime\<close>.
\<close>

definition ex_Import :: "build_Context \<Rightarrow> string \<Rightarrow> string \<Rightarrow> build_Package \<times> go_error option" where
  "ex_Import ctx path srcDir =
     (case map_of [
        (''x.org/a'', [''x.org/b'']),
        (''x.org/b'', [''x.org/a'']),
        (''x.org/c'', []),
        (''x.org/d'', [''x.org/a'']),
        (''runtime'', [])] path of
        Some imps \<Rightarrow>
          (zero_build_Package\<lparr>
             build_Package.Dir := ''/w/src/'' @ path, Name := ''p'', ImportPath := path,
             Root := (if path = ''runtime'' then ''/go'' else ''/w''),
             Goroot := (path = ''runtime''), PkgObj := ''/w/pkg/'' @ path @ ''.a'',
             GoFiles := [''x.go''], Imports := imps\<rparr>, None)
      | None \<Rightarrow> (zero_build_Package, Some (errors_New (''cannot find package '' @ path))))"

definition ex_build_env :: build_env where
  "ex_build_env = \<lparr>
     gobin = [], cwd = ''/w/src'',
     build_Default = \<lparr>GOARCH = ''amd64'', GOOS = ''linux'', Compiler = ''gc'', BuildTags = [], InstallSuffix = []\<rparr>,
     build_IsLocalImport = (\<lambda>path. path = ''.'' \<or> path = ''..'' \<or> take 2 path = ''./'' \<or> take 3 path = ''../''),
     Context_Import = ex_Import,
     Default_ImportDir = (\<lambda>dir. zero_build_Package),
     path_Join = ex_Join,
     filepath_ToSlash = (\<lambda>path. path),
     filepath_Rel = (\<lambda>base path. None),
     filepath_Split_file = (\<lambda>path. path),
     unicode_IsGraphic = (\<lambda>c. True),
     unicode_IsSpace = (\<lambda>c. c = CHR '' ''),
     Position_String = Filename,
     scanner_Error_Error = Msg,
     scanner_ErrorList_Error = (\<lambda>errs. ''errors''),
     strconv_Quote = (\<lambda>text. text),
     map_range = (\<lambda>entries. entries)\<rparr>"

definition empty_loader :: loader where
  "empty_loader = \<lparr>packageCache = Map.empty, mem = (\<lambda>a. zero_Package), fresh = 1\<rparr>"

text \<open>
  The calls of loadImport behind the load of \<open>x.org/d\<close> in the example: the import path
  and the directory of the importing package.
\<close>

definition ex_calls :: "(string \<times> string) set" where
  "ex_calls = {(''x.org/d'', ''/w/src''),
     (''x.org/a'', ''/w/src/x.org/d''), (''runtime'', ''/w/src/x.org/d''),
     (''x.org/b'', ''/w/src/x.org/a''), (''runtime'', ''/w/src/x.org/a''),
     (''x.org/a'', ''/w/src/x.org/b''), (''runtime'', ''/w/src/x.org/b'')}"

lemma Fingerprint_flags_conv: "Fingerprint_flags h flags = h @ concat flags"
  by (induction flags arbitrary: h) simp_all

lemma Fingerprint_files_conv:
  "Fingerprint_files e dir h files =
     (if list_all (\<lambda>f. readFile e (filepath_Join e dir f) \<noteq> None) files
      then Inr (h @ concat (map (\<lambda>f. f @ the (readFile e (filepath_Join e dir f))) files))
      else Inl LogFatal)"
  by (induction files arbitrary: h) (auto split: option.splits)

lemma unmemo_upd: "unmemo (s(p := (s p)\<lparr>fingerprint := x\<rparr>)) = unmemo s"
  by (auto simp: unmemo_def fun_eq_iff)

lemma unmemo_fields:
  assumes "unmemo s' = unmemo s"
  shows "deps (s' q) = deps (s q)" and "race (s' q) = race (s q)"
    and "Standard (s' q) = Standard (s q)" and "Package_bp (s' q) = Package_bp (s q)"
proof -
  have eq: "(s' q)\<lparr>fingerprint := None\<rparr> = (s q)\<lparr>fingerprint := None\<rparr>"
    using assms by (simp add: unmemo_def fun_eq_iff)
  show "deps (s' q) = deps (s q)" using arg_cong [OF eq, of deps] by simp
  show "race (s' q) = race (s q)" using arg_cong [OF eq, of race] by simp
  show "Standard (s' q) = Standard (s q)" using arg_cong [OF eq, of Standard] by simp
  show "Package_bp (s' q) = Package_bp (s q)" using arg_cong [OF eq, of Package_bp] by simp
qed

lemma Fingerprint_deps_post:
  assumes F: "\<And>s d fp s'. F s d = Some (Inr (fp, s')) \<Longrightarrow> fp_post s d fp s'"
    and run: "Fingerprint_deps F p ds s h = Some (Inr (r, s'))"
  shows "unmemo s' = unmemo s \<and>
     (\<forall>q x. q \<noteq> p \<longrightarrow> fingerprint (s q) = Some x \<longrightarrow> fingerprint (s' q) = Some x) \<and>
     (case r of
        Inl fp \<Rightarrow> fp = [] \<and> fingerprint (s' p) = Some []
      | Inr h' \<Rightarrow>
          (\<forall>q x. fingerprint (s q) = Some x \<longrightarrow> fingerprint (s' q) = Some x) \<and>
          list_all (\<lambda>d. fingerprint (s' d) \<noteq> None \<and> fingerprint (s' d) \<noteq> Some []) (included s p ds) \<and>
          h' = h @ concat (map (\<lambda>d. the (fingerprint (s' d))) (included s p ds)))"
  using run
proof (induction ds arbitrary: s h)
  case Nil
  then show ?case by (auto simp: included_def)
next
  case (Cons dep ds)
  show ?case
  proof (cases "\<not> race (s p) \<and> Standard (s dep)")
    case True
    then have "Fingerprint_deps F p ds s h = Some (Inr (r, s'))" using Cons.prems by simp
    moreover have "included s p (dep # ds) = included s p ds"
      using True by (simp add: included_def)
    ultimately show ?thesis using Cons.IH [of s h] by (cases r) simp_all
  next
    case False
    then obtain fp s1 where call: "F s dep = Some (Inr (fp, s1))"
      using Cons.prems by (auto split: option.splits sum.splits)
    note post = F [OF call, unfolded fp_post_def]
    show ?thesis
    proof (cases "fp = []")
      case True
      then have r: "r = Inl []" and s': "s' = s1(p := (s1 p)\<lparr>fingerprint := Some []\<rparr>)"
        using Cons.prems False call by auto
      have "unmemo s' = unmemo s1" unfolding s' by (rule unmemo_upd)
      moreover have "fingerprint (s' p) = Some []" by (simp add: s')
      moreover have "fingerprint (s' q) = Some x" if "q \<noteq> p" "fingerprint (s q) = Some x" for q x
        using that post by (simp add: s')
      ultimately show ?thesis using post by (simp add: r)
    next
      case nonempty: False
      then have rest: "Fingerprint_deps F p ds s1 (h @ fp) = Some (Inr (r, s'))"
        using Cons.prems False call by auto
      note IH = Cons.IH [OF rest]
      have inc: "included s1 p ds = included s p ds"
        using post by (simp add: included_def unmemo_fields [of s1 s])
      have un: "unmemo s' = unmemo s" using IH post by simp
      have st: "\<forall>q x. q \<noteq> p \<longrightarrow> fingerprint (s q) = Some x \<longrightarrow> fingerprint (s' q) = Some x"
        using IH post by blast
      show ?thesis
      proof (cases r)
        case (Inl a)
        then show ?thesis using IH un st by simp
      next
        case (Inr h')
        have stable: "\<forall>q x. fingerprint (s1 q) = Some x \<longrightarrow> fingerprint (s' q) = Some x"
          using IH Inr by simp
        then have dep: "fingerprint (s' dep) = Some fp" using post by blast
        have "\<forall>q x. fingerprint (s q) = Some x \<longrightarrow> fingerprint (s' q) = Some x"
          using stable post by blast
        moreover have "included s p (dep # ds) = dep # included s p ds"
          using False by (simp add: included_def)
        ultimately show ?thesis using IH Inr un st dep nonempty inc by simp
      qed
    qed
  qed
qed

lemma Fingerprint_post:
  "Fingerprint n e s p = Some (Inr (fp, s')) \<Longrightarrow> fp_post s p fp s'"
proof (induction n arbitrary: s p fp s')
  case 0
  then show ?case by simp
next
  case (Suc n)
  show ?case
  proof (cases "fingerprint (s p)")
    case (Some a)
    then show ?thesis using Suc.prems by (auto simp: fp_post_def)
  next
    case None
    then obtain r s1 where loop: "Fingerprint_deps (Fingerprint n e) p (deps (s p)) s [] = Some (Inr (r, s1))"
      using Suc.prems by (auto split: option.splits sum.splits)
    note L = Fingerprint_deps_post [where F = "Fingerprint n e", OF Suc.IH loop]
    show ?thesis
    proof (cases r)
      case (Inl a)
      then have "fp = a" "s' = s1" using Suc.prems None loop by auto
      then have eqs: "fp = []" "fingerprint (s' p) = Some []" "unmemo s' = unmemo s"
        using L Inl by simp_all
      have "fingerprint (s' q) = Some x" if "fingerprint (s q) = Some x" for q x
      proof (cases "q = p")
        case True
        then show ?thesis using that None by simp
      next
        case False
        then show ?thesis using that L \<open>s' = s1\<close> by simp
      qed
      then show ?thesis using eqs unfolding fp_post_def by simp
    next
      case (Inr h1)
      then obtain sd where "s' = s1(p := (s1 p)\<lparr>fingerprint := Some sd\<rparr>)" "fp = sd"
        using Suc.prems None loop by (auto simp: Let_def split: sum.splits)
      note s' = this
      have "unmemo s' = unmemo s1" unfolding s' by (rule unmemo_upd)
      moreover have "fingerprint (s' p) = Some fp" by (simp add: s')
      moreover have "fingerprint (s' q) = Some x" if "fingerprint (s q) = Some x" for q x
      proof (cases "q = p")
        case True
        then show ?thesis using that None by simp
      next
        case False
        then show ?thesis using that L by (simp add: s')
      qed
      ultimately show ?thesis using L unfolding fp_post_def by simp
    qed
  qed
qed

lemma Fingerprint_files_cong:
  "(\<And>f. f \<in> set files \<Longrightarrow> readFile e' (filepath_Join e' dir f) = readFile e (filepath_Join e dir f)) \<Longrightarrow>
   Fingerprint_files e' dir h files = Fingerprint_files e dir h files"
  by (induction files arbitrary: h) (auto split: option.splits)

lemma Fingerprint_unfold:
  "Fingerprint (Suc n) e s p =
     (case fingerprint (s p) of
        Some fp \<Rightarrow> Some (Inr (fp, s))
      | None \<Rightarrow>
         (case Fingerprint_deps (Fingerprint n e) p (deps (s p)) s [] of
            None \<Rightarrow> None
          | Some (Inl x) \<Rightarrow> Some (Inl x)
          | Some (Inr (Inl fp, s1)) \<Rightarrow> Some (Inr (fp, s1))
          | Some (Inr (Inr h1, s1)) \<Rightarrow>
             (case Fingerprint_files e (Dir (Package_bp (s1 p)))
                     (h1 @ runtime_Version e @ runtime_GOOS e @ runtime_GOARCH e @
                        ImportPath (Package_bp (s1 p)) @ concat (cgo_flags (Package_bp (s1 p))))
                     (owned_files (Package_bp (s1 p))) of
                Inl x \<Rightarrow> Some (Inl x)
              | Inr h3 \<Rightarrow>
                  Some (Inr (sha1_hex e h3, s1(p := (s1 p)\<lparr>fingerprint := Some (sha1_hex e h3)\<rparr>))))))"
  by (simp add: Let_def Fingerprint_flags_conv owned_files_def cgo_flags_def
      split: option.splits sum.splits prod.splits)

lemma Fingerprint_deps_cong:
  assumes F: "\<And>s d fp s'. F s d = Some (Inr (fp, s')) \<Longrightarrow> unmemo s' = unmemo s"
    and eq: "\<And>s d. unmemo s = unmemo g \<Longrightarrow> d \<in> set ds \<Longrightarrow> race (g p) \<or> \<not> Standard (g d) \<Longrightarrow> F' s d = F s d"
    and s: "unmemo s = unmemo g"
  shows "Fingerprint_deps F' p ds s h = Fingerprint_deps F p ds s h"
  using eq s
proof (induction ds arbitrary: s h)
  case Nil
  then show ?case by simp
next
  case (Cons dep ds)
  have fields: "race (s p) = race (g p)" "Standard (s dep) = Standard (g dep)"
    using unmemo_fields [OF Cons.prems(2)] by simp_all
  show ?case
  proof (cases "\<not> race (s p) \<and> Standard (s dep)")
    case True
    then show ?thesis using Cons.IH [of s h] Cons.prems by simp
  next
    case False
    then have call: "F' s dep = F s dep" using Cons.prems fields by simp
    have "Fingerprint_deps F' p ds s1 h1 = Fingerprint_deps F p ds s1 h1"
      if "F s dep = Some (Inr (fp, s1))" for fp s1 h1
      using Cons.IH [of s1 h1] Cons.prems F [OF that] by simp
    then show ?thesis using False call by (auto split: option.splits sum.splits)
  qed
qed

lemma Fingerprint_cong:
  assumes env: "runtime_Version e' = runtime_Version e" "runtime_GOOS e' = runtime_GOOS e"
      "runtime_GOARCH e' = runtime_GOARCH e" "sha1_hex e' = sha1_hex e"
      "filepath_Join e' = filepath_Join e"
    and closed: "\<And>a d. a \<in> S \<Longrightarrow> d \<in> set (deps (g a)) \<Longrightarrow> race (g a) \<or> \<not> Standard (g d) \<Longrightarrow> d \<in> S"
    and files: "\<And>a f. a \<in> S \<Longrightarrow> f \<in> set (owned_files (Package_bp (g a))) \<Longrightarrow>
        readFile e' (filepath_Join e (Dir (Package_bp (g a))) f) =
        readFile e (filepath_Join e (Dir (Package_bp (g a))) f)"
  shows "unmemo s = unmemo g \<Longrightarrow> p \<in> S \<Longrightarrow> Fingerprint n e' s p = Fingerprint n e s p"
proof (induction n arbitrary: s p)
  case 0
  then show ?case by simp
next
  case (Suc n)
  have frame: "unmemo s' = unmemo s" if "Fingerprint n e s d = Some (Inr (fp, s'))" for s d fp s'
    using Fingerprint_post [OF that] by (simp add: fp_post_def)
  have dp: "deps (s p) = deps (g p)" using unmemo_fields [OF Suc.prems(1)] by simp
  have loop: "Fingerprint_deps (Fingerprint n e') p (deps (s p)) s [] =
      Fingerprint_deps (Fingerprint n e) p (deps (s p)) s []"
  proof (rule Fingerprint_deps_cong [where g = g, OF frame _ Suc.prems(1)])
    fix s0 d assume "unmemo s0 = unmemo g" "d \<in> set (deps (s p))" "race (g p) \<or> \<not> Standard (g d)"
    then show "Fingerprint n e' s0 d = Fingerprint n e s0 d"
      using Suc.IH [of s0 d] closed [of p d] Suc.prems(2) dp by simp
  qed
  have tail: "Fingerprint_files e' (Dir (Package_bp (s1 p))) h (owned_files (Package_bp (s1 p))) =
      Fingerprint_files e (Dir (Package_bp (s1 p))) h (owned_files (Package_bp (s1 p)))"
    if "Fingerprint_deps (Fingerprint n e) p (deps (s p)) s [] = Some (Inr (r, s1))" for r s1 h
  proof -
    have "unmemo s1 = unmemo s"
      using Fingerprint_deps_post [where F = "Fingerprint n e", OF Fingerprint_post that] by simp
    then have "Package_bp (s1 p) = Package_bp (g p)"
      using unmemo_fields(4) [of s1 g p] Suc.prems(1) by simp
    then show ?thesis using files [OF Suc.prems(2)] env(5)
      by (intro Fingerprint_files_cong) simp
  qed
  show ?case
    unfolding Fingerprint_unfold loop using tail env
    by (auto split: option.splits sum.splits)
qed

lemma addFlags_conv: "addFlags h flags = h @ concat flags"
  by (induction flags arbitrary: h) simp_all

lemma addFiles_conv:
  "addFiles e p h files =
     (if list_all (\<lambda>f. readFile e (filepath_Join e (golist_Package.Dir p) f) \<noteq> None) files
      then Inr (h @ concat (map (\<lambda>f. f @ file_bytes e (golist_Package.Dir p) f) files))
      else Inl LogFatal)"
  by (induction files arbitrary: h) (auto simp: bindF_def file_bytes_def split: option.splits)

lemma addFiles_append:
  "addFiles e p h (xs @ ys) = bindF (addFiles e p h xs) (\<lambda>h'. addFiles e p h' ys)"
  by (induction xs arbitrary: h) (auto simp: bindF_def split: option.splits sum.splits)

lemma addFiles_cong:
  "(\<And>f. f \<in> set files \<Longrightarrow>
      readFile e' (filepath_Join e' (golist_Package.Dir p) f) =
      readFile e (filepath_Join e (golist_Package.Dir p) f)) \<Longrightarrow>
   addFiles e' p h files = addFiles e p h files"
  by (induction files arbitrary: h) (auto simp: bindF_def split: option.splits)

lemma golist_unmemo_upd:
  "golist_unmemo (s(p := (s p)\<lparr>golist_Package.fingerprint := x\<rparr>)) = golist_unmemo s"
  by (auto simp: golist_unmemo_def fun_eq_iff)

lemma golist_unmemo_same:
  assumes "golist_unmemo s' = golist_unmemo s"
  shows "(s' q)\<lparr>golist_Package.fingerprint := x\<rparr> = (s q)\<lparr>golist_Package.fingerprint := x\<rparr>"
proof -
  have eq: "(s' q)\<lparr>golist_Package.fingerprint := None\<rparr> = (s q)\<lparr>golist_Package.fingerprint := None\<rparr>"
    using assms by (simp add: golist_unmemo_def fun_eq_iff)
  show ?thesis
    using arg_cong [OF eq, of "\<lambda>r. r\<lparr>golist_Package.fingerprint := x\<rparr>"] by simp
qed

lemma golist_Fingerprint_unfold:
  "golist_Fingerprint (Suc n) e pkgs s p =
     (case golist_Package.fingerprint (s p) of
        Some fp \<Rightarrow> Some (Inr (fp, s))
      | None \<Rightarrow>
         (case addFiles e (s p)
                 (runtime_Version e @ runtime_GOOS e @ runtime_GOARCH e @ golist_Package.ImportPath (s p))
                 (golist_owned_files (s p)) of
            Inl x \<Rightarrow> Some (Inl x)
          | Inr h1 \<Rightarrow>
             (case golist_Fingerprint_deps (golist_Fingerprint n e pkgs) pkgs p (Deps (s p)) s
                     (h1 @ concat (golist_cgo_flags (s p))) of
                None \<Rightarrow> None
              | Some (Inl x) \<Rightarrow> Some (Inl x)
              | Some (Inr (Inl fp, s1)) \<Rightarrow> Some (Inr (fp, s1))
              | Some (Inr (Inr h7, s1)) \<Rightarrow>
                  Some (Inr (sha1_hex e h7, s1(p := (s1 p)\<lparr>golist_Package.fingerprint := Some (sha1_hex e h7)\<rparr>))))))"
  by (simp add: Let_def addFlags_conv golist_owned_files_def golist_cgo_flags_def addFiles_append
      split: option.splits sum.splits prod.splits)


lemma golist_unmemo_fields:
  assumes "golist_unmemo s' = golist_unmemo s"
  shows "Deps (s' q) = Deps (s q)"
    and "golist_Package.Dir (s' q) = golist_Package.Dir (s q)"
    and "golist_Package.ImportPath (s' q) = golist_Package.ImportPath (s q)"
    and "golist_owned_files (s' q) = golist_owned_files (s q)"
    and "golist_cgo_flags (s' q) = golist_cgo_flags (s q)"
proof -
  have eq: "s' q = (s q)\<lparr>golist_Package.fingerprint := golist_Package.fingerprint (s' q)\<rparr>"
    using golist_unmemo_same [OF assms, where q = q and x = "golist_Package.fingerprint (s' q)"] by simp
  show "Deps (s' q) = Deps (s q)" by (subst eq) simp
  show "golist_Package.Dir (s' q) = golist_Package.Dir (s q)" by (subst eq) simp
  show "golist_Package.ImportPath (s' q) = golist_Package.ImportPath (s q)" by (subst eq) simp
  show "golist_owned_files (s' q) = golist_owned_files (s q)"
    by (subst eq) (simp add: golist_owned_files_def)
  show "golist_cgo_flags (s' q) = golist_cgo_flags (s q)"
    by (subst eq) (simp add: golist_cgo_flags_def)
qed

lemma golist_Fingerprint_deps_post:
  assumes F: "\<And>s d fp s'. F s d = Some (Inr (fp, s')) \<Longrightarrow> golist_fp_post s d fp s'"
    and run: "golist_Fingerprint_deps F pkgs p ds s h = Some (Inr (r, s'))"
  shows "golist_unmemo s' = golist_unmemo s \<and>
     (\<forall>q x. q \<noteq> p \<longrightarrow> golist_Package.fingerprint (s q) = Some x \<longrightarrow> golist_Package.fingerprint (s' q) = Some x) \<and>
     (case r of
        Inl fp \<Rightarrow> fp = [] \<and> golist_Package.fingerprint (s' p) = Some []
      | Inr h' \<Rightarrow>
          (\<forall>q x. golist_Package.fingerprint (s q) = Some x \<longrightarrow> golist_Package.fingerprint (s' q) = Some x) \<and>
          list_all (\<lambda>dep. isStdLib dep \<or> pkgs dep \<noteq> None) ds \<and>
          list_all (\<lambda>d. golist_Package.fingerprint (s' d) \<noteq> None \<and> golist_Package.fingerprint (s' d) \<noteq> Some [])
            (golist_included pkgs ds) \<and>
          h' = h @ concat (map (\<lambda>d. the (golist_Package.fingerprint (s' d))) (golist_included pkgs ds)))"
  using run
proof (induction ds arbitrary: s h)
  case Nil
  then show ?case by (auto simp: golist_included_def)
next
  case (Cons dep ds)
  show ?case
  proof (cases "isStdLib dep")
    case True
    then have "golist_Fingerprint_deps F pkgs p ds s h = Some (Inr (r, s'))" using Cons.prems by simp
    moreover have "golist_included pkgs (dep # ds) = golist_included pkgs ds"
      using True by (simp add: golist_included_def)
    ultimately show ?thesis using Cons.IH [of s h] True by (cases r) simp_all
  next
    case False
    then obtain pkg fp s1 where pkg: "pkgs dep = Some pkg" and call: "F s pkg = Some (Inr (fp, s1))"
      using Cons.prems by (auto split: option.splits sum.splits)
    note post = F [OF call, unfolded golist_fp_post_def]
    have inc: "golist_included pkgs (dep # ds) = pkg # golist_included pkgs ds"
      using False pkg by (simp add: golist_included_def)
    show ?thesis
    proof (cases "fp = []")
      case True
      then have r: "r = Inl []" and s': "s' = s1(p := (s1 p)\<lparr>golist_Package.fingerprint := Some []\<rparr>)"
        using Cons.prems False call pkg by auto
      have "golist_unmemo s' = golist_unmemo s1" unfolding s' by (rule golist_unmemo_upd)
      moreover have "golist_Package.fingerprint (s' p) = Some []" by (simp add: s')
      moreover have "golist_Package.fingerprint (s' q) = Some x"
        if "q \<noteq> p" "golist_Package.fingerprint (s q) = Some x" for q x
        using that post by (simp add: s')
      ultimately show ?thesis using post by (simp add: r)
    next
      case nonempty: False
      then have rest: "golist_Fingerprint_deps F pkgs p ds s1 (h @ fp) = Some (Inr (r, s'))"
        using Cons.prems False call pkg by auto
      note IH = Cons.IH [OF rest]
      have un: "golist_unmemo s' = golist_unmemo s" using IH post by simp
      have st: "\<forall>q x. q \<noteq> p \<longrightarrow> golist_Package.fingerprint (s q) = Some x \<longrightarrow> golist_Package.fingerprint (s' q) = Some x"
        using IH post by blast
      show ?thesis
      proof (cases r)
        case (Inl a)
        then show ?thesis using IH un st by simp
      next
        case (Inr h')
        have stable: "\<forall>q x. golist_Package.fingerprint (s1 q) = Some x \<longrightarrow> golist_Package.fingerprint (s' q) = Some x"
          using IH Inr by simp
        then have dep: "golist_Package.fingerprint (s' pkg) = Some fp" using post by blast
        have "\<forall>q x. golist_Package.fingerprint (s q) = Some x \<longrightarrow> golist_Package.fingerprint (s' q) = Some x"
          using stable post by blast
        then show ?thesis using IH Inr un st dep nonempty inc pkg by simp
      qed
    qed
  qed
qed

lemma golist_Fingerprint_post:
  "golist_Fingerprint n e pkgs s p = Some (Inr (fp, s')) \<Longrightarrow> golist_fp_post s p fp s'"
proof (induction n arbitrary: s p fp s')
  case 0
  then show ?case by simp
next
  case (Suc n)
  show ?case
  proof (cases "golist_Package.fingerprint (s p)")
    case (Some a)
    then show ?thesis using Suc.prems by (auto simp: golist_fp_post_def)
  next
    case None
    then obtain r s1 h where loop:
      "golist_Fingerprint_deps (golist_Fingerprint n e pkgs) pkgs p (Deps (s p)) s h = Some (Inr (r, s1))"
      and res: "(case r of Inl fp \<Rightarrow> Some (Inr (fp, s1))
          | Inr h7 \<Rightarrow> Some (Inr (sha1_hex e h7, s1(p := (s1 p)\<lparr>golist_Package.fingerprint := Some (sha1_hex e h7)\<rparr>))))
        = Some (Inr (fp, s'))"
      using Suc.prems unfolding golist_Fingerprint_unfold
      by (auto split: option.splits sum.splits)
    note L = golist_Fingerprint_deps_post [where F = "golist_Fingerprint n e pkgs", OF Suc.IH loop]
    show ?thesis
    proof (cases r)
      case (Inl a)
      then have "fp = a" "s' = s1" using res by auto
      then have eqs: "fp = []" "golist_Package.fingerprint (s' p) = Some []" "golist_unmemo s' = golist_unmemo s"
        using L Inl by simp_all
      have "golist_Package.fingerprint (s' q) = Some x" if "golist_Package.fingerprint (s q) = Some x" for q x
      proof (cases "q = p")
        case True
        then show ?thesis using that None by simp
      next
        case False
        then show ?thesis using that L \<open>s' = s1\<close> by simp
      qed
      then show ?thesis using eqs unfolding golist_fp_post_def by simp
    next
      case (Inr h1)
      then obtain sd where s': "s' = s1(p := (s1 p)\<lparr>golist_Package.fingerprint := Some sd\<rparr>)" "fp = sd"
        using res by auto
      have "golist_unmemo s' = golist_unmemo s1" unfolding s' by (rule golist_unmemo_upd)
      moreover have "golist_Package.fingerprint (s' p) = Some fp" by (simp add: s')
      moreover have "golist_Package.fingerprint (s' q) = Some x" if "golist_Package.fingerprint (s q) = Some x" for q x
      proof (cases "q = p")
        case True
        then show ?thesis using that None by simp
      next
        case False
        then show ?thesis using that L by (simp add: s')
      qed
      ultimately show ?thesis using L unfolding golist_fp_post_def by simp
    qed
  qed
qed

lemma golist_Fingerprint_deps_cong:
  assumes F: "\<And>s d fp s'. F s d = Some (Inr (fp, s')) \<Longrightarrow> golist_unmemo s' = golist_unmemo s"
    and eq: "\<And>s dep d. golist_unmemo s = golist_unmemo g \<Longrightarrow> dep \<in> set ds \<Longrightarrow> \<not> isStdLib dep \<Longrightarrow>
        pkgs dep = Some d \<Longrightarrow> F' s d = F s d"
    and s: "golist_unmemo s = golist_unmemo g"
  shows "golist_Fingerprint_deps F' pkgs p ds s h = golist_Fingerprint_deps F pkgs p ds s h"
  using eq s
proof (induction ds arbitrary: s h)
  case Nil
  then show ?case by simp
next
  case (Cons dep ds)
  show ?case
  proof (cases "isStdLib dep \<or> pkgs dep = None")
    case True
    then show ?thesis using Cons.IH [of s h] Cons.prems by auto
  next
    case False
    then obtain d where d: "pkgs dep = Some d" by auto
    have call: "F' s d = F s d" using Cons.prems(1) [of s dep d] Cons.prems(2) False d by simp
    have "golist_Fingerprint_deps F' pkgs p ds s1 h1 = golist_Fingerprint_deps F pkgs p ds s1 h1"
      if run: "F s d = Some (Inr (fp, s1))" for fp s1 h1
    proof (rule Cons.IH)
      show "F' s0 d0 = F s0 d0"
        if "golist_unmemo s0 = golist_unmemo g" "dep0 \<in> set ds" "\<not> isStdLib dep0" "pkgs dep0 = Some d0"
        for s0 dep0 d0
        using Cons.prems(1) [of s0 dep0 d0] that by simp
      show "golist_unmemo s1 = golist_unmemo g" using F [OF run] Cons.prems(2) by simp
    qed
    then show ?thesis using False call d by (auto split: option.splits sum.splits)
  qed
qed

lemma golist_Fingerprint_cong:
  assumes env: "runtime_Version e' = runtime_Version e" "runtime_GOOS e' = runtime_GOOS e"
      "runtime_GOARCH e' = runtime_GOARCH e" "sha1_hex e' = sha1_hex e"
      "filepath_Join e' = filepath_Join e"
    and closed: "\<And>a dep d. a \<in> S \<Longrightarrow> dep \<in> set (Deps (g a)) \<Longrightarrow> \<not> isStdLib dep \<Longrightarrow>
        pkgs dep = Some d \<Longrightarrow> d \<in> S"
    and files: "\<And>a f. a \<in> S \<Longrightarrow> f \<in> set (golist_owned_files (g a)) \<Longrightarrow>
        readFile e' (filepath_Join e (golist_Package.Dir (g a)) f) =
        readFile e (filepath_Join e (golist_Package.Dir (g a)) f)"
  shows "golist_unmemo s = golist_unmemo g \<Longrightarrow> p \<in> S \<Longrightarrow>
    golist_Fingerprint n e' pkgs s p = golist_Fingerprint n e pkgs s p"
proof (induction n arbitrary: s p)
  case 0
  then show ?case by simp
next
  case (Suc n)
  have frame: "golist_unmemo s' = golist_unmemo s"
    if "golist_Fingerprint n e pkgs s d = Some (Inr (fp, s'))" for s d fp s'
    using golist_Fingerprint_post [OF that] by (simp add: golist_fp_post_def)
  note fld = golist_unmemo_fields [OF Suc.prems(1)]
  have loop: "golist_Fingerprint_deps (golist_Fingerprint n e' pkgs) pkgs p (Deps (s p)) s h =
      golist_Fingerprint_deps (golist_Fingerprint n e pkgs) pkgs p (Deps (s p)) s h" for h
  proof (rule golist_Fingerprint_deps_cong [where g = g, OF frame _ Suc.prems(1)])
    fix s0 dep d
    assume "golist_unmemo s0 = golist_unmemo g" "dep \<in> set (Deps (s p))" "\<not> isStdLib dep" "pkgs dep = Some d"
    then show "golist_Fingerprint n e' pkgs s0 d = golist_Fingerprint n e pkgs s0 d"
      using Suc.IH [of s0 d] closed [of p dep d] Suc.prems(2) fld(1) by simp
  qed
  have own: "addFiles e' (s p) h (golist_owned_files (s p)) = addFiles e (s p) h (golist_owned_files (s p))" for h
    using files [OF Suc.prems(2)] env(5) fld by (intro addFiles_cong) simp
  show ?case
    unfolding golist_Fingerprint_unfold loop own using env
    by (auto split: option.splits sum.splits)
qed

lemmas ex_defs = ex_heap_def ex_app_def ex_lib_def ex_fmt_def ex_env_def zero_Package_def
  zero_build_Package_def zero_build_Context_def shown_hex_def ex_Join_def
lemmas ex_golist_defs = ex_golist_heap_def ex_golist_app_def ex_golist_lib_def ex_golist_fmt_def
  ex_pkgs_def zero_golist_Package_def ex_env_def shown_hex_def ex_Join_def

lemma Fingerprint_order:
  assumes run: "Fingerprint (Suc n) e s p = Some (Inr (fp, s'))"
    and fresh: "fingerprint (s p) = None" and fp: "fp \<noteq> []" and self: "p \<notin> set (deps (s p))"
  shows "fp = sha1_hex e (
      concat (map (\<lambda>d. the (fingerprint (s' d))) (included s p (deps (s p)))) @
      (runtime_Version e @ runtime_GOOS e @ runtime_GOARCH e @ ImportPath (Package_bp (s p))) @
      concat (cgo_flags (Package_bp (s p))) @
      concat (map (\<lambda>f. f @ file_bytes e (Dir (Package_bp (s p))) f) (owned_files (Package_bp (s p)))))"
proof -
  obtain r s1 where loop: "Fingerprint_deps (Fingerprint n e) p (deps (s p)) s [] = Some (Inr (r, s1))"
    using run fresh unfolding Fingerprint_unfold by (auto split: option.splits sum.splits)
  note L = Fingerprint_deps_post [where F = "Fingerprint n e", OF Fingerprint_post [of n e] loop]
  show ?thesis
  proof (cases r)
    case (Inl a)
    then have "fp = []" using run fresh loop L unfolding Fingerprint_unfold by auto
    then show ?thesis using fp by simp
  next
    case (Inr h1)
    have bp: "Package_bp (s1 p) = Package_bp (s p)" using L unmemo_fields(4) [of s1 s p] by simp
    obtain h3 where files: "Fingerprint_files e (Dir (Package_bp (s p)))
          (h1 @ runtime_Version e @ runtime_GOOS e @ runtime_GOARCH e @
             ImportPath (Package_bp (s p)) @ concat (cgo_flags (Package_bp (s p))))
          (owned_files (Package_bp (s p))) = Inr h3"
      and res: "fp = sha1_hex e h3" "s' = s1(p := (s1 p)\<lparr>fingerprint := Some (sha1_hex e h3)\<rparr>)"
      using run fresh loop Inr bp unfolding Fingerprint_unfold by (auto split: sum.splits)
    have h3: "h3 = (h1 @ runtime_Version e @ runtime_GOOS e @ runtime_GOARCH e @
             ImportPath (Package_bp (s p)) @ concat (cgo_flags (Package_bp (s p)))) @
        concat (map (\<lambda>f. f @ file_bytes e (Dir (Package_bp (s p))) f) (owned_files (Package_bp (s p))))"
      using files unfolding Fingerprint_files_conv file_bytes_def by (simp split: if_splits)
    have "p \<notin> set (included s p (deps (s p)))" using self by (simp add: included_def)
    then have m: "map (\<lambda>d. the (fingerprint (s' d))) (included s p (deps (s p))) =
        map (\<lambda>d. the (fingerprint (s1 d))) (included s p (deps (s p)))"
      by (intro map_cong) (auto simp: res(2))
    have "h1 = concat (map (\<lambda>d. the (fingerprint (s1 d))) (included s p (deps (s p))))"
      using L Inr by simp
    then show ?thesis unfolding m res(1) h3 by simp
  qed
qed

lemma golist_Fingerprint_order:
  assumes run: "golist_Fingerprint (Suc n) e pkgs s p = Some (Inr (fp, s'))"
    and fresh: "golist_Package.fingerprint (s p) = None" and fp: "fp \<noteq> []"
    and self: "p \<notin> set (golist_included pkgs (Deps (s p)))"
  shows "fp = sha1_hex e (
      (runtime_Version e @ runtime_GOOS e @ runtime_GOARCH e @ golist_Package.ImportPath (s p)) @
      concat (map (\<lambda>f. f @ file_bytes e (golist_Package.Dir (s p)) f) (golist_owned_files (s p))) @
      concat (golist_cgo_flags (s p)) @
      concat (map (\<lambda>d. the (golist_Package.fingerprint (s' d))) (golist_included pkgs (Deps (s p)))))"
proof -
  obtain h1 r s1 where files: "addFiles e (s p)
        (runtime_Version e @ runtime_GOOS e @ runtime_GOARCH e @ golist_Package.ImportPath (s p))
        (golist_owned_files (s p)) = Inr h1"
    and loop: "golist_Fingerprint_deps (golist_Fingerprint n e pkgs) pkgs p (Deps (s p)) s
        (h1 @ concat (golist_cgo_flags (s p))) = Some (Inr (r, s1))"
    using run fresh unfolding golist_Fingerprint_unfold by (auto split: option.splits sum.splits)
  note L = golist_Fingerprint_deps_post [where F = "golist_Fingerprint n e pkgs", OF golist_Fingerprint_post [of n e pkgs] loop]
  have h1: "h1 = (runtime_Version e @ runtime_GOOS e @ runtime_GOARCH e @ golist_Package.ImportPath (s p)) @
      concat (map (\<lambda>f. f @ file_bytes e (golist_Package.Dir (s p)) f) (golist_owned_files (s p)))"
    using files unfolding addFiles_conv by (simp split: if_splits)
  show ?thesis
  proof (cases r)
    case (Inl a)
    then have "fp = []" using run fresh loop files L unfolding golist_Fingerprint_unfold by auto
    then show ?thesis using fp by simp
  next
    case (Inr h7)
    then have res: "fp = sha1_hex e h7" "s' = s1(p := (s1 p)\<lparr>golist_Package.fingerprint := Some (sha1_hex e h7)\<rparr>)"
      using run fresh loop files unfolding golist_Fingerprint_unfold by auto
    have m: "map (\<lambda>d. the (golist_Package.fingerprint (s' d))) (golist_included pkgs (Deps (s p))) =
        map (\<lambda>d. the (golist_Package.fingerprint (s1 d))) (golist_included pkgs (Deps (s p)))"
      using self by (intro map_cong) (auto simp: res(2))
    have "h7 = (h1 @ concat (golist_cgo_flags (s p))) @
        concat (map (\<lambda>d. the (golist_Package.fingerprint (s1 d))) (golist_included pkgs (Deps (s p))))"
      using L Inr by simp
    then show ?thesis unfolding m res(1) h1 by simp
  qed
qed

lemma Fingerprint_stdlib_files:
  assumes lib: "Standard (s lib)" and p: "\<not> race (s p)" "p \<noteq> lib"
    and uniform: "\<And>a d. \<not> race (s a) \<Longrightarrow> d \<in> set (deps (s a)) \<Longrightarrow> \<not> race (s d)"
    and files: "\<And>a f. a \<noteq> lib \<Longrightarrow> f \<in> set (owned_files (Package_bp (s a))) \<Longrightarrow>
        rf (filepath_Join e (Dir (Package_bp (s a))) f) = readFile e (filepath_Join e (Dir (Package_bp (s a))) f)"
  shows "Fingerprint n (e\<lparr>readFile := rf\<rparr>) s p = Fingerprint n e s p"
proof (rule Fingerprint_cong [where g = s and S = "{a. \<not> race (s a) \<and> a \<noteq> lib}"])
  show "a \<in> {a. \<not> race (s a) \<and> a \<noteq> lib} \<Longrightarrow> d \<in> set (deps (s a)) \<Longrightarrow> race (s a) \<or> \<not> Standard (s d) \<Longrightarrow>
      d \<in> {a. \<not> race (s a) \<and> a \<noteq> lib}" for a d
    using uniform [of a d] lib by auto
  show "a \<in> {a. \<not> race (s a) \<and> a \<noteq> lib} \<Longrightarrow> f \<in> set (owned_files (Package_bp (s a))) \<Longrightarrow>
      readFile (e\<lparr>readFile := rf\<rparr>) (filepath_Join e (Dir (Package_bp (s a))) f) =
      readFile e (filepath_Join e (Dir (Package_bp (s a))) f)" for a f
    using files [of a f] by simp
qed (use p in simp_all)

lemma golist_Fingerprint_stdlib_files:
  assumes lib: "\<And>dep. pkgs dep = Some lib \<Longrightarrow> isStdLib dep" and p: "p \<noteq> lib"
    and files: "\<And>a f. a \<noteq> lib \<Longrightarrow> f \<in> set (golist_owned_files (s a)) \<Longrightarrow>
        rf (filepath_Join e (golist_Package.Dir (s a)) f) = readFile e (filepath_Join e (golist_Package.Dir (s a)) f)"
  shows "golist_Fingerprint n (e\<lparr>readFile := rf\<rparr>) pkgs s p = golist_Fingerprint n e pkgs s p"
proof (rule golist_Fingerprint_cong [where g = s and S = "{a. a \<noteq> lib}"])
  show "a \<in> {a. a \<noteq> lib} \<Longrightarrow> dep \<in> set (Deps (s a)) \<Longrightarrow> \<not> isStdLib dep \<Longrightarrow> pkgs dep = Some d \<Longrightarrow>
      d \<in> {a. a \<noteq> lib}" for a dep d
    using lib [of dep] by auto
  show "a \<in> {a. a \<noteq> lib} \<Longrightarrow> f \<in> set (golist_owned_files (s a)) \<Longrightarrow>
      readFile (e\<lparr>readFile := rf\<rparr>) (filepath_Join e (golist_Package.Dir (s a)) f) =
      readFile e (filepath_Join e (golist_Package.Dir (s a)) f)" for a f
    using files [of a f] by simp
qed (use p in simp_all)



lemma imports_first_append:
  "imports_first s A (xs @ ys) \<longleftrightarrow> imports_first s A xs \<and> imports_first s (A \<union> set xs) ys"
  by (induction xs arbitrary: A) (auto simp: insert_commute Un_commute)

lemma imports_first_mono:
  "imports_first s A xs \<Longrightarrow> A \<subseteq> B \<Longrightarrow> imports_first s B xs"
proof (induction xs arbitrary: A B)
  case Nil
  then show ?case by simp
next
  case (Cons x xs)
  have "imports_first s (insert x B) xs"
    using Cons.IH [of "insert x A" "insert x B"] Cons.prems by auto
  then show ?case using Cons.prems by auto
qed

lemma imports_first_drop:
  "imports_first s (insert p A) xs \<Longrightarrow> (\<And>x. x \<in> set xs \<Longrightarrow> p \<notin> set (imports_of (s x))) \<Longrightarrow>
   imports_first s A xs"
proof (induction xs arbitrary: A)
  case Nil
  then show ?case by simp
next
  case (Cons x xs)
  have "imports_first s (insert p (insert x A)) xs"
    using Cons.prems(1) by (simp add: insert_commute)
  then have "imports_first s (insert x A) xs" using Cons.IH Cons.prems(2) by simp
  moreover have "set (imports_of (s x)) \<subseteq> A" using Cons.prems by auto
  ultimately show ?case by simp
qed

lemma walk_post_each:
  assumes W: "\<And>p st st'. W p st = Some st' \<Longrightarrow> walk_post s rank [p] st st'"
  shows "each_opt W ps st = Some st' \<Longrightarrow> walk_post s rank ps st st'"
proof (induction ps arbitrary: st)
  case Nil
  then show ?case by (simp add: walk_post_def)
next
  case (Cons p ps)
  then obtain st1 where one: "W p st = Some st1" and rest: "each_opt W ps st1 = Some st'"
    by (auto split: option.splits)
  from W [OF one] obtain new1 where n1: "snd st1 = snd st @ new1" "fst st1 = fst st \<union> set new1"
    "set new1 \<inter> fst st = {}" "distinct new1" "p \<in> fst st1" "\<forall>x\<in>set new1. rank x \<le> rank p"
    "imports_first s (fst st) new1"
    unfolding walk_post_def by auto
  from Cons.IH [OF rest] obtain new2 where n2: "snd st' = snd st1 @ new2" "fst st' = fst st1 \<union> set new2"
    "set new2 \<inter> fst st1 = {}" "distinct new2" "set ps \<subseteq> fst st'"
    "\<forall>x\<in>set new2. \<exists>p\<in>set ps. rank x \<le> rank p" "imports_first s (fst st1) new2"
    unfolding walk_post_def by auto
  have "imports_first s (fst st) (new1 @ new2)"
    using n1 n2 by (simp add: imports_first_append)
  moreover have "snd st' = snd st @ (new1 @ new2)" using n1 n2 by simp
  moreover have "fst st' = fst st \<union> set (new1 @ new2)" using n1 n2 by auto
  moreover have "set (new1 @ new2) \<inter> fst st = {}" using n1 n2 by auto
  moreover have "distinct (new1 @ new2)" using n1 n2 by auto
  moreover have "set (p # ps) \<subseteq> fst st'" using n1 n2 by auto
  moreover have "\<forall>x\<in>set (new1 @ new2). \<exists>q\<in>set (p # ps). rank x \<le> rank q" using n1 n2 by auto
  ultimately show ?case unfolding walk_post_def by blast
qed

lemma walk_post_walk:
  fixes rank :: "nat \<Rightarrow> nat"
  assumes rank: "\<And>p q. q \<in> set (imports_of (s p)) \<Longrightarrow> rank q < rank p"
  shows "walk n s p st = Some st' \<Longrightarrow> walk_post s rank [p] st st'"
proof (induction n arbitrary: p st st')
  case 0
  then show ?case by simp
next
  case (Suc n)
  obtain seen all where st: "st = (seen, all)" by (cases st)
  show ?case
  proof (cases "p \<in> seen")
    case True
    then have "st' = st" using Suc.prems st by simp
    then show ?thesis using True st by (simp add: walk_post_def)
  next
    case False
    then obtain seen1 all1 where kids: "each_opt (walk n s) (imports_of (s p)) (insert p seen, all) = Some (seen1, all1)"
      and st': "st' = (seen1, all1 @ [p])"
      using Suc.prems st by (auto split: option.splits)
    from walk_post_each [where W = "walk n s", OF Suc.IH kids]
    obtain new where n: "all1 = all @ new" "seen1 = insert p seen \<union> set new"
      "set new \<inter> insert p seen = {}" "distinct new" "set (imports_of (s p)) \<subseteq> seen1"
      "\<forall>x\<in>set new. \<exists>q\<in>set (imports_of (s p)). rank x \<le> rank q"
      "imports_first s (insert p seen) new"
      unfolding walk_post_def by auto
    have below: "rank x < rank p" if "x \<in> set new" for x
      using n(6) that rank by fastforce
    have "p \<notin> set (imports_of (s x))" if "x \<in> set new" for x
      using below [OF that] rank [of p x] by auto
    then have first: "imports_first s seen new" using n(7) by (rule imports_first_drop [rotated]) 
    have "p \<notin> set (imports_of (s p))" using rank [of p p] by auto
    then have "set (imports_of (s p)) \<subseteq> seen \<union> set new" using n(5) n(2) by auto
    then have "imports_first s seen (new @ [p])" using first by (simp add: imports_first_append)
    moreover have "snd st' = snd st @ (new @ [p])" using st st' n by simp
    moreover have "fst st' = fst st \<union> set (new @ [p])" using st st' n by auto
    moreover have "set (new @ [p]) \<inter> fst st = {}" using st n False by auto
    moreover have "distinct (new @ [p])" using n by auto
    moreover have "\<forall>x\<in>set (new @ [p]). \<exists>q\<in>set [p]. rank x \<le> rank q" using below by fastforce
    ultimately show ?thesis unfolding walk_post_def using st by auto
  qed
qed

lemma packageList_order:
  fixes rank :: "nat \<Rightarrow> nat"
  assumes rank: "\<And>p q. q \<in> set (imports_of (s p)) \<Longrightarrow> rank q < rank p"
    and run: "packageList n s roots = Some all"
  shows "distinct all \<and> imports_first s {} all \<and> set roots \<subseteq> set all"
proof -
  obtain seen where "each_opt (walk n s) roots ({}, []) = Some (seen, all)"
    using run by (auto simp: packageList_def)
  from walk_post_each [where W = "walk n s", OF walk_post_walk [of s rank n] this] rank
  show ?thesis by (auto simp: walk_post_def)
qed


lemma imports_first_before:
  "imports_first s A (xs @ x # ys) \<Longrightarrow> set (imports_of (s x)) \<subseteq> A \<union> set xs"
  by (simp add: imports_first_append)

lemma dependency_before:
  assumes first: "imports_first s {} (xs @ U # ys)" and dep: "(U, D) \<in> (import_edges s)\<^sup>+"
  shows "D \<in> set xs"
  using dep
proof (induction rule: trancl_induct)
  case (base y)
  then show ?case using imports_first_before [OF first] by (auto simp: import_edges_def)
next
  case (step y z)
  then obtain as bs where xs: "xs = as @ y # bs" by (auto simp: in_set_conv_decomp)
  then have "imports_first s {} (as @ y # (bs @ U # ys))" using first by simp
  from imports_first_before [OF this] step(2) have "z \<in> set as" by (auto simp: import_edges_def)
  then show ?case using xs by simp
qed

lemma setStale_append:
  "setStale e tr (xs @ ys) st = setStale e tr ys (setStale e tr xs st)"
proof (induction xs arbitrary: st)
  case Nil
  then show ?case by (cases st) simp
next
  case (Cons x xs)
  then show ?case by (cases st) (simp add: Let_def split: prod.splits)
qed

lemma setStale_other:
  "q \<notin> set ps \<Longrightarrow> fst (setStale e tr ps (s, out)) q = s q"
  by (induction ps arbitrary: s out) (auto simp: Let_def split: prod.splits)

lemma setStale_fields:
  "(fst (setStale e tr ps (s, out)) q)\<lparr>Stale := x\<rparr> = (s q)\<lparr>Stale := x\<rparr>"
proof (induction ps arbitrary: s out)
  case Nil
  then show ?case by simp
next
  case (Cons p ps)
  obtain b l where r: "isStale e s p tr = (b, l)" by (cases "isStale e s p tr")
  have "(fst (setStale e tr ps (s(p := (s p)\<lparr>Stale := b\<rparr>), out @ l)) q)\<lparr>Stale := x\<rparr> =
      ((s(p := (s p)\<lparr>Stale := b\<rparr>)) q)\<lparr>Stale := x\<rparr>"
    by (rule Cons.IH)
  then show ?case using r by simp
qed

lemma isStale_dependency_stale:
  assumes "D \<in> set (deps (s U))" "Stale (s D)" "\<not> fake_builtin (s U)" "\<not> no_go_source (s U)"
  shows "fst (isStale e s U tr)"
proof -
  have "list_ex (\<lambda>p1. Stale (s p1) \<or> Target (s p1) \<noteq> [] \<and> olderThan e built (Target (s p1))) (deps (s U))"
    for built
    using assms(1,2) by (auto simp: list_ex_iff)
  then show ?thesis
    using assms(3,4) by (auto simp: isStale_def Let_def fake_builtin_def no_go_source_def)
qed

lemma computeStale_monotone:
  fixes rank :: "nat \<Rightarrow> nat"
  assumes run: "computeStale n e s roots = Some (s', out)"
    and rank: "\<And>p q. q \<in> set (imports_of (s p)) \<Longrightarrow> rank q < rank p"
    and visited: "packageList n s roots = Some all" "U \<in> set all"
    and dep: "D \<in> set (deps (s U))" "(U, D) \<in> (import_edges s)\<^sup>+"
    and U: "\<not> fake_builtin (s U)" "\<not> no_go_source (s U)"
    and D: "Stale (s' D)"
  shows "Stale (s' U)"
proof -
  define tr where "tr = topRoots s roots (\<lambda>root. False)"
  have s': "s' = fst (setStale e tr all (s, []))"
    using run visited(1) by (simp add: computeStale_def tr_def)
  note ord = packageList_order [of s rank, OF rank visited(1)]
  obtain xs ys where all: "all = xs @ U # ys" using visited(2) by (auto simp: in_set_conv_decomp)
  have Dxs: "D \<in> set xs" using dependency_before [of s xs U ys D] ord dep(2) all by simp
  have notin: "U \<notin> set xs" "U \<notin> set ys" "D \<notin> set ys" "D \<noteq> U"
    using ord all Dxs by auto
  obtain s1 out1 where one: "setStale e tr xs (s, []) = (s1, out1)" by (cases "setStale e tr xs (s, [])")
  obtain b l where verdict: "isStale e s1 U tr = (b, l)" by (cases "isStale e s1 U tr")
  define s2 where "s2 = s1(U := (s1 U)\<lparr>Stale := b\<rparr>)"
  have s'2: "s' = fst (setStale e tr ys (s2, out1 @ l))"
    unfolding s' all setStale_append one using verdict by (simp add: s2_def)
  have "s' U = s2 U" "s' D = s2 D" unfolding s'2 using notin by (simp_all add: setStale_other)
  then have final: "Stale (s' U) = b" "Stale (s1 D) = Stale (s' D)" using notin by (simp_all add: s2_def)
  have s1U: "s1 U = s U" using setStale_other [of U xs e tr s "[]"] one notin by simp
  have "fst (isStale e s1 U tr)"
    using dep(1) D U final(2) s1U by (intro isStale_dependency_stale [of D]) simp_all
  then show ?thesis using final(1) verdict by simp
qed

section \<open>The loader: what a load keeps true\<close>

lemma zero_Package_fields:
  "imports' zero_Package = None" "\<not> Incomplete zero_Package" "Error zero_Package = None"
  by (simp_all add: zero_Package_def)

lemma ext_refl: "ext st st"
  by (simp add: ext_def)

lemma ext_trans:
  assumes ab: "ext a b" and bc: "ext b c"
  shows "ext a c"
proof -
  have le: "fresh a \<le> fresh b" "fresh b \<le> fresh c" using ab bc by (simp_all add: ext_def)
  have lt: "r < fresh b" if "r < fresh a" for r using that le by simp
  show ?thesis
    unfolding ext_def
  proof (intro conjI allI impI)
    show "fresh a \<le> fresh c" using le by simp
  next
    fix r assume r: "r < fresh a" and i: "imports' (mem a r) \<noteq> None"
    have 1: "imports' (mem b r) = imports' (mem a r)" "Incomplete (mem b r) = Incomplete (mem a r)"
      using ab r i by (simp_all add: ext_def)
    have 2: "imports' (mem c r) = imports' (mem b r)" "Incomplete (mem c r) = Incomplete (mem b r)"
      using bc lt [OF r] i 1 by (simp_all add: ext_def)
    show "imports' (mem c r) = imports' (mem a r)" using 1 2 by simp
    show "Incomplete (mem c r) = Incomplete (mem a r)" using 1 2 by simp
  next
    fix r assume r: "r < fresh a" and i: "Incomplete (mem a r)"
    have "Incomplete (mem b r)" using ab r i by (simp add: ext_def)
    then show "Incomplete (mem c r)" using bc lt [OF r] by (simp add: ext_def)
  next
    fix r assume r: "r < fresh a" and i: "Error (mem a r) \<noteq> None"
    have "Error (mem b r) \<noteq> None" using ab r i by (simp add: ext_def)
    then show "Error (mem c r) \<noteq> None" using bc lt [OF r] by (simp add: ext_def)
  next
    fix r assume r: "r < fresh a" and i: "imports' (mem a r) = None"
    have "imports' (mem b r) = None" using ab r i by (simp add: ext_def)
    then show "imports' (mem c r) = None" using bc lt [OF r] by (simp add: ext_def)
  next
    fix r assume r: "r < fresh a"
    have "Package_bp (mem b r) = Package_bp (mem a r)" using ab r by (simp add: ext_def)
    moreover have "Package_bp (mem c r) = Package_bp (mem b r)" using bc lt [OF r] by (simp add: ext_def)
    ultimately show "Package_bp (mem c r) = Package_bp (mem a r)" by simp
  next
    fix r assume r: "r < fresh a" and i: "Incomplete (mem c r)"
    have 1: "Incomplete (mem b r) \<or> Error (mem c r) \<noteq> None" using bc lt [OF r] i by (simp add: ext_def)
    have 2: "Incomplete (mem b r) \<Longrightarrow> Incomplete (mem a r) \<or> Error (mem b r) \<noteq> None"
      using ab r by (simp add: ext_def)
    have 3: "Error (mem b r) \<noteq> None \<Longrightarrow> Error (mem c r) \<noteq> None" using bc lt [OF r] by (simp add: ext_def)
    show "Incomplete (mem a r) \<or> Error (mem c r) \<noteq> None" using 1 2 3 by blast
  next
    fix k x assume "packageCache a k = Some x"
    then have "packageCache b k = Some x" using ab by (simp add: ext_def)
    then show "packageCache c k = Some x" using bc by (simp add: ext_def)
  qed
qed

lemma ext_cong:
  assumes "ext st0 st" "fresh st' = fresh st" "packageCache st' = packageCache st"
    and "\<And>r. r < fresh st0 \<Longrightarrow> mem st' r = mem st r"
  shows "ext st0 st'"
  using assms by (simp add: ext_def)

lemma ext_upd_new:
  assumes "ext st0 st" "fresh st0 \<le> p"
  shows "ext st0 (st\<lparr>mem := (mem st)(p := x)\<rparr>)"
  using assms(1)
proof (rule ext_cong)
  show "mem (st\<lparr>mem := (mem st)(p := x)\<rparr>) r = mem st r" if "r < fresh st0" for r
    using that assms(2) by simp
qed simp_all

lemma ext_pointwise:
  assumes "fresh st' = fresh st" "packageCache st' = packageCache st"
    and "\<And>r. imports' (mem st' r) = imports' (mem st r)"
    and "\<And>r. Incomplete (mem st r) \<Longrightarrow> Incomplete (mem st' r)"
    and "\<And>r. imports' (mem st r) \<noteq> None \<Longrightarrow> Incomplete (mem st' r) \<Longrightarrow> Incomplete (mem st r)"
    and "\<And>r. Error (mem st r) \<noteq> None \<Longrightarrow> Error (mem st' r) \<noteq> None"
    and "\<And>r. Package_bp (mem st' r) = Package_bp (mem st r)"
    and "\<And>r. Incomplete (mem st' r) \<Longrightarrow> Incomplete (mem st r) \<or> Error (mem st' r) \<noteq> None"
  shows "ext st st'"
  unfolding ext_def
proof (intro conjI allI impI)
  fix r assume "imports' (mem st r) \<noteq> None"
  then show "Incomplete (mem st' r) = Incomplete (mem st r)" using assms(4,5) by blast
next
  fix r assume "Incomplete (mem st' r)"
  then show "Incomplete (mem st r) \<or> Error (mem st' r) \<noteq> None" by (rule assms(8))
qed (simp_all add: assms(1,2,3,4,6,7))

lemma ext_touch:
  assumes "imports' x = imports' (mem st p)"
    and "Incomplete (mem st p) \<Longrightarrow> Incomplete x"
    and "imports' (mem st p) \<noteq> None \<Longrightarrow> Incomplete x \<Longrightarrow> Incomplete (mem st p)"
    and "Error (mem st p) \<noteq> None \<Longrightarrow> Error x \<noteq> None"
    and "Package_bp x = Package_bp (mem st p)"
    and "Incomplete x \<Longrightarrow> Incomplete (mem st p) \<or> Error x \<noteq> None"
  shows "ext st (st\<lparr>mem := (mem st)(p := x)\<rparr>)"
proof (rule ext_pointwise)
  fix r
  show "imports' (mem (st\<lparr>mem := (mem st)(p := x)\<rparr>) r) = imports' (mem st r)"
    using assms(1) by (cases "r = p") simp_all
  show "Incomplete (mem st r) \<Longrightarrow> Incomplete (mem (st\<lparr>mem := (mem st)(p := x)\<rparr>) r)"
    using assms(2) by (cases "r = p") simp_all
  show "imports' (mem st r) \<noteq> None \<Longrightarrow> Incomplete (mem (st\<lparr>mem := (mem st)(p := x)\<rparr>) r) \<Longrightarrow>
      Incomplete (mem st r)"
    using assms(3) by (cases "r = p") simp_all
  show "Error (mem st r) \<noteq> None \<Longrightarrow> Error (mem (st\<lparr>mem := (mem st)(p := x)\<rparr>) r) \<noteq> None"
    using assms(4) by (cases "r = p") simp_all
  show "Package_bp (mem (st\<lparr>mem := (mem st)(p := x)\<rparr>) r) = Package_bp (mem st r)"
    using assms(5) by (cases "r = p") simp_all
  show "Incomplete (mem (st\<lparr>mem := (mem st)(p := x)\<rparr>) r) \<Longrightarrow>
      Incomplete (mem st r) \<or> Error (mem (st\<lparr>mem := (mem st)(p := x)\<rparr>) r) \<noteq> None"
    using assms(6) by (cases "r = p") simp_all
qed simp_all

lemma grounded_mono:
  assumes "grounded mark s q"
    and im: "\<And>r. imports' (s r) \<noteq> None \<Longrightarrow> imports' (s' r) = imports' (s r)"
    and mark: "\<And>r. mark (s r) \<Longrightarrow> mark (s' r)"
  shows "grounded mark s' q"
  using assms(1)
proof (induction rule: grounded.induct)
  case (1 p ps)
  have "imports' (s' p) = Some ps" using im [of p] 1(1) by simp
  moreover have "grounded mark s' q" if "q \<in> set ps" "\<not> mark (s' q)" for q
    using 1(3) [OF that(1)] that(2) mark by blast
  ultimately show ?case by (rule grounded.intros)
qed

lemma grounded_no_cycle:
  assumes "grounded mark s p"
  shows "(p, p) \<notin> {(a, b). b \<in> set (imports_of (s a)) \<and> \<not> mark (s b)}\<^sup>+"
  using assms
proof (induction rule: grounded.induct)
  case (1 p ps)
  let ?E = "{(a, b). b \<in> set (imports_of (s a)) \<and> \<not> mark (s b)}"
  show ?case
  proof
    assume "(p, p) \<in> ?E\<^sup>+"
    then obtain q where q: "(p, q) \<in> ?E" "(q, p) \<in> ?E\<^sup>*"
      by (meson tranclD)
    then have "q \<in> set ps" "\<not> mark (s q)" using 1(1) by (simp_all add: imports_of_def)
    moreover have "(q, q) \<in> ?E\<^sup>+" using q by (meson rtrancl_into_trancl1)
    ultimately show False using 1(3) by blast
  qed
qed

lemma imports_of_edge:
  assumes "q \<in> set (imports_of (s p))"
  shows "\<exists>ps. imports' (s p) = Some ps \<and> q \<in> set ps"
  using assms by (cases "imports' (s p)") (simp_all add: imports_of_def)

lemma loader_inv_grounded:
  "loader_inv st \<Longrightarrow> imports' (mem st r) \<noteq> None \<Longrightarrow> grounded Incomplete (mem st) r"
  "loader_inv st \<Longrightarrow> imports' (mem st r) \<noteq> None \<Longrightarrow> grounded has_Error (mem st) r"
  by (simp_all add: loader_inv_def)

lemma loader_inv_import:
  assumes "loader_inv st" "imports' (mem st r) = Some ps" "q \<in> set ps"
  shows "Incomplete (mem st q) \<Longrightarrow> Incomplete (mem st r)"
    and "Incomplete (mem st q) \<or> imports' (mem st q) \<noteq> None"
proof -
  have "\<forall>r ps q. imports' (mem st r) = Some ps \<longrightarrow> q \<in> set ps \<longrightarrow>
        (Incomplete (mem st q) \<longrightarrow> Incomplete (mem st r)) \<and>
        (Incomplete (mem st q) \<or> imports' (mem st q) \<noteq> None)"
    using assms(1) by (simp add: loader_inv_def)
  then have both: "(Incomplete (mem st q) \<longrightarrow> Incomplete (mem st r)) \<and>
        (Incomplete (mem st q) \<or> imports' (mem st q) \<noteq> None)"
    using assms(2,3) by blast
  show "Incomplete (mem st q) \<Longrightarrow> Incomplete (mem st r)" using both by simp
  show "Incomplete (mem st q) \<or> imports' (mem st q) \<noteq> None" using both by simp
qed

lemma loader_inv_origin:
  assumes "loader_inv st" "imports' (mem st r) = Some ps" "Incomplete (mem st r)" "Error (mem st r) = None"
  shows "\<exists>q\<in>set ps. Incomplete (mem st q)"
proof -
  have "\<forall>r ps. imports' (mem st r) = Some ps \<longrightarrow> Incomplete (mem st r) \<longrightarrow> Error (mem st r) = None \<longrightarrow>
        (\<exists>q\<in>set ps. Incomplete (mem st q))"
    using assms(1) by (simp add: loader_inv_def)
  then show ?thesis using assms(2,3,4) by blast
qed

lemma loader_inv_fresh:
  "loader_inv st \<Longrightarrow> fresh st \<le> r \<Longrightarrow> mem st r = zero_Package"
  "loader_inv st \<Longrightarrow> packageCache st k = Some a \<Longrightarrow> a < fresh st"
  by (simp_all add: loader_inv_def)

lemma loader_inv_error_free:
  assumes "loader_inv st"
  shows "(p, p) \<notin> (error_free_edges (mem st))\<^sup>+"
proof
  assume c: "(p, p) \<in> (error_free_edges (mem st))\<^sup>+"
  then obtain q where "(p, q) \<in> error_free_edges (mem st)" by (meson tranclD)
  then have "imports' (mem st p) \<noteq> None"
    using imports_of_edge [of q "mem st" p] by (auto simp: error_free_edges_def)
  then have "grounded has_Error (mem st) p" using assms by (rule loader_inv_grounded(2) [rotated])
  then have "(p, p) \<notin> {(a, b). b \<in> set (imports_of (mem st a)) \<and> \<not> has_Error (mem st b)}\<^sup>+"
    by (rule grounded_no_cycle)
  then show False using c by (simp add: error_free_edges_def has_Error_def)
qed

lemma loader_inv_edge:
  assumes "loader_inv st" "(a, c) \<in> import_edges (mem st)" "Incomplete (mem st c)"
  shows "Incomplete (mem st a)"
proof -
  obtain ps where "imports' (mem st a) = Some ps" "c \<in> set ps"
    using imports_of_edge [of c "mem st" a] assms(2) by (auto simp: import_edges_def)
  then show ?thesis using loader_inv_import(1) [OF assms(1)] assms(3) by blast
qed

lemma loader_inv_path:
  assumes "loader_inv st" "(a, c) \<in> (import_edges (mem st))\<^sup>*" "Incomplete (mem st c)"
  shows "Incomplete (mem st a)"
  using assms(2,3)
proof (induction rule: converse_rtrancl_induct)
  case base
  then show ?case .
next
  case (step y z)
  then show ?case using loader_inv_edge [OF assms(1)] by blast
qed

lemma loader_inv_cycle:
  assumes inv: "loader_inv st" and c: "(p, p) \<in> (import_edges (mem st))\<^sup>+"
  shows "Incomplete (mem st p)"
proof -
  let ?E = "import_edges (mem st)"
  let ?E' = "{(a, b). b \<in> set (imports_of (mem st a)) \<and> \<not> Incomplete (mem st b)}"
  have split: "(a, c) \<in> ?E'\<^sup>+ \<or> (\<exists>q. (a, q) \<in> ?E\<^sup>+ \<and> Incomplete (mem st q))" if "(a, c) \<in> ?E\<^sup>+" for a c
    using that
  proof (induction rule: trancl_induct)
    case (base y)
    then show ?case by (cases "Incomplete (mem st y)") (auto simp: import_edges_def)
  next
    case (step y z)
    show ?case
    proof (cases "Incomplete (mem st z)")
      case True
      have "(a, z) \<in> ?E\<^sup>+" using step(1,2) by simp
      then show ?thesis using True by blast
    next
      case False
      then have "(y, z) \<in> ?E'" using step(2) by (simp add: import_edges_def)
      then show ?thesis using step(3) by (meson trancl.trancl_into_trancl)
    qed
  qed
  obtain q where "(p, q) \<in> ?E" by (meson c tranclD)
  then have "imports' (mem st p) \<noteq> None"
    using imports_of_edge [of q "mem st" p] by (auto simp: import_edges_def)
  then have "grounded Incomplete (mem st) p" using inv by (rule loader_inv_grounded(1) [rotated])
  then have "(p, p) \<notin> ?E'\<^sup>+" by (rule grounded_no_cycle)
  then obtain q where "(p, q) \<in> ?E\<^sup>+" "Incomplete (mem st q)" using split [OF c] by blast
  then show ?thesis using loader_inv_path [OF inv, of p q] by (simp add: trancl_into_rtrancl)
qed

lemma loader_invI:
  assumes "\<And>r. imports' (mem st r) \<noteq> None \<Longrightarrow> grounded Incomplete (mem st) r"
    and "\<And>r. imports' (mem st r) \<noteq> None \<Longrightarrow> grounded has_Error (mem st) r"
    and "\<And>r ps q. imports' (mem st r) = Some ps \<Longrightarrow> q \<in> set ps \<Longrightarrow> Incomplete (mem st q) \<Longrightarrow>
           Incomplete (mem st r)"
    and "\<And>r ps q. imports' (mem st r) = Some ps \<Longrightarrow> q \<in> set ps \<Longrightarrow>
           Incomplete (mem st q) \<or> imports' (mem st q) \<noteq> None"
    and "\<And>r ps. imports' (mem st r) = Some ps \<Longrightarrow> Incomplete (mem st r) \<Longrightarrow> Error (mem st r) = None \<Longrightarrow>
           \<exists>q\<in>set ps. Incomplete (mem st q)"
    and "\<And>r. fresh st \<le> r \<Longrightarrow> mem st r = zero_Package"
    and "\<And>k a. packageCache st k = Some a \<Longrightarrow> a < fresh st"
  shows "loader_inv st"
  unfolding loader_inv_def
proof (intro conjI allI impI)
  fix r assume "imports' (mem st r) \<noteq> None"
  then show "grounded Incomplete (mem st) r" by (rule assms(1))
next
  fix r assume "imports' (mem st r) \<noteq> None"
  then show "grounded has_Error (mem st) r" by (rule assms(2))
next
  fix r ps q assume "imports' (mem st r) = Some ps" "q \<in> set ps" "Incomplete (mem st q)"
  then show "Incomplete (mem st r)" by (rule assms(3))
next
  fix r ps q assume "imports' (mem st r) = Some ps" "q \<in> set ps"
  then show "Incomplete (mem st q) \<or> imports' (mem st q) \<noteq> None" by (rule assms(4))
next
  fix r ps assume "imports' (mem st r) = Some ps" "Incomplete (mem st r)" "Error (mem st r) = None"
  then show "\<exists>q\<in>set ps. Incomplete (mem st q)" by (rule assms(5))
next
  fix r assume "fresh st \<le> r"
  then show "mem st r = zero_Package" by (rule assms(6))
next
  fix k a assume "packageCache st k = Some a"
  then show "a < fresh st" by (rule assms(7))
qed

lemma loader_inv_pointwise:
  assumes inv: "loader_inv st"
    and zero: "\<And>r. fresh st' \<le> r \<Longrightarrow> mem st' r = zero_Package"
    and cache: "\<And>k a. packageCache st' k = Some a \<Longrightarrow> a < fresh st'"
    and im: "\<And>r. imports' (mem st' r) = imports' (mem st r)"
    and inc: "\<And>r. Incomplete (mem st r) \<Longrightarrow> Incomplete (mem st' r)"
    and inc': "\<And>r. imports' (mem st r) \<noteq> None \<Longrightarrow> Incomplete (mem st' r) \<Longrightarrow> Incomplete (mem st r)"
    and er: "\<And>r. Error (mem st r) \<noteq> None \<Longrightarrow> Error (mem st' r) \<noteq> None"
  shows "loader_inv st'"
proof (rule loader_invI)
  fix r assume "imports' (mem st' r) \<noteq> None"
  then have r: "imports' (mem st r) \<noteq> None" by (simp add: im)
  show "grounded Incomplete (mem st') r"
    using loader_inv_grounded(1) [OF inv r] by (rule grounded_mono) (simp_all add: im inc)
  show "grounded has_Error (mem st') r"
    using loader_inv_grounded(2) [OF inv r] by (rule grounded_mono) (simp_all add: im er has_Error_def)
next
  fix r ps q assume a: "imports' (mem st' r) = Some ps" "q \<in> set ps"
  then have r: "imports' (mem st r) = Some ps" by (simp add: im)
  note q = loader_inv_import [OF inv r a(2)]
  show "Incomplete (mem st' q) \<or> imports' (mem st' q) \<noteq> None"
    using q(2) inc [of q] by (auto simp: im)
  assume "Incomplete (mem st' q)"
  then have "Incomplete (mem st q)" using q(2) inc' [of q] by blast
  then show "Incomplete (mem st' r)" using q(1) inc by blast
next
  fix r ps assume a: "imports' (mem st' r) = Some ps" "Incomplete (mem st' r)" "Error (mem st' r) = None"
  then have r: "imports' (mem st r) = Some ps" by (simp add: im)
  have "Incomplete (mem st r)" using inc' [of r] r a(2) by simp
  moreover have "Error (mem st r) = None" using er [of r] a(3) by blast
  ultimately obtain q where "q \<in> set ps" "Incomplete (mem st q)"
    using loader_inv_origin [OF inv r] by blast
  then show "\<exists>q\<in>set ps. Incomplete (mem st' q)" using inc by blast
qed (fact zero cache)+

lemma loader_inv_touch:
  assumes inv: "loader_inv st" and p: "p < fresh st"
    and im: "imports' x = imports' (mem st p)"
    and inc: "Incomplete (mem st p) \<Longrightarrow> Incomplete x"
    and inc': "imports' (mem st p) \<noteq> None \<Longrightarrow> Incomplete x \<Longrightarrow> Incomplete (mem st p)"
    and er: "Error (mem st p) \<noteq> None \<Longrightarrow> Error x \<noteq> None"
  shows "loader_inv (st\<lparr>mem := (mem st)(p := x)\<rparr>)"
  using inv
proof (rule loader_inv_pointwise)
  fix r
  show "fresh (st\<lparr>mem := (mem st)(p := x)\<rparr>) \<le> r \<Longrightarrow> mem (st\<lparr>mem := (mem st)(p := x)\<rparr>) r = zero_Package"
    using p loader_inv_fresh(1) [OF inv, of r] by (cases "r = p") simp_all
  show "imports' (mem (st\<lparr>mem := (mem st)(p := x)\<rparr>) r) = imports' (mem st r)"
    using im by (cases "r = p") simp_all
  show "Incomplete (mem st r) \<Longrightarrow> Incomplete (mem (st\<lparr>mem := (mem st)(p := x)\<rparr>) r)"
    using inc by (cases "r = p") simp_all
  show "imports' (mem st r) \<noteq> None \<Longrightarrow> Incomplete (mem (st\<lparr>mem := (mem st)(p := x)\<rparr>) r) \<Longrightarrow>
      Incomplete (mem st r)"
    using inc' by (cases "r = p") simp_all
  show "Error (mem st r) \<noteq> None \<Longrightarrow> Error (mem (st\<lparr>mem := (mem st)(p := x)\<rparr>) r) \<noteq> None"
    using er by (cases "r = p") simp_all
next
  fix k a assume "packageCache (st\<lparr>mem := (mem st)(p := x)\<rparr>) k = Some a"
  then show "a < fresh (st\<lparr>mem := (mem st)(p := x)\<rparr>)"
    using loader_inv_fresh(2) [OF inv, of k a] by simp
qed

lemma loadImport_new_fields:
  "fresh (loadImport_new e b ctx path srcDir st) = Suc (fresh st)"
  "packageCache (loadImport_new e b ctx path srcDir st) =
     (packageCache st)(fullImportPath e b ctx path srcDir \<mapsto> fresh st)"
  "r \<noteq> fresh st \<Longrightarrow> mem (loadImport_new e b ctx path srcDir st) r = mem st r"
  "imports' (mem (loadImport_new e b ctx path srcDir st) (fresh st)) = None"
  "\<not> Incomplete (mem (loadImport_new e b ctx path srcDir st) (fresh st))"
  "Error (mem (loadImport_new e b ctx path srcDir st) (fresh st)) = None"
  by (simp_all add: loadImport_new_def zero_Package_def)

lemma loader_inv_new:
  assumes inv: "loader_inv st"
  shows "loader_inv (loadImport_new e b ctx path srcDir st)"
  using inv
proof (rule loader_inv_pointwise)
  let ?st' = "loadImport_new e b ctx path srcDir st"
  have z: "mem st (fresh st) = zero_Package" using loader_inv_fresh(1) [OF inv, of "fresh st"] by simp
  fix r
  show "fresh ?st' \<le> r \<Longrightarrow> mem ?st' r = zero_Package"
    using loader_inv_fresh(1) [OF inv, of r] by (simp add: loadImport_new_fields)
  show "imports' (mem ?st' r) = imports' (mem st r)"
    using z by (cases "r = fresh st") (simp_all add: loadImport_new_fields zero_Package_fields)
  show "Incomplete (mem st r) \<Longrightarrow> Incomplete (mem ?st' r)"
    using z by (cases "r = fresh st") (simp_all add: loadImport_new_fields zero_Package_fields)
  show "imports' (mem st r) \<noteq> None \<Longrightarrow> Incomplete (mem ?st' r) \<Longrightarrow> Incomplete (mem st r)"
    using z by (cases "r = fresh st") (simp_all add: loadImport_new_fields zero_Package_fields)
  show "Error (mem st r) \<noteq> None \<Longrightarrow> Error (mem ?st' r) \<noteq> None"
    using z by (cases "r = fresh st") (simp_all add: loadImport_new_fields zero_Package_fields)
next
  fix k a assume "packageCache (loadImport_new e b ctx path srcDir st) k = Some a"
  then show "a < fresh (loadImport_new e b ctx path srcDir st)"
    using loader_inv_fresh(2) [OF inv, of k a]
    by (cases "k = fullImportPath e b ctx path srcDir") (simp_all add: loadImport_new_fields less_Suc_eq)
qed

lemma ext_new:
  assumes "packageCache st (fullImportPath e b ctx path srcDir) = None"
  shows "ext st (loadImport_new e b ctx path srcDir st)"
  using assms unfolding ext_def by (auto simp: loadImport_new_fields)

lemma loader_inv_finish:
  assumes inv: "loader_inv st" and p: "p < fresh st" and none: "imports' (mem st p) = None"
    and imps: "\<And>q. q \<in> set imps \<Longrightarrow> ready (mem st) q"
    and up: "\<And>q. q \<in> set imps \<Longrightarrow> Incomplete (mem st q) \<Longrightarrow> Incomplete (mem st p)"
    and orig: "Incomplete (mem st p) \<Longrightarrow> Error (mem st p) \<noteq> None \<or> (\<exists>q\<in>set imps. Incomplete (mem st q))"
    and x: "imports' x = Some imps" "Incomplete x = Incomplete (mem st p)"
      "Error (mem st p) \<noteq> None \<Longrightarrow> Error x \<noteq> None"
  shows "loader_inv (st\<lparr>mem := (mem st)(p := x)\<rparr>)"
proof (rule loader_invI)
  let ?st' = "st\<lparr>mem := (mem st)(p := x)\<rparr>"
  have other: "mem ?st' r = mem st r" if "r \<noteq> p" for r using that by simp
  have self: "mem ?st' p = x" by simp
  have im: "imports' (mem ?st' r) = imports' (mem st r)" if "imports' (mem st r) \<noteq> None" for r
    using that none by (cases "r = p") simp_all
  have inc: "Incomplete (mem ?st' r) = Incomplete (mem st r)" for r
    using x(2) by (cases "r = p") simp_all
  have er: "Error (mem st r) \<noteq> None \<Longrightarrow> Error (mem ?st' r) \<noteq> None" for r
    using x(3) by (cases "r = p") simp_all
  have pinc: "Incomplete (mem st p)" "Error (mem st p) \<noteq> None" if "p \<in> set imps"
    using imps [OF that] none by (simp_all add: ready_def)
  have old: "grounded mark (mem ?st') r"
    if "grounded mark (mem st) r" "\<And>r. mark (mem st r) \<Longrightarrow> mark (mem ?st' r)" for mark r
    using that(1) by (rule grounded_mono) (use im that(2) in blast)+
  have new: "grounded mark (mem ?st') p"
    if g: "\<And>r. imports' (mem st r) \<noteq> None \<Longrightarrow> grounded mark (mem st) r"
      and m: "\<And>r. mark (mem st r) \<Longrightarrow> mark (mem ?st' r)"
      and pm: "p \<in> set imps \<Longrightarrow> mark (mem st p)"
      and rm: "\<And>q. ready (mem st) q \<Longrightarrow> imports' (mem st q) = None \<Longrightarrow> mark (mem st q)" for mark
  proof (rule grounded.intros)
    show "imports' (mem ?st' p) = Some imps" using x(1) by simp
    fix q assume q: "q \<in> set imps" "\<not> mark (mem ?st' q)"
    then have "\<not> mark (mem st q)" using m by blast
    then have "imports' (mem st q) \<noteq> None" using rm [OF imps [OF q(1)]] by blast
    then have "grounded mark (mem st) q" by (rule g)
    then show "grounded mark (mem ?st') q" using m by (rule old)
  qed
  {
    fix r assume r: "imports' (mem ?st' r) \<noteq> None"
    show "grounded Incomplete (mem ?st') r"
    proof (cases "r = p")
      case True
      show ?thesis unfolding True
        by (rule new) (use loader_inv_grounded(1) [OF inv] inc pinc in \<open>auto simp: ready_def\<close>)
    next
      case False
      then have "imports' (mem st r) \<noteq> None" using r by simp
      then show ?thesis using loader_inv_grounded(1) [OF inv] inc old by blast
    qed
    show "grounded has_Error (mem ?st') r"
    proof (cases "r = p")
      case True
      show ?thesis unfolding True
        by (rule new) (use loader_inv_grounded(2) [OF inv] er pinc in \<open>auto simp: ready_def has_Error_def\<close>)
    next
      case False
      then have "imports' (mem st r) \<noteq> None" using r by simp
      then have "grounded has_Error (mem st) r" by (rule loader_inv_grounded(2) [OF inv])
      then show ?thesis by (rule old) (use er in \<open>simp add: has_Error_def\<close>)
    qed
  }
  {
    fix r ps q assume a: "imports' (mem ?st' r) = Some ps" "q \<in> set ps"
    have both: "(Incomplete (mem st q) \<longrightarrow> Incomplete (mem st r)) \<and>
        (Incomplete (mem st q) \<or> imports' (mem ?st' q) \<noteq> None)"
    proof (cases "r = p")
      case True
      then have ps: "ps = imps" using a(1) x(1) by simp
      have "Incomplete (mem st q) \<or> imports' (mem ?st' q) \<noteq> None"
        using imps [of q] a(2) ps im [of q] by (auto simp: ready_def)
      then show ?thesis using up [of q] a(2) ps True by blast
    next
      case False
      then have r: "imports' (mem st r) = Some ps" using a(1) by simp
      show ?thesis using loader_inv_import [OF inv r a(2)] im [of q] by auto
    qed
    show "Incomplete (mem ?st' q) \<or> imports' (mem ?st' q) \<noteq> None" using both inc by blast
    show "Incomplete (mem ?st' q) \<Longrightarrow> Incomplete (mem ?st' r)" using both inc by blast
  }
  {
    fix r ps assume a: "imports' (mem ?st' r) = Some ps" "Incomplete (mem ?st' r)" "Error (mem ?st' r) = None"
    have "\<exists>q\<in>set ps. Incomplete (mem st q)"
    proof (cases "r = p")
      case True
      then have ps: "ps = imps" using a(1) x(1) by simp
      have 1: "Incomplete (mem st p)" using a(2) inc [of p] True by simp
      have 2: "Error (mem st p) = None" using a(3) er [of p] True by (cases "Error (mem st p)") simp_all
      show ?thesis using orig 1 2 ps by blast
    next
      case False
      then have r: "imports' (mem st r) = Some ps" "Incomplete (mem st r)" "Error (mem st r) = None"
        using a by simp_all
      then show ?thesis by (rule loader_inv_origin [OF inv])
    qed
    then show "\<exists>q\<in>set ps. Incomplete (mem ?st' q)" using inc by blast
  }
  {
    fix r assume "fresh ?st' \<le> r"
    then show "mem ?st' r = zero_Package" using p loader_inv_fresh(1) [OF inv, of r] by simp
  }
  {
    fix k a assume "packageCache ?st' k = Some a"
    then show "a < fresh ?st'" using loader_inv_fresh(2) [OF inv, of k a] by simp
  }
qed

lemma reusePackage_other: "r \<noteq> p \<Longrightarrow> reusePackage p stk s r = s r"
  by (simp add: reusePackage_def Let_def split: option.splits)

lemma reusePackage_same:
  "imports' (reusePackage p stk s p) = imports' (s p)"
  "Package_bp (reusePackage p stk s p) = Package_bp (s p)"
  "Incomplete (reusePackage p stk s p) = (Incomplete (s p) \<or> imports' (s p) = None)"
  "Error (s p) \<noteq> None \<Longrightarrow> Error (reusePackage p stk s p) \<noteq> None"
  "imports' (s p) = None \<Longrightarrow> Error (reusePackage p stk s p) \<noteq> None"
  by (auto simp: reusePackage_def Let_def split: option.splits)


lemma loadImport_Suc:
  "loadImport (Suc n) e b ctx path srcDir stk0 importPos st =
     (case packageCache st (fullImportPath e b ctx path srcDir) of
        Some p \<Rightarrow> Some (p, st\<lparr>mem := reusePackage p (stk0 @ [path]) (mem st)\<rparr>)
      | None \<Rightarrow>
         (case load (loadImport n e b ctx) e b ctx (stk0 @ [path]) (loadImport_bp e b ctx path srcDir)
                 (loadImport_err e b ctx path srcDir) (fresh st) (loadImport_new e b ctx path srcDir st) of
            None \<Rightarrow> None
          | Some st3 \<Rightarrow> Some (fresh st, loadImport_pos b importPos (fresh st) st3)))"
proof (cases "Context_Import b ctx path srcDir")
  case (Pair bp0 err0)
  then show ?thesis
    by (cases "build_IsLocalImport b path"; cases "contains (BuildTags ctx) ''race''";
        cases "gobin b = []")
      (simp_all add: Let_def fullImportPath_def loadImport_bp_def loadImport_err_def loadImport_new_def
        loadImport_pos_def split del: if_split split: option.splits list.splits)
qed

lemma load_eq:
  "load L e b ctx stk bp err p st =
     (case err of
        Some er \<Rightarrow> Some (st\<lparr>mem := (mem st)(p := load_failed e b ctx stk bp er (mem st p))\<rparr>)
      | None \<Rightarrow>
         (case load_imports L b p stk (load_importPaths (load_head e b ctx bp (mem st p)))
                 (st\<lparr>mem := (mem st)(p := load_head e b ctx bp (mem st p))\<rparr>, [], []) of
            None \<Rightarrow> None
          | Some (st2, depmap, imps) \<Rightarrow>
              Some (st2\<lparr>mem := (mem st2)(p := load_tail b ctx stk p depmap imps (mem st2))\<rparr>)))"
  by (simp add: load_def Let_def load_head_def load_failed_def load_tail_def
      split del: if_split cong: option.case_cong if_cong)

lemma load_head_fields:
  "imports' (load_head e b ctx bp p) = imports' p"
  "Incomplete (load_head e b ctx bp p) = Incomplete p"
  "Package_bp (load_head e b ctx bp p) = bp"
  "Error (load_head e b ctx bp p) = Error p"
  by (simp_all add: load_head_def Let_def)

lemma load_failed_fields:
  "imports' (load_failed e b ctx stk bp er p) = imports' p"
  "Incomplete (load_failed e b ctx stk bp er p)"
  "Package_bp (load_failed e b ctx stk bp er p) = bp"
  "Error (load_failed e b ctx stk bp er p) \<noteq> None"
  by (simp_all add: load_failed_def)

lemma load_tail_fields:
  "imports' (load_tail b ctx stk p depmap imps s2) = Some imps"
  "Incomplete (load_tail b ctx stk p depmap imps s2) = Incomplete (s2 p)"
  "Package_bp (load_tail b ctx stk p depmap imps s2) = Package_bp (s2 p)"
  "Error (s2 p) \<noteq> None \<Longrightarrow> Error (load_tail b ctx stk p depmap imps s2) \<noteq> None"
  by (simp_all add: load_tail_def Let_def)


lemma reusePackage_upd: "reusePackage p stk s = s(p := reusePackage p stk s p)"
  by (rule ext) (simp add: reusePackage_other)

lemma reusePackage_loaded:
  assumes inv: "loader_inv st" and c: "packageCache st k = Some p"
  shows "loaded st p (st\<lparr>mem := reusePackage p stk (mem st)\<rparr>)"
proof -
  let ?x = "reusePackage p stk (mem st) p"
  note f = reusePackage_same [where p = p and stk = stk and s = "mem st"]
  have eq: "st\<lparr>mem := reusePackage p stk (mem st)\<rparr> = st\<lparr>mem := (mem st)(p := ?x)\<rparr>"
    using reusePackage_upd [of p stk "mem st"] by simp
  have p: "p < fresh st" using loader_inv_fresh(2) [OF inv c] .
  have 1: "loader_inv (st\<lparr>mem := (mem st)(p := ?x)\<rparr>)"
    using inv p by (rule loader_inv_touch) (use f in auto)
  have 2: "ext st (st\<lparr>mem := (mem st)(p := ?x)\<rparr>)"
    by (rule ext_touch) (use f in auto)
  have 3: "ready ((mem st)(p := ?x)) p"
    using f by (cases "imports' (mem st p)") (simp_all add: ready_def)
  show ?thesis unfolding eq loaded_def using 1 2 3 p by simp
qed

lemma loading_upd:
  assumes l: "loading st0 p st imps"
    and x: "imports' x = None" "Incomplete (mem st p) \<Longrightarrow> Incomplete x"
      "Error (mem st p) \<noteq> None \<Longrightarrow> Error x \<noteq> None"
    and rd: "\<And>q. q \<in> set imports2 \<Longrightarrow> ready (mem st) q"
    and up: "\<And>q. q \<in> set imports2 \<Longrightarrow> Incomplete (mem st q) \<Longrightarrow> Incomplete x"
    and orig: "Incomplete x \<Longrightarrow> Error x \<noteq> None \<or> (\<exists>q\<in>set imports2. Incomplete (mem st q))"
  shows "loading st0 p (st\<lparr>mem := (mem st)(p := x)\<rparr>) imports2"
proof -
  let ?st' = "st\<lparr>mem := (mem st)(p := x)\<rparr>"
  have inv: "loader_inv st" and e: "ext st0 st" and p: "fresh st0 \<le> p" "p < fresh st"
    and none: "imports' (mem st p) = None"
    using l by (simp_all add: loading_def)
  have 1: "loader_inv ?st'"
    using inv p(2) by (rule loader_inv_touch) (use x none in auto)
  have 2: "ext st0 ?st'" using e p(1) by (rule ext_upd_new)
  have inc: "Incomplete (mem st r) \<Longrightarrow> Incomplete (mem ?st' r)" for r
    using x(2) by (cases "r = p") simp_all
  have 3: "ready (mem ?st') q" if "q \<in> set imports2" for q
  proof (cases "q = p")
    case True
    then have "Incomplete (mem st p) \<and> Error (mem st p) \<noteq> None"
      using rd [OF that] none by (simp add: ready_def)
    then show ?thesis using x(2,3) True by (simp add: ready_def)
  next
    case False
    then show ?thesis using rd [OF that] by (simp add: ready_def)
  qed
  have 4: "Incomplete (mem ?st' p)" if "q \<in> set imports2" "Incomplete (mem ?st' q)" for q
    using that up [of q] by (cases "q = p") simp_all
  have 5: "Error (mem ?st' p) \<noteq> None \<or> (\<exists>q\<in>set imports2. Incomplete (mem ?st' q))"
    if "Incomplete (mem ?st' p)"
  proof -
    have "Error x \<noteq> None \<or> (\<exists>q\<in>set imports2. Incomplete (mem st q))" using that orig by simp
    then show ?thesis
    proof
      assume "Error x \<noteq> None"
      then show ?thesis by simp
    next
      assume "\<exists>q\<in>set imports2. Incomplete (mem st q)"
      then obtain q where "q \<in> set imports2" "Incomplete (mem st q)" by blast
      then have "q \<in> set imports2" "Incomplete (mem ?st' q)" using inc [of q] by simp_all
      then show ?thesis by blast
    qed
  qed
  show ?thesis unfolding loading_def using 1 2 3 4 5 p x(1) by simp
qed

lemma loading_call:
  assumes l: "loading st0 p st imps" and c: "loaded st p1 st1"
  shows "loading st0 p st1 imps"
proof -
  have inv: "loader_inv st" and e0: "ext st0 st" and p: "fresh st0 \<le> p" "p < fresh st"
    and none: "imports' (mem st p) = None"
    and rd: "\<And>q. q \<in> set imps \<Longrightarrow> ready (mem st) q"
    and up: "\<And>q. q \<in> set imps \<Longrightarrow> Incomplete (mem st q) \<Longrightarrow> Incomplete (mem st p)"
    and orig: "Incomplete (mem st p) \<Longrightarrow> Error (mem st p) \<noteq> None \<or> (\<exists>q\<in>set imps. Incomplete (mem st q))"
    using l by (simp_all add: loading_def)
  have inv1: "loader_inv st1" and e: "ext st st1" using c by (simp_all add: loaded_def)
  have fr: "fresh st \<le> fresh st1" using e by (simp add: ext_def)
  have E2: "imports' (mem st1 r) = imports' (mem st r) \<and> Incomplete (mem st1 r) = Incomplete (mem st r)"
    if "r < fresh st" "imports' (mem st r) \<noteq> None" for r using e that by (simp add: ext_def)
  have E3: "Incomplete (mem st1 r)" if "r < fresh st" "Incomplete (mem st r)" for r
    using e that by (simp add: ext_def)
  have E4: "Error (mem st1 r) \<noteq> None" if "r < fresh st" "Error (mem st r) \<noteq> None" for r
    using e that by (simp add: ext_def)
  have E5: "imports' (mem st1 r) = None" if "r < fresh st" "imports' (mem st r) = None" for r
    using e that by (simp add: ext_def)
  have E7: "Incomplete (mem st r) \<or> Error (mem st1 r) \<noteq> None" if "r < fresh st" "Incomplete (mem st1 r)" for r
    using e that by (simp add: ext_def)
  have old: "q < fresh st" if "ready (mem st) q" for q
  proof (rule ccontr)
    assume "\<not> q < fresh st"
    then have "mem st q = zero_Package" using loader_inv_fresh(1) [OF inv, of q] by simp
    then show False using that by (simp add: ready_def zero_Package_fields)
  qed
  have 3: "ready (mem st1) q" if "q \<in> set imps" for q
  proof -
    note q = old [OF rd [OF that]]
    show ?thesis using rd [OF that] E2 [OF q] E3 [OF q] E4 [OF q] unfolding ready_def by auto
  qed
  have 4: "Incomplete (mem st1 p)" if "q \<in> set imps" "Incomplete (mem st1 q)" for q
  proof -
    note q = old [OF rd [OF that(1)]]
    have "Incomplete (mem st q)"
      using rd [OF that(1)] E2 [OF q] that(2) unfolding ready_def by auto
    then show ?thesis using up [OF that(1)] E3 [OF p(2)] by blast
  qed
  have 5: "Error (mem st1 p) \<noteq> None \<or> (\<exists>q\<in>set imps. Incomplete (mem st1 q))"
    if "Incomplete (mem st1 p)"
  proof (cases "Error (mem st1 p) \<noteq> None")
    case True
    then show ?thesis by simp
  next
    case False
    then have "Incomplete (mem st p)" using E7 [OF p(2) that] by simp
    moreover have "Error (mem st p) = None"
      using E4 [OF p(2)] False by (cases "Error (mem st p)") simp_all
    ultimately obtain q where q: "q \<in> set imps" "Incomplete (mem st q)" using orig by auto
    then have "Incomplete (mem st1 q)" using E3 [OF old [OF rd [OF q(1)]]] by simp
    then show ?thesis using q(1) by blast
  qed
  have 6: "p < fresh st1" using p(2) fr by simp
  show ?thesis unfolding loading_def
    using inv1 ext_trans [OF e0 e] p(1) 6 E5 [OF p(2) none] 3 4 5 by simp
qed

lemma load_imports_record_fields:
  "imports' (load_imports_record b p stk path p1 s1) = imports' (s1 p)"
  "Package_bp (load_imports_record b p stk path p1 s1) = Package_bp (s1 p)"
  "Incomplete (load_imports_record b p stk path p1 s1) = (Incomplete (s1 p) \<or> Incomplete (s1 p1))"
  "Error (s1 p) \<noteq> None \<Longrightarrow> Error (load_imports_record b p stk path p1 s1) \<noteq> None"
  by (cases "p1 = p"; simp add: load_imports_record_def Let_def)+

lemma load_imports_Cons:
  assumes "path \<noteq> ''C''"
  shows "load_imports L b p stk (path # paths) (st, depmap, imps) =
     (case L path (Dir (Package_bp (mem st p))) stk (ImportPos (Package_bp (mem st p)) path) st of
        None \<Rightarrow> None
      | Some (p1, st1) \<Rightarrow>
          load_imports L b p stk paths
            (st1\<lparr>mem := (mem st1)(p := load_imports_record b p stk path p1 (mem st1))\<rparr>,
             load_imports_deps b p stk path p1 (mem st1) depmap, imps @ [p1]))"
proof (cases "L path (Dir (Package_bp (mem st p))) stk (ImportPos (Package_bp (mem st p)) path) st")
  case None
  then show ?thesis using assms by simp
next
  case (Some r)
  obtain p1 st1 where r: "r = (p1, st1)" by (cases r)
  define c where "c \<longleftrightarrow> local (mem st1 p1) \<and> \<not> local (mem st1 p) \<and> Error (mem st1 p) = None"
  have heap: "(if Incomplete ((if c then (mem st1)(p := y) else mem st1) p1)
        then (if c then (mem st1)(p := y) else mem st1)
               (p := ((if c then (mem st1)(p := y) else mem st1) p)\<lparr>Incomplete := True\<rparr>)
        else (if c then (mem st1)(p := y) else mem st1)) =
      (mem st1)(p := (if Incomplete ((if c then (mem st1)(p := y) else mem st1) p1)
        then ((if c then (mem st1)(p := y) else mem st1) p)\<lparr>Incomplete := True\<rparr>
        else (if c then (mem st1)(p := y) else mem st1) p))" for y :: Package
    by (cases c; cases "Incomplete ((if c then (mem st1)(p := y) else mem st1) p1)") simp_all
  show ?thesis
    using assms Some r
    by (simp add: Let_def load_imports_record_def load_imports_deps_def heap [unfolded c_def]
        split del: if_split cong: if_cong)
qed

lemma uncached_mono:
  assumes "finite K" "ext st st1"
  shows "card (uncached e b ctx K st1) \<le> card (uncached e b ctx K st)"
proof (rule card_mono)
  show "finite (uncached e b ctx K st)" using assms(1) by (simp add: uncached_def)
  have "dom (packageCache st) \<subseteq> dom (packageCache st1)" using assms(2) by (auto simp: ext_def)
  then show "uncached e b ctx K st1 \<subseteq> uncached e b ctx K st" by (auto simp: uncached_def)
qed

lemma uncached_upd: "uncached e b ctx K (st\<lparr>mem := m\<rparr>) = uncached e b ctx K st"
  by (simp add: uncached_def)

lemma uncached_new:
  assumes "finite K" "(path, srcDir) \<in> K" "packageCache st (fullImportPath e b ctx path srcDir) = None"
  shows "card (uncached e b ctx K (loadImport_new e b ctx path srcDir st)) < card (uncached e b ctx K st)"
proof (rule psubset_card_mono)
  let ?k = "fullImportPath e b ctx path srcDir"
  show "finite (uncached e b ctx K st)" using assms(1) by (simp add: uncached_def)
  have "?k \<in> (\<lambda>c. fullImportPath e b ctx (fst c) (snd c)) ` K" using assms(2) by force
  then have 1: "?k \<in> uncached e b ctx K st" using assms(3) by (simp add: uncached_def domIff)
  have 2: "?k \<notin> uncached e b ctx K (loadImport_new e b ctx path srcDir st)"
    by (simp add: uncached_def loadImport_new_fields)
  have 3: "uncached e b ctx K (loadImport_new e b ctx path srcDir st) \<subseteq> uncached e b ctx K st"
    by (auto simp: uncached_def loadImport_new_fields)
  show "uncached e b ctx K (loadImport_new e b ctx path srcDir st) \<subset> uncached e b ctx K st"
    using 1 2 3 by blast
qed

lemma loadImport_pos_eq:
  "loadImport_pos b importPos p st = st\<lparr>mem := (mem st)(p := mem (loadImport_pos b importPos p st) p)\<rparr>"
  by (simp add: loadImport_pos_def split: option.splits list.splits)

lemma loadImport_pos_fields:
  "imports' (mem (loadImport_pos b importPos p st) p) = imports' (mem st p)"
  "Incomplete (mem (loadImport_pos b importPos p st) p) = Incomplete (mem st p)"
  "Package_bp (mem (loadImport_pos b importPos p st) p) = Package_bp (mem st p)"
  "Error (mem st p) \<noteq> None \<Longrightarrow> Error (mem (loadImport_pos b importPos p st) p) \<noteq> None"
  by (simp_all add: loadImport_pos_def split: option.splits list.splits)

lemma loadImport_pos_loaded:
  assumes inv: "loader_inv st3" and e: "ext st st3" and p: "fresh st \<le> p" "p < fresh st3"
    and rd: "ready (mem st3) p"
  shows "loaded st p (loadImport_pos b importPos p st3)"
proof -
  let ?x = "mem (loadImport_pos b importPos p st3) p"
  note f = loadImport_pos_fields [where b = b and importPos = importPos and p = p and st = st3]
  have 1: "loader_inv (st3\<lparr>mem := (mem st3)(p := ?x)\<rparr>)"
    using inv p(2) by (rule loader_inv_touch) (use f in simp_all)
  have 2: "ext st (st3\<lparr>mem := (mem st3)(p := ?x)\<rparr>)" using e p(1) by (rule ext_upd_new)
  have 3: "ready ((mem st3)(p := ?x)) p" using rd f by (auto simp: ready_def)
  have "loaded st p (st3\<lparr>mem := (mem st3)(p := ?x)\<rparr>)"
    unfolding loaded_def using 1 2 3 p(2) by simp
  then show ?thesis using loadImport_pos_eq [of b importPos p st3] by simp
qed

text \<open>What each piece of the loader does to the flag \<open>local\<close> and to the kind of the Error.\<close>

lemma reusePackage_origin:
  "local (reusePackage p stk s p) = local (s p)"
  "Error (reusePackage p stk s p) \<noteq> None \<Longrightarrow> Error (s p) \<noteq> None \<or> imports' (s p) = None"
  "cycle_Error (reusePackage p stk s p) \<Longrightarrow> cycle_Error (s p) \<or> (imports' (s p) = None \<and> Error (s p) = None)"
  "plain_Error (reusePackage p stk s p) \<Longrightarrow> plain_Error (s p)"
  by (auto simp: reusePackage_def Let_def cycle_Error_def plain_Error_def split: option.splits if_splits)

lemma load_head_origin:
  "local (load_head e b ctx bp p) = local p"
  "cycle_Error (load_head e b ctx bp p) = cycle_Error p"
  "plain_Error (load_head e b ctx bp p) = plain_Error p"
  by (simp_all add: load_head_def Let_def cycle_Error_def plain_Error_def)

lemma load_failed_origin:
  "local (load_failed e b ctx stk bp er p) = local p"
  "\<not> cycle_Error (load_failed e b ctx stk bp er p)"
  by (simp_all add: load_failed_def cycle_Error_def)

lemma load_tail_origin:
  "local (load_tail b ctx stk p depmap imps s2) = local (s2 p)"
  "Error (load_tail b ctx stk p depmap imps s2) \<noteq> None \<Longrightarrow>
     Error (s2 p) \<noteq> None \<or> CFiles (Package_bp (s2 p)) \<noteq> []"
  "cycle_Error (load_tail b ctx stk p depmap imps s2) \<Longrightarrow> cycle_Error (s2 p)"
  "plain_Error (load_tail b ctx stk p depmap imps s2) \<Longrightarrow>
     plain_Error (s2 p) \<or> CFiles (Package_bp (s2 p)) \<noteq> []"
  by (auto simp: load_tail_def Let_def cycle_Error_def plain_Error_def split: if_splits)

lemma load_imports_record_origin:
  "local (load_imports_record b p stk path p1 s1) = local (s1 p)"
  "Error (load_imports_record b p stk path p1 s1) \<noteq> None \<Longrightarrow>
     Error (s1 p) \<noteq> None \<or> (local (s1 p1) \<and> \<not> local (s1 p))"
  "cycle_Error (load_imports_record b p stk path p1 s1) \<Longrightarrow> cycle_Error (s1 p)"
  "plain_Error (load_imports_record b p stk path p1 s1) \<Longrightarrow>
     plain_Error (s1 p) \<or> (local (s1 p1) \<and> \<not> local (s1 p))"
  by (cases "p1 = p"; auto simp: load_imports_record_def Let_def cycle_Error_def plain_Error_def split: if_splits)+

lemma loadImport_pos_origin:
  "local (mem (loadImport_pos b importPos p st) p) = local (mem st p)"
  "Error (mem (loadImport_pos b importPos p st) p) \<noteq> None \<Longrightarrow> Error (mem st p) \<noteq> None"
  "cycle_Error (mem (loadImport_pos b importPos p st) p) \<Longrightarrow> cycle_Error (mem st p)"
  "plain_Error (mem (loadImport_pos b importPos p st) p) \<Longrightarrow> plain_Error (mem st p)"
  by (auto simp: loadImport_pos_def cycle_Error_def plain_Error_def split: option.splits list.splits)

lemma node_ok_cong:
  assumes "packageCache st' = packageCache st" "imports' (mem st' a) = imports' (mem st a)"
    "Incomplete (mem st' a) = Incomplete (mem st a)" "(Error (mem st' a) \<noteq> None) = (Error (mem st a) \<noteq> None)"
  shows "node_ok e b ctx K st' k a = node_ok e b ctx K st k a"
  unfolding node_ok_def assms by (rule refl)

lemma node_ok_mono:
  assumes ok: "node_ok e b ctx K st k a"
    and cache: "\<And>k q. packageCache st k = Some q \<Longrightarrow> packageCache st' k = Some q"
    and f: "imports' (mem st' a) = imports' (mem st a)"
      "Incomplete (mem st' a) = Incomplete (mem st a)" "(Error (mem st' a) \<noteq> None) = (Error (mem st a) \<noteq> None)"
  shows "node_ok e b ctx K st' k a"
  unfolding node_ok_def
proof (intro ballI impI)
  fix c assume c: "c \<in> K" "call_key e b ctx c = k"
  show "if call_fails e b ctx c
        then imports' (mem st' a) = None \<and> Incomplete (mem st' a) \<and> Error (mem st' a) \<noteq> None
        else \<exists>ps. imports' (mem st' a) = Some ps \<and>
               list_all2 (\<lambda>k' q. packageCache st' k' = Some q)
                 (map (call_key e b ctx) (loadImport_calls e b ctx c)) ps"
  proof (cases "call_fails e b ctx c")
    case True
    then show ?thesis using ok c f by (simp add: node_ok_def)
  next
    case False
    have "\<forall>c\<in>K. call_key e b ctx c = k \<longrightarrow> (if call_fails e b ctx c
         then imports' (mem st a) = None \<and> Incomplete (mem st a) \<and> Error (mem st a) \<noteq> None
         else \<exists>ps. imports' (mem st a) = Some ps \<and>
                list_all2 (\<lambda>k' q. packageCache st k' = Some q)
                  (map (call_key e b ctx) (loadImport_calls e b ctx c)) ps)"
      using ok unfolding node_ok_def .
    then have "\<exists>ps. imports' (mem st a) = Some ps \<and>
        list_all2 (\<lambda>k' q. packageCache st k' = Some q) (map (call_key e b ctx) (loadImport_calls e b ctx c)) ps"
      using c False by (metis (no_types, lifting))
    then obtain ps where ps: "imports' (mem st a) = Some ps"
      "list_all2 (\<lambda>k' q. packageCache st k' = Some q) (map (call_key e b ctx) (loadImport_calls e b ctx c)) ps"
      by blast
    have "list_all2 (\<lambda>k' q. packageCache st' k' = Some q) (map (call_key e b ctx) (loadImport_calls e b ctx c)) ps"
      using ps(2) by (rule list_all2_mono) (rule cache)
    then show ?thesis using False ps(1) f(1) by simp
  qed
qed

lemma linkedD:
  assumes "linked e b ctx K anc st"
  shows "packageCache st k = Some a \<Longrightarrow> packageCache st k' = Some a \<Longrightarrow> k = k'"
    and "packageCache st k = Some a \<Longrightarrow> k \<notin> anc \<Longrightarrow> node_ok e b ctx K st k a"
    and "packageCache st k = Some a \<Longrightarrow> k \<notin> anc \<Longrightarrow> Incomplete (mem st a) \<Longrightarrow>
        \<exists>k'. (k, k') \<in> (import_graph e b ctx K)\<^sup>* \<and> blamed e b ctx K k'"
    and "packageCache st k = Some a \<Longrightarrow> plain_Error (mem st a) \<Longrightarrow>
        failing e b ctx K k \<or> may_err e b ctx K k"
    and "packageCache st k = Some a \<Longrightarrow> cycle_Error (mem st a) \<Longrightarrow> on_cycle e b ctx K k"
    and "packageCache st k = Some a \<Longrightarrow> local (mem st a) \<Longrightarrow>
        \<exists>c\<in>K. call_key e b ctx c = k \<and> build_IsLocalImport b (fst c)"
  using assms unfolding linked_def by blast+

lemma linkedI:
  assumes "\<And>k k' a. packageCache st k = Some a \<Longrightarrow> packageCache st k' = Some a \<Longrightarrow> k = k'"
    and "\<And>k a. packageCache st k = Some a \<Longrightarrow> k \<notin> anc \<Longrightarrow> node_ok e b ctx K st k a"
    and "\<And>k a. packageCache st k = Some a \<Longrightarrow> k \<notin> anc \<Longrightarrow> Incomplete (mem st a) \<Longrightarrow>
        \<exists>k'. (k, k') \<in> (import_graph e b ctx K)\<^sup>* \<and> blamed e b ctx K k'"
    and "\<And>k a. packageCache st k = Some a \<Longrightarrow> plain_Error (mem st a) \<Longrightarrow>
        failing e b ctx K k \<or> may_err e b ctx K k"
    and "\<And>k a. packageCache st k = Some a \<Longrightarrow> cycle_Error (mem st a) \<Longrightarrow> on_cycle e b ctx K k"
    and "\<And>k a. packageCache st k = Some a \<Longrightarrow> local (mem st a) \<Longrightarrow>
        \<exists>c\<in>K. call_key e b ctx c = k \<and> build_IsLocalImport b (fst c)"
  shows "linked e b ctx K anc st"
  unfolding linked_def using assms by blast

lemma linked_quiet:
  assumes l: "linked e b ctx K anc st"
    and x: "imports' x = imports' (mem st p)" "Incomplete x = Incomplete (mem st p)"
      "(Error x \<noteq> None) = (Error (mem st p) \<noteq> None)"
      "cycle_Error x \<Longrightarrow> cycle_Error (mem st p)" "local x = local (mem st p)"
      "plain_Error x \<Longrightarrow> plain_Error (mem st p)"
  shows "linked e b ctx K anc (st\<lparr>mem := (mem st)(p := x)\<rparr>)"
proof (rule linkedI)
  let ?st' = "st\<lparr>mem := (mem st)(p := x)\<rparr>"
  note d = linkedD [OF l]
  have f: "imports' (mem ?st' a) = imports' (mem st a)" "Incomplete (mem ?st' a) = Incomplete (mem st a)"
    "(Error (mem ?st' a) \<noteq> None) = (Error (mem st a) \<noteq> None)" "local (mem ?st' a) = local (mem st a)" for a
    using x by (cases "a = p"; simp)+
  have cy: "cycle_Error (mem ?st' a) \<Longrightarrow> cycle_Error (mem st a)" for a
    using x(4) by (cases "a = p") simp_all
  have pl: "plain_Error (mem ?st' a) \<Longrightarrow> plain_Error (mem st a)" for a
    using x(6) by (cases "a = p") simp_all
  fix k a assume c: "packageCache ?st' k = Some a"
  then have c': "packageCache st k = Some a" by simp
  show "k \<notin> anc \<Longrightarrow> node_ok e b ctx K ?st' k a"
    using d(2) [OF c'] node_ok_cong [of ?st' st a e b ctx K k] f by simp
  show "k \<notin> anc \<Longrightarrow> Incomplete (mem ?st' a) \<Longrightarrow>
      \<exists>k'. (k, k') \<in> (import_graph e b ctx K)\<^sup>* \<and> blamed e b ctx K k'"
    using d(3) [OF c'] f(2) by simp
  show "plain_Error (mem ?st' a) \<Longrightarrow> failing e b ctx K k \<or> may_err e b ctx K k"
    using d(4) [OF c'] pl by blast
  show "cycle_Error (mem ?st' a) \<Longrightarrow> on_cycle e b ctx K k"
    using d(5) [OF c'] cy by blast
  show "local (mem ?st' a) \<Longrightarrow> \<exists>c\<in>K. call_key e b ctx c = k \<and> build_IsLocalImport b (fst c)"
    using d(6) [OF c'] f(4) by simp
  show "packageCache ?st' k' = Some a \<Longrightarrow> k = k'" for k'
    using d(1) [OF c', of k'] by simp
qed

lemma linked_running:
  assumes l: "linked e b ctx K anc st" and c: "packageCache st kp = Some p" and kp: "kp \<in> anc"
    and er: "plain_Error x \<Longrightarrow> plain_Error (mem st p) \<or> failing e b ctx K kp \<or> may_err e b ctx K kp"
    and cy: "cycle_Error x \<Longrightarrow> cycle_Error (mem st p) \<or> on_cycle e b ctx K kp"
    and lo: "local x \<Longrightarrow> local (mem st p)"
  shows "linked e b ctx K anc (st\<lparr>mem := (mem st)(p := x)\<rparr>)"
proof (rule linkedI)
  let ?st' = "st\<lparr>mem := (mem st)(p := x)\<rparr>"
  note d = linkedD [OF l]
  fix k a assume "packageCache ?st' k = Some a"
  then have c': "packageCache st k = Some a" by simp
  have same: "k = kp" if "a = p" using that d(1) [OF c', of kp] c by simp
  have other: "mem ?st' a = mem st a" if "k \<notin> anc" using that same kp by auto
  show "k \<notin> anc \<Longrightarrow> node_ok e b ctx K ?st' k a"
    using d(2) [OF c'] node_ok_cong [of ?st' st a e b ctx K k] other by simp
  show "k \<notin> anc \<Longrightarrow> Incomplete (mem ?st' a) \<Longrightarrow>
      \<exists>k'. (k, k') \<in> (import_graph e b ctx K)\<^sup>* \<and> blamed e b ctx K k'"
    using d(3) [OF c'] other by simp
  show "failing e b ctx K k \<or> may_err e b ctx K k" if "plain_Error (mem ?st' a)"
  proof (cases "a = p")
    case True
    then show ?thesis using that er d(4) [OF c'] same by auto
  next
    case False
    then show ?thesis using that d(4) [OF c'] by simp
  qed
  show "on_cycle e b ctx K k" if "cycle_Error (mem ?st' a)"
  proof (cases "a = p")
    case True
    then show ?thesis using that cy d(5) [OF c'] same by auto
  next
    case False
    then show ?thesis using that d(5) [OF c'] by simp
  qed
  show "\<exists>c\<in>K. call_key e b ctx c = k \<and> build_IsLocalImport b (fst c)" if "local (mem ?st' a)"
  proof (cases "a = p")
    case True
    then show ?thesis using that lo d(6) [OF c'] by auto
  next
    case False
    then show ?thesis using that d(6) [OF c'] by simp
  qed
  show "packageCache ?st' k' = Some a \<Longrightarrow> k = k'" for k'
    using d(1) [OF c', of k'] by simp
qed

lemma linked_done:
  assumes l: "linked e b ctx K (insert kp anc) st" and c: "packageCache st kp = Some p"
    and ok: "node_ok e b ctx K st kp p"
    and inc: "Incomplete (mem st p) \<Longrightarrow> \<exists>k'. (kp, k') \<in> (import_graph e b ctx K)\<^sup>* \<and> blamed e b ctx K k'"
  shows "linked e b ctx K anc st"
proof (rule linkedI)
  note d = linkedD [OF l]
  fix k a assume c': "packageCache st k = Some a"
  have same: "a = p" if "k = kp" using that c c' by simp
  show "k \<notin> anc \<Longrightarrow> node_ok e b ctx K st k a"
    using d(2) [OF c'] ok same by (cases "k = kp") simp_all
  show "k \<notin> anc \<Longrightarrow> Incomplete (mem st a) \<Longrightarrow>
      \<exists>k'. (k, k') \<in> (import_graph e b ctx K)\<^sup>* \<and> blamed e b ctx K k'"
    using d(3) [OF c'] inc same by (cases "k = kp") simp_all
  show "plain_Error (mem st a) \<Longrightarrow> failing e b ctx K k \<or> may_err e b ctx K k" by (rule d(4) [OF c'])
  show "cycle_Error (mem st a) \<Longrightarrow> on_cycle e b ctx K k" by (rule d(5) [OF c'])
  show "local (mem st a) \<Longrightarrow> \<exists>c\<in>K. call_key e b ctx c = k \<and> build_IsLocalImport b (fst c)"
    by (rule d(6) [OF c'])
  show "packageCache st k' = Some a \<Longrightarrow> k = k'" for k' by (rule d(1) [OF c'])
qed

lemma loadImport_new_local:
  "local (mem (loadImport_new e b ctx path srcDir st) (fresh st)) = build_IsLocalImport b path"
  by (simp add: loadImport_new_def)

lemma linked_new:
  assumes l: "linked e b ctx K anc st" and inv: "loader_inv st" and c: "(path, srcDir) \<in> K"
    and none: "packageCache st (call_key e b ctx (path, srcDir)) = None"
  shows "linked e b ctx K (insert (call_key e b ctx (path, srcDir)) anc) (loadImport_new e b ctx path srcDir st)"
proof (rule linkedI)
  let ?st' = "loadImport_new e b ctx path srcDir st"
  let ?kp = "call_key e b ctx (path, srcDir)"
  note d = linkedD [OF l]
  note n = loadImport_new_fields [where e = e and b = b and ctx = ctx and path = path and srcDir = srcDir and st = st]
  have key: "fullImportPath e b ctx path srcDir = ?kp" by (simp add: call_key_def)
  have cache: "packageCache ?st' = (packageCache st)(?kp \<mapsto> fresh st)" using n(2) key by simp
  fix k a assume c': "packageCache ?st' k = Some a"
  have old: "packageCache st k = Some a \<and> a \<noteq> fresh st \<and> mem ?st' a = mem st a" if "k \<noteq> ?kp"
  proof -
    have 1: "packageCache st k = Some a" using c' that cache by simp
    then have "a < fresh st" using loader_inv_fresh(2) [OF inv] by blast
    then show ?thesis using 1 n(3) [of a] by simp
  qed
  have new: "a = fresh st" if "k = ?kp" using c' that cache by simp
  show "node_ok e b ctx K ?st' k a" if "k \<notin> insert ?kp anc"
  proof -
    have k: "k \<noteq> ?kp" "k \<notin> anc" using that by simp_all
    have 1: "packageCache st k = Some a" "mem ?st' a = mem st a" using old [OF k(1)] by simp_all
    have g: "\<And>k q. packageCache st k = Some q \<Longrightarrow> packageCache ?st' k = Some q"
      using none cache by auto
    show ?thesis using d(2) [OF 1(1) k(2)] g by (rule node_ok_mono) (simp_all add: 1(2))
  qed
  show "\<exists>k'. (k, k') \<in> (import_graph e b ctx K)\<^sup>* \<and> blamed e b ctx K k'"
    if "k \<notin> insert ?kp anc" "Incomplete (mem ?st' a)"
  proof -
    have k: "k \<noteq> ?kp" "k \<notin> anc" using that by simp_all
    show ?thesis using d(3) [of k a] old [OF k(1)] k(2) that(2) by simp
  qed
  show "failing e b ctx K k \<or> may_err e b ctx K k" if "plain_Error (mem ?st' a)"
  proof (cases "k = ?kp")
    case True
    then show ?thesis using that new n(6) by (simp add: plain_Error_def)
  next
    case False
    then show ?thesis using that d(4) [of k a] old by simp
  qed
  show "on_cycle e b ctx K k" if "cycle_Error (mem ?st' a)"
  proof (cases "k = ?kp")
    case True
    then show ?thesis using that new n(6) by (simp add: cycle_Error_def)
  next
    case False
    then show ?thesis using that d(5) [of k a] old by simp
  qed
  show "\<exists>c\<in>K. call_key e b ctx c = k \<and> build_IsLocalImport b (fst c)" if "local (mem ?st' a)"
  proof (cases "k = ?kp")
    case True
    then have "build_IsLocalImport b path" using that new loadImport_new_local [of e b ctx path srcDir st] by simp
    then show ?thesis using c True by force
  next
    case False
    then show ?thesis using that d(6) [of k a] old by simp
  qed
  show "k = k'" if "packageCache ?st' k' = Some a" for k'
  proof (cases "k = ?kp"; cases "k' = ?kp")
    assume "k = ?kp" "k' \<noteq> ?kp"
    then have "a = fresh st" "packageCache st k' = Some a" using new that cache by simp_all
    then show ?thesis using loader_inv_fresh(2) [OF inv, of k' a] by simp
  next
    assume "k \<noteq> ?kp" "k' = ?kp"
    then have "a = fresh st" "packageCache st k = Some a" using that c' cache by simp_all
    then show ?thesis using loader_inv_fresh(2) [OF inv, of k a] by simp
  next
    assume "k \<noteq> ?kp" "k' \<noteq> ?kp"
    then show ?thesis using d(1) [of k a k'] c' that cache by simp
  qed simp
qed

lemma loading_step:
  assumes l: "loading st0 p st imps" and ld: "loaded st p1 st1"
  shows "loading st0 p (st1\<lparr>mem := (mem st1)(p := load_imports_record b p stk path p1 (mem st1))\<rparr>) (imps @ [p1])"
proof -
  have l1: "loading st0 p st1 imps" using l ld by (rule loading_call)
  have rd1: "ready (mem st1) p1" using ld by (simp add: loaded_def)
  have none1: "imports' (mem st1 p) = None"
    and rd: "\<And>q. q \<in> set imps \<Longrightarrow> ready (mem st1) q"
    and up: "\<And>q. q \<in> set imps \<Longrightarrow> Incomplete (mem st1 q) \<Longrightarrow> Incomplete (mem st1 p)"
    and orig: "Incomplete (mem st1 p) \<Longrightarrow> Error (mem st1 p) \<noteq> None \<or> (\<exists>q\<in>set imps. Incomplete (mem st1 q))"
    using l1 by (simp_all add: loading_def)
  define x where "x = load_imports_record b p stk path p1 (mem st1)"
  note f = load_imports_record_fields [where b = b and p = p and stk = stk and path = path and ?p1.0 = p1
      and ?s1.0 = "mem st1", folded x_def]
  show ?thesis
    unfolding x_def [symmetric] using l1
  proof (rule loading_upd)
    show "imports' x = None" using f(1) none1 by simp
    show "Incomplete (mem st1 p) \<Longrightarrow> Incomplete x" using f(3) by simp
    show "Error (mem st1 p) \<noteq> None \<Longrightarrow> Error x \<noteq> None" by (rule f(4))
    show "ready (mem st1) q" if "q \<in> set (imps @ [p1])" for q using that rd rd1 by auto
    show "Incomplete x" if "q \<in> set (imps @ [p1])" "Incomplete (mem st1 q)" for q
      using that up f(3) by auto
    show "Error x \<noteq> None \<or> (\<exists>q\<in>set (imps @ [p1]). Incomplete (mem st1 q))" if "Incomplete x"
    proof (cases "Incomplete (mem st1 p1)")
      case True
      then show ?thesis by simp
    next
      case False
      then have "Incomplete (mem st1 p)" using that f(3) by simp
      then have "Error (mem st1 p) \<noteq> None \<or> (\<exists>q\<in>set imps. Incomplete (mem st1 q))" by (rule orig)
      then show ?thesis using f(4) by auto
    qed
  qed
qed

lemma node_okD:
  assumes "node_ok e b ctx K st k a" "c \<in> K" "call_key e b ctx c = k"
  shows "call_fails e b ctx c \<Longrightarrow> imports' (mem st a) = None \<and> Incomplete (mem st a) \<and> Error (mem st a) \<noteq> None"
    and "\<not> call_fails e b ctx c \<Longrightarrow> \<exists>ps. imports' (mem st a) = Some ps \<and>
          list_all2 (\<lambda>k' q. packageCache st k' = Some q) (map (call_key e b ctx) (loadImport_calls e b ctx c)) ps"
proof -
  have "\<forall>c\<in>K. call_key e b ctx c = k \<longrightarrow> (if call_fails e b ctx c
       then imports' (mem st a) = None \<and> Incomplete (mem st a) \<and> Error (mem st a) \<noteq> None
       else \<exists>ps. imports' (mem st a) = Some ps \<and>
              list_all2 (\<lambda>k' q. packageCache st k' = Some q)
                (map (call_key e b ctx) (loadImport_calls e b ctx c)) ps)"
    using assms(1) unfolding node_ok_def .
  then have *: "if call_fails e b ctx c
       then imports' (mem st a) = None \<and> Incomplete (mem st a) \<and> Error (mem st a) \<noteq> None
       else \<exists>ps. imports' (mem st a) = Some ps \<and>
              list_all2 (\<lambda>k' q. packageCache st k' = Some q)
                (map (call_key e b ctx) (loadImport_calls e b ctx c)) ps"
    using assms(2,3) by blast
  show "call_fails e b ctx c \<Longrightarrow> imports' (mem st a) = None \<and> Incomplete (mem st a) \<and> Error (mem st a) \<noteq> None"
    using * by simp
  show "\<not> call_fails e b ctx c \<Longrightarrow> \<exists>ps. imports' (mem st a) = Some ps \<and>
          list_all2 (\<lambda>k' q. packageCache st k' = Some q) (map (call_key e b ctx) (loadImport_calls e b ctx c)) ps"
    using * by simp
qed

lemma reusePackage_resolved:
  assumes inv: "loader_inv st" and l: "linked e b ctx K anc st" and cK: "c \<in> K"
    and hit: "packageCache st (call_key e b ctx c) = Some p"
    and reach: "\<And>k. k \<in> anc \<Longrightarrow> (k, call_key e b ctx c) \<in> (import_graph e b ctx K)\<^sup>+"
  shows "resolved e b ctx K anc c st p (st\<lparr>mem := reusePackage p stk (mem st)\<rparr>)"
proof -
  let ?kp = "call_key e b ctx c"
  let ?x = "reusePackage p stk (mem st) p"
  let ?st' = "st\<lparr>mem := (mem st)(p := ?x)\<rparr>"
  note f = reusePackage_same [where p = p and stk = stk and s = "mem st"]
  note g = reusePackage_origin [where p = p and stk = stk and s = "mem st"]
  note d = linkedD [OF l]
  have eq: "st\<lparr>mem := reusePackage p stk (mem st)\<rparr> = ?st'"
    using reusePackage_upd [of p stk "mem st"] by simp
  have ld: "loaded st p ?st'" using reusePackage_loaded [OF inv hit, of stk] unfolding eq .
  have lk: "linked e b ctx K anc ?st' \<and>
      (\<forall>k r. packageCache st k = Some r \<longrightarrow> Incomplete (mem ?st' r) \<longrightarrow>
         Incomplete (mem st r) \<or> on_cycle e b ctx K k)"
  proof (cases "?kp \<in> anc")
    case True
    then have cyc: "on_cycle e b ctx K ?kp" using reach by (simp add: on_cycle_def)
    have 1: "linked e b ctx K anc ?st'"
      using l hit True
    proof (rule linked_running)
      show "plain_Error ?x \<Longrightarrow> plain_Error (mem st p) \<or> failing e b ctx K ?kp \<or> may_err e b ctx K ?kp"
        using g(4) by simp
      show "cycle_Error ?x \<Longrightarrow> cycle_Error (mem st p) \<or> on_cycle e b ctx K ?kp" using cyc by simp
      show "local ?x \<Longrightarrow> local (mem st p)" using g(1) by simp
    qed
    have 2: "Incomplete (mem st r) \<or> on_cycle e b ctx K k"
      if "packageCache st k = Some r" "Incomplete (mem ?st' r)" for k r
    proof (cases "r = p")
      case True
      then have "k = ?kp" using d(1) [OF that(1), of ?kp] hit by simp
      then show ?thesis using cyc by simp
    next
      case False
      then show ?thesis using that(2) by simp
    qed
    show ?thesis using 1 2 by blast
  next
    case False
    note ok = node_okD [OF d(2) [OF hit False] cK refl]
    have same: "Incomplete ?x = Incomplete (mem st p)" "(Error ?x \<noteq> None) = (Error (mem st p) \<noteq> None)"
      "cycle_Error ?x \<Longrightarrow> cycle_Error (mem st p)"
    proof -
      have "(imports' (mem st p) = None \<and> Incomplete (mem st p) \<and> Error (mem st p) \<noteq> None) \<or>
          imports' (mem st p) \<noteq> None"
        using ok by (cases "call_fails e b ctx c") auto
      then have *: "imports' (mem st p) = None \<Longrightarrow> Incomplete (mem st p) \<and> Error (mem st p) \<noteq> None" by blast
      show "Incomplete ?x = Incomplete (mem st p)" using f(3) * by blast
      show "(Error ?x \<noteq> None) = (Error (mem st p) \<noteq> None)" using f(4) g(2) * by blast
      show "cycle_Error ?x \<Longrightarrow> cycle_Error (mem st p)" using g(3) * by blast
    qed
    have 1: "linked e b ctx K anc ?st'"
      using l by (rule linked_quiet) (use f(1) same g(1,4) in simp_all)
    have 2: "Incomplete (mem st r)" if "Incomplete (mem ?st' r)" for r
      using that same(1) by (cases "r = p") simp_all
    show ?thesis using 1 2 by blast
  qed
  have lo: "local (mem ?st' r) = local (mem st r)" for r using g(1) by (cases "r = p") simp_all
  show ?thesis unfolding eq resolved_def using ld lk hit lo by simp
qed

lemma loadImport_pos_resolved:
  assumes r: "resolved e b ctx K anc c st p st3" and inv: "loader_inv st" and p: "fresh st \<le> p"
  shows "resolved e b ctx K anc c st p (loadImport_pos b importPos p st3)"
proof -
  let ?x = "mem (loadImport_pos b importPos p st3) p"
  let ?st' = "st3\<lparr>mem := (mem st3)(p := ?x)\<rparr>"
  note f = loadImport_pos_fields [where b = b and importPos = importPos and p = p and st = st3]
  note g = loadImport_pos_origin [where b = b and importPos = importPos and p = p and st = st3]
  have eq: "loadImport_pos b importPos p st3 = ?st'" by (rule loadImport_pos_eq)
  have ld: "loaded st p st3" and lk: "linked e b ctx K anc st3"
    and c: "packageCache st3 (call_key e b ctx c) = Some p"
    and x1: "\<And>k r. packageCache st k = Some r \<Longrightarrow> Incomplete (mem st3 r) \<Longrightarrow>
        Incomplete (mem st r) \<or> on_cycle e b ctx K k"
    and x3: "\<And>r. r < fresh st \<Longrightarrow> local (mem st3 r) = local (mem st r)"
    using r unfolding resolved_def by blast+
  have 1: "loaded st p (loadImport_pos b importPos p st3)"
    using ld p unfolding loaded_def by (intro loadImport_pos_loaded [unfolded loaded_def]) simp_all
  have 2: "linked e b ctx K anc ?st'"
    using lk by (rule linked_quiet) (use f g in auto)
  have old: "r \<noteq> p" if "r < fresh st" for r using that p by simp
  have 3: "Incomplete (mem st r) \<or> on_cycle e b ctx K k"
    if "packageCache st k = Some r" "Incomplete (mem ?st' r)" for k r
    using x1 [OF that(1)] that(2) old [OF loader_inv_fresh(2) [OF inv that(1)]] by simp
  have 4: "local (mem ?st' r) = local (mem st r)" if "r < fresh st" for r
    using x3 [OF that] old [OF that] by simp
  show ?thesis
    unfolding resolved_def using 1 2 [folded eq] c 3 [folded eq] 4 [folded eq]
    by (simp add: eq [symmetric] loadImport_pos_def split: option.splits list.splits)
qed

lemma resolvingD:
  assumes "resolving e b ctx K anc c st0 p st seen imps"
  shows "loading st0 p st imps"
    and "linked e b ctx K (insert (call_key e b ctx c) anc) st"
    and "packageCache st0 (call_key e b ctx c) = None"
    and "packageCache st (call_key e b ctx c) = Some p"
    and "Package_bp (mem st p) = loadImport_bp e b ctx (fst c) (snd c)"
    and "local (mem st p) = build_IsLocalImport b (fst c)"
    and "list_all2 (\<lambda>path q. packageCache st
         (call_key e b ctx (path, Dir (loadImport_bp e b ctx (fst c) (snd c)))) = Some q) seen imps"
    and "Incomplete (mem st p) \<Longrightarrow>
        on_cycle e b ctx K (call_key e b ctx c) \<or> (\<exists>q\<in>set imps. Incomplete (mem st q))"
    and "\<And>k r. packageCache st0 k = Some r \<Longrightarrow> Incomplete (mem st r) \<Longrightarrow>
        Incomplete (mem st0 r) \<or> on_cycle e b ctx K k"
    and "\<And>r. r < fresh st0 \<Longrightarrow> local (mem st r) = local (mem st0 r)"
  using assms unfolding resolving_def by blast+

lemma resolvedD:
  assumes "resolved e b ctx K anc c st p1 st1"
  shows "loaded st p1 st1"
    and "linked e b ctx K anc st1"
    and "packageCache st1 (call_key e b ctx c) = Some p1"
    and "\<And>k r. packageCache st k = Some r \<Longrightarrow> Incomplete (mem st1 r) \<Longrightarrow>
        Incomplete (mem st r) \<or> on_cycle e b ctx K k"
    and "\<And>r. r < fresh st \<Longrightarrow> local (mem st1 r) = local (mem st r)"
  using assms unfolding resolved_def by blast+

lemma resolving_step:
  assumes rv: "resolving e b ctx K anc c st0 p st seen imps"
    and rs: "resolved e b ctx K (insert (call_key e b ctx c) anc)
               (path, Dir (loadImport_bp e b ctx (fst c) (snd c))) st p1 st1"
    and cK: "c \<in> K"
    and call: "(path, Dir (loadImport_bp e b ctx (fst c) (snd c))) \<in> set (loadImport_calls e b ctx c)"
  shows "resolving e b ctx K anc c st0 p
      (st1\<lparr>mem := (mem st1)(p := load_imports_record b p stk path p1 (mem st1))\<rparr>) (seen @ [path]) (imps @ [p1])"
proof -
  let ?kp = "call_key e b ctx c"
  let ?dir = "Dir (loadImport_bp e b ctx (fst c) (snd c))"
  let ?A = "insert ?kp anc"
  define x where "x = load_imports_record b p stk path p1 (mem st1)"
  let ?st' = "st1\<lparr>mem := (mem st1)(p := x)\<rparr>"
  note v = resolvingD [OF rv]
  note s = resolvedD [OF rs]
  note f = load_imports_record_fields [where b = b and p = p and stk = stk and path = path and ?p1.0 = p1
      and ?s1.0 = "mem st1", folded x_def]
  note g = load_imports_record_origin [where b = b and p = p and stk = stk and path = path and ?p1.0 = p1
      and ?s1.0 = "mem st1", folded x_def]
  have inv: "loader_inv st" and e0: "ext st0 st" and p: "fresh st0 \<le> p" "p < fresh st"
    using v(1) by (simp_all add: loading_def)
  have e: "ext st st1" using s(1) by (simp add: loaded_def)
  have grow: "packageCache st1 k = Some q" if "packageCache st k = Some q" for k q
    using e that by (simp add: ext_def)
  have grow0: "packageCache st k = Some q" if "packageCache st0 k = Some q" for k q
    using e0 that by (simp add: ext_def)
  have fr0: "fresh st0 \<le> fresh st" using e0 by (simp add: ext_def)
  have bp1: "Package_bp (mem st1 p) = Package_bp (mem st p)" using e p(2) by (simp add: ext_def)
  have lo1: "local (mem st1 p) = build_IsLocalImport b (fst c)" using s(5) [OF p(2)] v(6) by simp
  have cp1: "packageCache st1 ?kp = Some p" using grow [OF v(4)] .
  have 1: "loading st0 p ?st' (imps @ [p1])"
    unfolding x_def using v(1) s(1) by (rule loading_step)
  have 2: "linked e b ctx K ?A ?st'"
    using s(2) cp1
  proof (rule linked_running)
    show "?kp \<in> ?A" by simp
    show "plain_Error x \<Longrightarrow> plain_Error (mem st1 p) \<or> failing e b ctx K ?kp \<or> may_err e b ctx K ?kp"
    proof -
      assume "plain_Error x"
      then have "plain_Error (mem st1 p) \<or> (local (mem st1 p1) \<and> \<not> local (mem st1 p))" by (rule g(4))
      then show ?thesis
      proof
        assume "local (mem st1 p1) \<and> \<not> local (mem st1 p)"
        then have a: "local (mem st1 p1)" and b: "\<not> build_IsLocalImport b (fst c)" using lo1 by simp_all
        obtain c'' where c'': "c'' \<in> K" "call_key e b ctx c'' = call_key e b ctx (path, ?dir)"
          "build_IsLocalImport b (fst c'')"
          using linkedD(6) [OF s(2) s(3) a] by blast
        have "may_err e b ctx K ?kp"
          unfolding may_err_def using cK b call c'' by blast
        then show ?thesis by simp
      qed simp
    qed
    show "cycle_Error x \<Longrightarrow> cycle_Error (mem st1 p) \<or> on_cycle e b ctx K ?kp" using g(3) by simp
    show "local x \<Longrightarrow> local (mem st1 p)" using g(1) by simp
  qed
  have 3: "list_all2 (\<lambda>path q. packageCache ?st' (call_key e b ctx (path, ?dir)) = Some q)
      (seen @ [path]) (imps @ [p1])"
  proof -
    have "list_all2 (\<lambda>path q. packageCache st1 (call_key e b ctx (path, ?dir)) = Some q) seen imps"
      using v(7) by (rule list_all2_mono) (rule grow)
    then show ?thesis using s(3) by (simp add: list_all2_appendI)
  qed
  have up: "Incomplete (mem st r) \<Longrightarrow> Incomplete (mem st1 r)" if "r < fresh st" for r
    using e that by (simp add: ext_def)
  have old: "q < fresh st" if "q \<in> set imps" for q
  proof (rule ccontr)
    assume "\<not> q < fresh st"
    then have "mem st q = zero_Package" using loader_inv_fresh(1) [OF inv, of q] by simp
    moreover have "ready (mem st) q" using v(1) that by (simp add: loading_def)
    ultimately show False by (simp add: ready_def zero_Package_fields)
  qed
  have inc: "Incomplete (mem ?st' r)" if "Incomplete (mem st1 r)" for r
    using that f(3) by (cases "r = p") simp_all
  have 4: "on_cycle e b ctx K ?kp \<or> (\<exists>q\<in>set (imps @ [p1]). Incomplete (mem ?st' q))"
    if "Incomplete (mem ?st' p)"
  proof -
    have "Incomplete (mem st1 p) \<or> Incomplete (mem st1 p1)" using that f(3) by simp
    then show ?thesis
    proof
      assume a: "Incomplete (mem st1 p1)"
      have "Incomplete (mem ?st' p1)" using a by (rule inc)
      moreover have "p1 \<in> set (imps @ [p1])" by simp
      ultimately show ?thesis by blast
    next
      assume "Incomplete (mem st1 p)"
      then have "Incomplete (mem st p) \<or> on_cycle e b ctx K ?kp" using s(4) [OF v(4)] by simp
      then show ?thesis
      proof
        assume "Incomplete (mem st p)"
        then have "on_cycle e b ctx K ?kp \<or> (\<exists>q\<in>set imps. Incomplete (mem st q))" by (rule v(8))
        then show ?thesis
        proof
          assume "\<exists>q\<in>set imps. Incomplete (mem st q)"
          then obtain q where q: "q \<in> set imps" "Incomplete (mem st q)" by blast
          have "Incomplete (mem st1 q)" using up [OF old [OF q(1)] q(2)] .
          then have "Incomplete (mem ?st' q)" by (rule inc)
          moreover have "q \<in> set (imps @ [p1])" using q(1) by simp
          ultimately show ?thesis by blast
        qed simp
      qed simp
    qed
  qed
  have low: "r \<noteq> p" if "r < fresh st0" for r using that p(1) by simp
  have 5: "Incomplete (mem st0 r) \<or> on_cycle e b ctx K k"
    if "packageCache st0 k = Some r" "Incomplete (mem ?st' r)" for k r
  proof -
    have "r \<noteq> p"
    proof
      assume "r = p"
      then have "k = ?kp" using linkedD(1) [OF v(2) grow0 [OF that(1)], of ?kp] v(4) by simp
      then show False using that(1) v(3) by simp
    qed
    then have "Incomplete (mem st1 r)" using that(2) by simp
    then have "Incomplete (mem st r) \<or> on_cycle e b ctx K k" using s(4) [OF grow0 [OF that(1)]] by simp
    then show ?thesis using v(9) [OF that(1)] by blast
  qed
  have 6: "local (mem ?st' r) = local (mem st0 r)" if "r < fresh st0" for r
  proof -
    have "r < fresh st" using that fr0 by simp
    then show ?thesis using s(5) [of r] v(10) [OF that] low [OF that] by simp
  qed
  have 7: "Package_bp (mem ?st' p) = loadImport_bp e b ctx (fst c) (snd c)"
    using f(2) bp1 v(5) by simp
  have 8: "local (mem ?st' p) = build_IsLocalImport b (fst c)" using g(1) lo1 by simp
  have 9: "packageCache ?st' ?kp = Some p" using cp1 by simp
  show ?thesis
    unfolding x_def [symmetric] resolving_def
    using 1 2 v(3) 9 7 8 3 4 5 6 by blast
qed

lemma load_imports_resolved:
  assumes L: "\<And>path stk pos st. loader_inv st \<Longrightarrow> linked e b ctx K (insert (call_key e b ctx c) anc) st \<Longrightarrow>
      (path, dir) \<in> set (loadImport_calls e b ctx c) \<Longrightarrow> card (uncached e b ctx K st) < n \<Longrightarrow>
      \<exists>p1 st1. L path dir stk pos st = Some (p1, st1) \<and>
        resolved e b ctx K (insert (call_key e b ctx c) anc) (path, dir) st p1 st1"
    and fin: "finite K" and cK: "c \<in> K"
    and dir: "dir = Dir (loadImport_bp e b ctx (fst c) (snd c))"
  shows "(\<And>path. path \<in> set paths \<Longrightarrow> path \<noteq> ''C'' \<Longrightarrow> (path, dir) \<in> set (loadImport_calls e b ctx c)) \<Longrightarrow>
    resolving e b ctx K anc c st0 p st seen imps \<Longrightarrow>
    card (uncached e b ctx K st) < n \<Longrightarrow>
    \<exists>st' depmap' imports'. load_imports L b p stk paths (st, depmap, imps) = Some (st', depmap', imports') \<and>
      resolving e b ctx K anc c st0 p st' (seen @ filter (\<lambda>path. path \<noteq> ''C'') paths) imports'"
proof (induction paths arbitrary: st depmap imps seen)
  case Nil
  then show ?case by simp
next
  case (Cons path paths)
  have rest: "\<And>path. path \<in> set paths \<Longrightarrow> path \<noteq> ''C'' \<Longrightarrow> (path, dir) \<in> set (loadImport_calls e b ctx c)"
    using Cons.prems(1) by simp
  show ?case
  proof (cases "path = ''C''")
    case True
    show ?thesis
      using Cons.IH [OF rest Cons.prems(2,3), of depmap] True by simp
  next
    case False
    note rv = Cons.prems(2)
    note v = resolvingD [OF rv]
    have inv: "loader_inv st" and p: "p < fresh st" using v(1) by (simp_all add: loading_def)
    have k: "(path, dir) \<in> set (loadImport_calls e b ctx c)" using Cons.prems(1) False by simp
    obtain p1 st1 where call: "L path dir stk (ImportPos (Package_bp (mem st p)) path) st = Some (p1, st1)"
      and rs: "resolved e b ctx K (insert (call_key e b ctx c) anc) (path, dir) st p1 st1"
      using L [OF inv v(2) k Cons.prems(3)] by blast
    define st' where "st' = st1\<lparr>mem := (mem st1)(p := load_imports_record b p stk path p1 (mem st1))\<rparr>"
    have rv': "resolving e b ctx K anc c st0 p st' (seen @ [path]) (imps @ [p1])"
      unfolding st'_def using rv rs [unfolded dir] cK k [unfolded dir] by (rule resolving_step)
    have e: "ext st st1" using resolvedD(1) [OF rs] by (simp add: loaded_def)
    have "card (uncached e b ctx K st') \<le> card (uncached e b ctx K st)"
      unfolding st'_def uncached_upd using fin e by (rule uncached_mono)
    then have m: "card (uncached e b ctx K st') < n" using Cons.prems(3) by simp
    have step: "load_imports L b p stk (path # paths) (st, depmap, imps) =
        load_imports L b p stk paths (st', load_imports_deps b p stk path p1 (mem st1) depmap, imps @ [p1])"
      using call v(5) dir by (simp add: load_imports_Cons [OF False] st'_def del: load_imports.simps)
    have "seen @ filter (\<lambda>path. path \<noteq> ''C'') (path # paths) =
        (seen @ [path]) @ filter (\<lambda>path. path \<noteq> ''C'') paths"
      using False by simp
    then show ?thesis unfolding step using Cons.IH [OF rest rv' m] by simp
  qed
qed

lemma list_all2_set1:
  assumes "list_all2 P xs ys" "x \<in> set xs"
  shows "\<exists>y\<in>set ys. P x y"
  using assms by (induction rule: list_all2_induct) auto

lemma list_all2_set2:
  assumes "list_all2 P xs ys" "y \<in> set ys"
  shows "\<exists>x\<in>set xs. P x y"
  using assms by (induction rule: list_all2_induct) auto

lemma import_graph_edge:
  assumes "c \<in> K" "c' \<in> set (loadImport_calls e b ctx c)"
  shows "(call_key e b ctx c, call_key e b ctx c') \<in> import_graph e b ctx K"
  unfolding import_graph_def using assms by blast

lemma loadImport_calls_fails:
  "call_fails e b ctx c \<Longrightarrow> loadImport_calls e b ctx c = []"
  by (auto simp: call_fails_def loadImport_calls_def)

lemma loadImport_calls_paths:
  assumes "\<not> call_fails e b ctx c"
  shows "loadImport_calls e b ctx c =
     map (\<lambda>path. (path, Dir (loadImport_bp e b ctx (fst c) (snd c))))
       (filter (\<lambda>path. path \<noteq> ''C'') (load_importPaths (loadImport_head e b ctx (fst c) (snd c))))"
  using assms by (simp add: call_fails_def loadImport_calls_def)

lemma consistent_callsD:
  assumes "consistent_calls e b ctx K" "c \<in> K" "c' \<in> K" "call_key e b ctx c' = call_key e b ctx c"
  shows "call_fails e b ctx c' = call_fails e b ctx c"
    and "map (call_key e b ctx) (loadImport_calls e b ctx c') = map (call_key e b ctx) (loadImport_calls e b ctx c)"
  using assms unfolding consistent_calls_def by blast+

lemma load_resolved:
  assumes L: "\<And>path' stk pos st'. loader_inv st' \<Longrightarrow>
      linked e b ctx K (insert (call_key e b ctx (path, srcDir)) anc) st' \<Longrightarrow>
      (path', Dir (loadImport_bp e b ctx path srcDir)) \<in> set (loadImport_calls e b ctx (path, srcDir)) \<Longrightarrow>
      card (uncached e b ctx K st') < n \<Longrightarrow>
      \<exists>p1 st1. L path' (Dir (loadImport_bp e b ctx path srcDir)) stk pos st' = Some (p1, st1) \<and>
        resolved e b ctx K (insert (call_key e b ctx (path, srcDir)) anc)
          (path', Dir (loadImport_bp e b ctx path srcDir)) st' p1 st1"
    and fin: "finite K" and cons: "consistent_calls e b ctx K" and cK: "(path, srcDir) \<in> K"
    and inv: "loader_inv st" and lk: "linked e b ctx K anc st"
    and none: "packageCache st (call_key e b ctx (path, srcDir)) = None"
    and reach: "\<And>k. k \<in> anc \<Longrightarrow> (k, call_key e b ctx (path, srcDir)) \<in> (import_graph e b ctx K)\<^sup>+"
    and m: "card (uncached e b ctx K (loadImport_new e b ctx path srcDir st)) < n"
  shows "\<exists>st3. load L e b ctx stk (loadImport_bp e b ctx path srcDir) (loadImport_err e b ctx path srcDir)
        (fresh st) (loadImport_new e b ctx path srcDir st) = Some st3 \<and>
      resolved e b ctx K anc (path, srcDir) st (fresh st) st3"
proof -
  let ?c = "(path, srcDir)"
  let ?kp = "call_key e b ctx ?c"
  let ?A = "insert ?kp anc"
  let ?p = "fresh st"
  let ?st = "loadImport_new e b ctx path srcDir st"
  let ?bp = "loadImport_bp e b ctx path srcDir"
  let ?err = "loadImport_err e b ctx path srcDir"
  let ?G = "import_graph e b ctx K"
  note n = loadImport_new_fields [where e = e and b = b and ctx = ctx and path = path and srcDir = srcDir and st = st]
  have key: "fullImportPath e b ctx path srcDir = ?kp" by (simp add: call_key_def)
  have none': "packageCache st (fullImportPath e b ctx path srcDir) = None" using none key by simp
  have l0: "loading st ?p ?st []"
    unfolding loading_def using loader_inv_new [OF inv] ext_new [OF none'] by (simp add: n)
  have lkn: "linked e b ctx K ?A ?st" using lk inv cK none by (rule linked_new)
  have cpn: "packageCache ?st ?kp = Some ?p" using n(2) key by simp
  have old: "r < ?p \<and> mem ?st r = mem st r" if "packageCache st k = Some r" for k r
    using loader_inv_fresh(2) [OF inv that] n(3) [of r] by simp
  have low: "mem ?st r = mem st r" if "r < ?p" for r using that n(3) [of r] by simp
  show ?thesis
  proof (cases ?err)
    case (Some er)
    then have fails: "call_fails e b ctx ?c" by (simp add: call_fails_def)
    let ?x = "load_failed e b ctx stk ?bp er (mem ?st ?p)"
    let ?st3 = "?st\<lparr>mem := (mem ?st)(?p := ?x)\<rparr>"
    note f = load_failed_fields [where e = e and b = b and ctx = ctx and stk = stk and bp = ?bp and er = er
        and p = "mem ?st ?p"]
    note g = load_failed_origin [where e = e and b = b and ctx = ctx and stk = stk and bp = ?bp and er = er
        and p = "mem ?st ?p"]
    have invn: "loader_inv ?st" and en: "ext st ?st" and p: "?p < fresh ?st"
      using l0 by (simp_all add: loading_def)
    have 1: "loader_inv ?st3"
      using invn p
    proof (rule loader_inv_touch)
      show "imports' ?x = imports' (mem ?st ?p)" by (rule f(1))
      show "Incomplete ?x" by (rule f(2))
      show "imports' (mem ?st ?p) \<noteq> None \<Longrightarrow> Incomplete (mem ?st ?p)" using n(4) by simp
      show "Error ?x \<noteq> None" by (rule f(4))
    qed
    have 2: "ext st ?st3" using en by (rule ext_upd_new) simp
    have 3: "ready (mem ?st3) ?p" using f(2,4) by (simp add: ready_def)
    have ld: "loaded st ?p ?st3" unfolding loaded_def using 1 2 3 p by simp
    have fl: "failing e b ctx K ?kp" unfolding failing_def using cK fails by blast
    have bl: "blamed e b ctx K ?kp" unfolding blamed_def using fl by simp
    have lkA: "linked e b ctx K ?A ?st3"
      using lkn cpn
    proof (rule linked_running)
      show "?kp \<in> ?A" by simp
      show "plain_Error ?x \<Longrightarrow> plain_Error (mem ?st ?p) \<or> failing e b ctx K ?kp \<or> may_err e b ctx K ?kp"
        using fl by simp
      show "cycle_Error ?x \<Longrightarrow> cycle_Error (mem ?st ?p) \<or> on_cycle e b ctx K ?kp" using g(2) by simp
      show "local ?x \<Longrightarrow> local (mem ?st ?p)" using g(1) by simp
    qed
    have cp3: "packageCache ?st3 ?kp = Some ?p" using cpn by simp
    have ok: "node_ok e b ctx K ?st3 ?kp ?p"
      unfolding node_ok_def
    proof (intro ballI impI)
      fix c' assume c': "c' \<in> K" "call_key e b ctx c' = ?kp"
      have "call_fails e b ctx c'" using consistent_callsD(1) [OF cons cK c'] fails by simp
      moreover have "imports' (mem ?st3 ?p) = None" using f(1) n(4) by simp
      moreover have "Incomplete (mem ?st3 ?p)" using f(2) by simp
      moreover have "Error (mem ?st3 ?p) \<noteq> None" using f(4) by simp
      ultimately show "if call_fails e b ctx c'
        then imports' (mem ?st3 ?p) = None \<and> Incomplete (mem ?st3 ?p) \<and> Error (mem ?st3 ?p) \<noteq> None
        else \<exists>ps. imports' (mem ?st3 ?p) = Some ps \<and>
               list_all2 (\<lambda>k' q. packageCache ?st3 k' = Some q)
                 (map (call_key e b ctx) (loadImport_calls e b ctx c')) ps"
        by (simp only: if_True simp_thms)
    qed
    have lk3: "linked e b ctx K anc ?st3"
      using lkA cp3 ok
    proof (rule linked_done)
      show "\<exists>k'. (?kp, k') \<in> ?G\<^sup>* \<and> blamed e b ctx K k'" using bl by blast
    qed
    have x1: "Incomplete (mem st r) \<or> on_cycle e b ctx K k"
      if "packageCache st k = Some r" "Incomplete (mem ?st3 r)" for k r
      using old [OF that(1)] that(2) by simp
    have x3: "local (mem ?st3 r) = local (mem st r)" if "r < ?p" for r
      using low [OF that] that by simp
    have "resolved e b ctx K anc ?c st ?p ?st3"
      unfolding resolved_def using ld lk3 cp3 x1 x3 by blast
    then show ?thesis using Some by (simp add: load_eq)
  next
    case None
    then have ok_call: "\<not> call_fails e b ctx ?c" by (simp add: call_fails_def)
    let ?xh = "load_head e b ctx ?bp (mem ?st ?p)"
    let ?sth = "?st\<lparr>mem := (mem ?st)(?p := ?xh)\<rparr>"
    note f = load_head_fields [where e = e and b = b and ctx = ctx and bp = ?bp and p = "mem ?st ?p"]
    note g = load_head_origin [where e = e and b = b and ctx = ctx and bp = ?bp and p = "mem ?st ?p"]
    have lh: "loading st ?p ?sth []"
      using l0 by (rule loading_upd) (use f n(4,5,6) in simp_all)
    have lkh: "linked e b ctx K ?A ?sth"
      using lkn cpn
    proof (rule linked_running)
      show "?kp \<in> ?A" by simp
      show "plain_Error ?xh \<Longrightarrow> plain_Error (mem ?st ?p) \<or> failing e b ctx K ?kp \<or> may_err e b ctx K ?kp"
        using g(3) by simp
      show "cycle_Error ?xh \<Longrightarrow> cycle_Error (mem ?st ?p) \<or> on_cycle e b ctx K ?kp" using g(2) by simp
      show "local ?xh \<Longrightarrow> local (mem ?st ?p)" using g(1) by simp
    qed
    have rvh: "resolving e b ctx K anc ?c st ?p ?sth [] []"
      unfolding resolving_def
    proof (intro conjI allI impI)
      show "loading st ?p ?sth []" by (rule lh)
      show "linked e b ctx K ?A ?sth" by (rule lkh)
      show "packageCache st ?kp = None" by (rule none)
      show "packageCache ?sth ?kp = Some ?p" using cpn by simp
      show "Package_bp (mem ?sth ?p) = loadImport_bp e b ctx (fst ?c) (snd ?c)" using f(3) by simp
      show "local (mem ?sth ?p) = build_IsLocalImport b (fst ?c)"
        using g(1) loadImport_new_local [of e b ctx path srcDir st] by simp
      show "list_all2 (\<lambda>path' q. packageCache ?sth
          (call_key e b ctx (path', Dir (loadImport_bp e b ctx (fst ?c) (snd ?c)))) = Some q) [] []"
        by simp
      show "on_cycle e b ctx K ?kp \<or> (\<exists>q\<in>set []. Incomplete (mem ?sth q))" if "Incomplete (mem ?sth ?p)"
        using that f(2) n(5) by simp
      show "Incomplete (mem st r) \<or> on_cycle e b ctx K k"
        if "packageCache st k = Some r" "Incomplete (mem ?sth r)" for k r
        using old [OF that(1)] that(2) by simp
      show "local (mem ?sth r) = local (mem st r)" if "r < ?p" for r
        using low [OF that] that by simp
    qed
    have head: "?xh = loadImport_head e b ctx path srcDir"
      by (simp add: loadImport_new_def loadImport_head_def)
    have calls: "loadImport_calls e b ctx ?c =
        map (\<lambda>path'. (path', Dir ?bp)) (filter (\<lambda>path'. path' \<noteq> ''C'') (load_importPaths ?xh))"
      using loadImport_calls_paths [OF ok_call] head by simp
    have paths: "(path', Dir ?bp) \<in> set (loadImport_calls e b ctx ?c)"
      if "path' \<in> set (load_importPaths ?xh)" "path' \<noteq> ''C''" for path'
      using that unfolding calls by simp
    have mh: "card (uncached e b ctx K ?sth) < n" using m by (simp add: uncached_upd)
    have dir: "Dir ?bp = Dir (loadImport_bp e b ctx (fst ?c) (snd ?c))" by simp
    obtain st2 depmap imps where
      loop: "load_imports L b ?p stk (load_importPaths ?xh) (?sth, [], []) = Some (st2, depmap, imps)"
      and rv2: "resolving e b ctx K anc ?c st ?p st2
          ([] @ filter (\<lambda>path'. path' \<noteq> ''C'') (load_importPaths ?xh)) imps"
      using load_imports_resolved [where L = L and c = ?c and dir = "Dir ?bp" and paths = "load_importPaths ?xh"
          and st = ?sth and imps = "[]" and seen = "[]" and stk = stk and depmap = "[]" and n = n
          and ?st0.0 = st and p = ?p and anc = anc and K = K and e = e and b = b and ctx = ctx,
          OF L fin cK dir paths rvh mh]
      by blast
    note v = resolvingD [OF rv2]
    have inv2: "loader_inv st2" and e2: "ext st st2" and p: "?p < fresh st2"
      and none2: "imports' (mem st2 ?p) = None"
      and rd: "\<And>q. q \<in> set imps \<Longrightarrow> ready (mem st2) q"
      and up: "\<And>q. q \<in> set imps \<Longrightarrow> Incomplete (mem st2 q) \<Longrightarrow> Incomplete (mem st2 ?p)"
      and orig2: "Incomplete (mem st2 ?p) \<Longrightarrow> Error (mem st2 ?p) \<noteq> None \<or> (\<exists>q\<in>set imps. Incomplete (mem st2 q))"
      using v(1) by (simp_all add: loading_def)
    let ?y = "load_tail b ctx stk ?p depmap imps (mem st2)"
    let ?st3 = "st2\<lparr>mem := (mem st2)(?p := ?y)\<rparr>"
    note t = load_tail_fields [where b = b and ctx = ctx and stk = stk and p = ?p and depmap = depmap
        and imps = imps and ?s2.0 = "mem st2"]
    note u = load_tail_origin [where b = b and ctx = ctx and stk = stk and p = ?p and depmap = depmap
        and imps = imps and ?s2.0 = "mem st2"]
    have 1: "loader_inv ?st3"
      using inv2 p none2 rd up orig2 t(1,2,4) by (rule loader_inv_finish)
    have 2: "ext st ?st3" using e2 by (rule ext_upd_new) simp
    have 3: "ready (mem ?st3) ?p" using t(1) by (simp add: ready_def)
    have ld: "loaded st ?p ?st3" unfolding loaded_def using 1 2 3 p by simp
    have lkA: "linked e b ctx K ?A ?st3"
      using v(2,4)
    proof (rule linked_running)
      show "?kp \<in> ?A" by simp
      show "plain_Error ?y \<Longrightarrow> plain_Error (mem st2 ?p) \<or> failing e b ctx K ?kp \<or> may_err e b ctx K ?kp"
      proof -
        assume "plain_Error ?y"
        then have "plain_Error (mem st2 ?p) \<or> CFiles (Package_bp (mem st2 ?p)) \<noteq> []" by (rule u(4))
        then show ?thesis
        proof
          assume "CFiles (Package_bp (mem st2 ?p)) \<noteq> []"
          then have "CFiles (loadImport_bp e b ctx (fst ?c) (snd ?c)) \<noteq> []" using v(5) by simp
          then have "may_err e b ctx K ?kp" unfolding may_err_def using cK by blast
          then show ?thesis by simp
        qed simp
      qed
      show "cycle_Error ?y \<Longrightarrow> cycle_Error (mem st2 ?p) \<or> on_cycle e b ctx K ?kp" using u(3) by simp
      show "local ?y \<Longrightarrow> local (mem st2 ?p)" using u(1) by simp
    qed
    have cp3: "packageCache ?st3 ?kp = Some ?p" using v(4) by simp
    have all2: "list_all2 (\<lambda>k' q. packageCache ?st3 k' = Some q)
        (map (call_key e b ctx) (loadImport_calls e b ctx ?c)) imps"
      using v(7) unfolding calls by (simp add: list_all2_map1 o_def)
    have ok: "node_ok e b ctx K ?st3 ?kp ?p"
      unfolding node_ok_def
    proof (intro ballI impI)
      fix c' assume c': "c' \<in> K" "call_key e b ctx c' = ?kp"
      note cc = consistent_callsD [OF cons cK c']
      have "\<not> call_fails e b ctx c'" using cc(1) ok_call by simp
      moreover have "imports' (mem ?st3 ?p) = Some imps" using t(1) by simp
      moreover have "list_all2 (\<lambda>k' q. packageCache ?st3 k' = Some q)
          (map (call_key e b ctx) (loadImport_calls e b ctx c')) imps"
        using all2 cc(2) by simp
      ultimately show "if call_fails e b ctx c'
        then imports' (mem ?st3 ?p) = None \<and> Incomplete (mem ?st3 ?p) \<and> Error (mem ?st3 ?p) \<noteq> None
        else \<exists>ps. imports' (mem ?st3 ?p) = Some ps \<and>
               list_all2 (\<lambda>k' q. packageCache ?st3 k' = Some q)
                 (map (call_key e b ctx) (loadImport_calls e b ctx c')) ps"
        by (simp only: if_False) blast
    qed
    have lk3: "linked e b ctx K anc ?st3"
      using lkA cp3 ok
    proof (rule linked_done)
      assume "Incomplete (mem ?st3 ?p)"
      then have "Incomplete (mem st2 ?p)" using t(2) by simp
      then have "on_cycle e b ctx K ?kp \<or> (\<exists>q\<in>set imps. Incomplete (mem st2 q))" by (rule v(8))
      then show "\<exists>k'. (?kp, k') \<in> ?G\<^sup>* \<and> blamed e b ctx K k'"
      proof
        assume "on_cycle e b ctx K ?kp"
        then show ?thesis unfolding blamed_def by blast
      next
        assume "\<exists>q\<in>set imps. Incomplete (mem st2 q)"
        then obtain q where q: "q \<in> set imps" "Incomplete (mem st2 q)" by blast
        obtain path' where path': "path' \<in> set (filter (\<lambda>path'. path' \<noteq> ''C'') (load_importPaths ?xh))"
          "packageCache st2 (call_key e b ctx (path', Dir ?bp)) = Some q"
          using list_all2_set2 [OF v(7) q(1)] by auto
        let ?k1 = "call_key e b ctx (path', Dir ?bp)"
        have "(path', Dir ?bp) \<in> set (loadImport_calls e b ctx ?c)" using path'(1) unfolding calls by simp
        then have edge: "(?kp, ?k1) \<in> ?G" using cK by (intro import_graph_edge)
        show ?thesis
        proof (cases "?k1 \<in> ?A")
          case False
          obtain k' where "(?k1, k') \<in> ?G\<^sup>*" "blamed e b ctx K k'"
            using linkedD(3) [OF v(2) path'(2) False q(2)] by blast
          then show ?thesis using edge by (meson converse_rtrancl_into_rtrancl)
        next
          case True
          have "(?k1, ?kp) \<in> ?G\<^sup>*"
          proof (cases "?k1 = ?kp")
            case False
            then have "?k1 \<in> anc" using True by simp
            then show ?thesis using reach by (simp add: trancl_into_rtrancl)
          qed simp
          then have "(?k1, ?k1) \<in> ?G\<^sup>+" using edge by (meson rtrancl_into_trancl1)
          then have "blamed e b ctx K ?k1" by (simp add: blamed_def on_cycle_def)
          then show ?thesis using edge by blast
        qed
      qed
    qed
    have lowp: "r \<noteq> ?p" if "r < ?p" for r using that by simp
    have x1: "Incomplete (mem st r) \<or> on_cycle e b ctx K k"
      if "packageCache st k = Some r" "Incomplete (mem ?st3 r)" for k r
    proof -
      have "r < ?p" using old [OF that(1)] by simp
      then have "Incomplete (mem st2 r)" using that(2) by simp
      then show ?thesis using v(9) [OF that(1)] by simp
    qed
    have x3: "local (mem ?st3 r) = local (mem st r)" if "r < ?p" for r
      using v(10) [OF that] that by simp
    have "resolved e b ctx K anc ?c st ?p ?st3"
      unfolding resolved_def using ld lk3 cp3 x1 x3 by blast
    then show ?thesis using None loop by (simp add: load_eq)
  qed
qed

lemma loadImport_resolved:
  assumes fin: "finite K" and cl: "closed_calls e b ctx K" and cons: "consistent_calls e b ctx K"
  shows "loader_inv st \<Longrightarrow> linked e b ctx K anc st \<Longrightarrow> (path, srcDir) \<in> K \<Longrightarrow>
    (\<And>k. k \<in> anc \<Longrightarrow> (k, call_key e b ctx (path, srcDir)) \<in> (import_graph e b ctx K)\<^sup>+) \<Longrightarrow>
    card (uncached e b ctx K st) < n \<Longrightarrow>
    \<exists>p1 st1. loadImport n e b ctx path srcDir stk0 importPos st = Some (p1, st1) \<and>
      resolved e b ctx K anc (path, srcDir) st p1 st1"
proof (induction n arbitrary: st path srcDir stk0 importPos anc)
  case 0
  then show ?case by simp
next
  case (Suc n)
  note inv = Suc.prems(1) and lk = Suc.prems(2) and cK = Suc.prems(3) and reach = Suc.prems(4)
  let ?c = "(path, srcDir)"
  let ?kp = "call_key e b ctx ?c"
  let ?G = "import_graph e b ctx K"
  have key: "fullImportPath e b ctx path srcDir = ?kp" by (simp add: call_key_def)
  show ?case
  proof (cases "packageCache st ?kp")
    case (Some p)
    show ?thesis
      using reusePackage_resolved [OF inv lk cK Some reach, of "stk0 @ [path]"] Some
      by (simp add: loadImport_Suc key del: loadImport.simps)
  next
    case None
    let ?p = "fresh st"
    let ?st = "loadImport_new e b ctx path srcDir st"
    let ?bp = "loadImport_bp e b ctx path srcDir"
    let ?err = "loadImport_err e b ctx path srcDir"
    have m: "card (uncached e b ctx K ?st) < n"
      using uncached_new [where e = e and b = b and ctx = ctx and st = st, OF fin cK] None key Suc.prems(5)
      by simp
    have L: "\<exists>p1 st1. loadImport n e b ctx path' (Dir ?bp) stk pos st' = Some (p1, st1) \<and>
        resolved e b ctx K (insert ?kp anc) (path', Dir ?bp) st' p1 st1"
      if "loader_inv st'" "linked e b ctx K (insert ?kp anc) st'"
        "(path', Dir ?bp) \<in> set (loadImport_calls e b ctx ?c)" "card (uncached e b ctx K st') < n"
      for path' stk pos st'
    proof (rule Suc.IH [OF that(1,2) _ _ that(4)])
      show "(path', Dir ?bp) \<in> K" using cl cK that(3) unfolding closed_calls_def by blast
      have edge: "(?kp, call_key e b ctx (path', Dir ?bp)) \<in> ?G"
        using cK that(3) by (rule import_graph_edge)
      show "(k, call_key e b ctx (path', Dir ?bp)) \<in> ?G\<^sup>+" if "k \<in> insert ?kp anc" for k
      proof (cases "k = ?kp")
        case True
        then show ?thesis using edge by blast
      next
        case False
        then have "(k, ?kp) \<in> ?G\<^sup>+" using that reach by simp
        then show ?thesis using edge by (rule trancl.trancl_into_trancl)
      qed
    qed
    obtain st3 where ld: "load (loadImport n e b ctx) e b ctx (stk0 @ [path]) ?bp ?err ?p ?st = Some st3"
      and rs: "resolved e b ctx K anc ?c st ?p st3"
      using load_resolved [where L = "loadImport n e b ctx" and stk = "stk0 @ [path]",
          OF L fin cons cK inv lk None reach m] by blast
    have "resolved e b ctx K anc ?c st ?p (loadImport_pos b importPos ?p st3)"
      using rs inv by (rule loadImport_pos_resolved) simp
    then show ?thesis using None ld by (simp add: loadImport_Suc key del: loadImport.simps)
  qed
qed

text \<open>The state after a call from outside: no load is running.\<close>

lemma settled_edge:
  assumes lk: "linked e b ctx K {} st" and c: "packageCache st k = Some a"
    and e: "(k, k1) \<in> import_graph e b ctx K"
  shows "\<exists>a1. packageCache st k1 = Some a1 \<and> (a, a1) \<in> import_edges (mem st)"
proof -
  obtain c1 c1' where c1: "c1 \<in> K" "c1' \<in> set (loadImport_calls e b ctx c1)"
    "k = call_key e b ctx c1" "k1 = call_key e b ctx c1'"
    using e unfolding import_graph_def by blast
  have nf: "\<not> call_fails e b ctx c1" using c1(2) loadImport_calls_fails [of e b ctx c1] by auto
  have ok: "node_ok e b ctx K st k a" using linkedD(2) [OF lk c] by simp
  obtain ps where ps: "imports' (mem st a) = Some ps"
    "list_all2 (\<lambda>k' q. packageCache st k' = Some q) (map (call_key e b ctx) (loadImport_calls e b ctx c1)) ps"
    using node_okD(2) [OF ok c1(1) c1(3) [symmetric] nf] by blast
  have "k1 \<in> set (map (call_key e b ctx) (loadImport_calls e b ctx c1))" using c1(2,4) by simp
  then obtain q where q: "q \<in> set ps" "packageCache st k1 = Some q"
    using list_all2_set1 [OF ps(2)] by blast
  have "(a, q) \<in> import_edges (mem st)" using ps(1) q(1) by (simp add: import_edges_def imports_of_def)
  then show ?thesis using q(2) by blast
qed

lemma settled_path:
  assumes lk: "linked e b ctx K {} st" and c: "packageCache st k = Some a"
    and p: "(k, k') \<in> (import_graph e b ctx K)\<^sup>*"
  shows "\<exists>a'. packageCache st k' = Some a' \<and> (a, a') \<in> (import_edges (mem st))\<^sup>*"
  using p
proof (induction rule: rtrancl_induct)
  case base
  then show ?case using c by blast
next
  case (step y z)
  then obtain ay where ay: "packageCache st y = Some ay" "(a, ay) \<in> (import_edges (mem st))\<^sup>*" by blast
  obtain az where "packageCache st z = Some az" "(ay, az) \<in> import_edges (mem st)"
    using settled_edge [OF lk ay(1) step.hyps(2)] by blast
  then show ?case using ay(2) by (meson rtrancl.rtrancl_into_rtrancl)
qed

lemma settled_path1:
  assumes lk: "linked e b ctx K {} st" and c: "packageCache st k = Some a"
    and p: "(k, k') \<in> (import_graph e b ctx K)\<^sup>+"
  shows "\<exists>a'. packageCache st k' = Some a' \<and> (a, a') \<in> (import_edges (mem st))\<^sup>+"
proof -
  obtain y where y: "(k, y) \<in> import_graph e b ctx K" "(y, k') \<in> (import_graph e b ctx K)\<^sup>*"
    using p by (meson tranclD)
  obtain ay where ay: "packageCache st y = Some ay" "(a, ay) \<in> import_edges (mem st)"
    using settled_edge [OF lk c y(1)] by blast
  obtain a' where "packageCache st k' = Some a'" "(ay, a') \<in> (import_edges (mem st))\<^sup>*"
    using settled_path [OF lk ay(1) y(2)] by blast
  then show ?thesis using ay(2) by (meson rtrancl_into_trancl2)
qed

lemma settled_blamed:
  assumes inv: "loader_inv st" and lk: "linked e b ctx K {} st" and c: "packageCache st k = Some a"
    and bl: "blamed e b ctx K k"
  shows "Incomplete (mem st a)"
  using bl unfolding blamed_def
proof
  assume "failing e b ctx K k"
  then obtain c1 where c1: "c1 \<in> K" "call_key e b ctx c1 = k" "call_fails e b ctx c1"
    unfolding failing_def by blast
  have ok: "node_ok e b ctx K st k a" using linkedD(2) [OF lk c] by simp
  show ?thesis using node_okD(1) [OF ok c1] by simp
next
  assume "on_cycle e b ctx K k"
  then have "(k, k) \<in> (import_graph e b ctx K)\<^sup>+" by (simp add: on_cycle_def)
  then have "(a, a) \<in> (import_edges (mem st))\<^sup>+" using settled_path1 [OF lk c] c by fastforce
  then show ?thesis using loader_inv_cycle [OF inv] by blast
qed

lemma settled_Incomplete:
  assumes inv: "loader_inv st" and lk: "linked e b ctx K {} st" and c: "packageCache st k = Some a"
  shows "Incomplete (mem st a) \<longleftrightarrow> (\<exists>k'. (k, k') \<in> (import_graph e b ctx K)\<^sup>* \<and> blamed e b ctx K k')"
proof
  assume "Incomplete (mem st a)"
  then show "\<exists>k'. (k, k') \<in> (import_graph e b ctx K)\<^sup>* \<and> blamed e b ctx K k'"
    using linkedD(3) [OF lk c] by simp
next
  assume "\<exists>k'. (k, k') \<in> (import_graph e b ctx K)\<^sup>* \<and> blamed e b ctx K k'"
  then obtain k' where k': "(k, k') \<in> (import_graph e b ctx K)\<^sup>*" "blamed e b ctx K k'" by blast
  obtain a' where a': "packageCache st k' = Some a'" "(a, a') \<in> (import_edges (mem st))\<^sup>*"
    using settled_path [OF lk c k'(1)] by blast
  have "Incomplete (mem st a')" using inv lk a'(1) k'(2) by (rule settled_blamed)
  then show "Incomplete (mem st a)" using loader_inv_path [OF inv a'(2)] by simp
qed

lemma settled_split:
  assumes lk: "linked e b ctx K {} st" and c: "packageCache st k1 = Some a1"
    and p: "(k1, k2) \<in> (import_graph e b ctx K)\<^sup>+"
  shows "\<exists>a2. packageCache st k2 = Some a2 \<and>
     ((a1, a2) \<in> (error_free_edges (mem st))\<^sup>+ \<or>
      (\<exists>k' a'. (k1, k') \<in> (import_graph e b ctx K)\<^sup>+ \<and> (k', k2) \<in> (import_graph e b ctx K)\<^sup>* \<and>
         packageCache st k' = Some a' \<and> Error (mem st a') \<noteq> None))"
  using p
proof (induction rule: trancl_induct)
  case (base y)
  obtain ay where ay: "packageCache st y = Some ay" "(a1, ay) \<in> import_edges (mem st)"
    using settled_edge [OF lk c base] by blast
  show ?case
  proof (cases "Error (mem st ay)")
    case None
    then have "(a1, ay) \<in> error_free_edges (mem st)"
      using ay(2) by (simp add: error_free_edges_def import_edges_def)
    then show ?thesis using ay(1) by blast
  next
    case (Some er)
    have "(k1, y) \<in> (import_graph e b ctx K)\<^sup>+" using base by blast
    then show ?thesis using ay(1) Some by blast
  qed
next
  case (step y z)
  obtain ay where ay: "packageCache st y = Some ay"
    and alt: "(a1, ay) \<in> (error_free_edges (mem st))\<^sup>+ \<or>
      (\<exists>k' a'. (k1, k') \<in> (import_graph e b ctx K)\<^sup>+ \<and> (k', y) \<in> (import_graph e b ctx K)\<^sup>* \<and>
         packageCache st k' = Some a' \<and> Error (mem st a') \<noteq> None)"
    using step.IH by blast
  obtain az where az: "packageCache st z = Some az" "(ay, az) \<in> import_edges (mem st)"
    using settled_edge [OF lk ay step.hyps(2)] by blast
  have kz: "(k1, z) \<in> (import_graph e b ctx K)\<^sup>+" using step.hyps(1,2) by (rule trancl.trancl_into_trancl)
  from alt show ?case
  proof
    assume free: "(a1, ay) \<in> (error_free_edges (mem st))\<^sup>+"
    show ?thesis
    proof (cases "Error (mem st az)")
      case None
      then have "(ay, az) \<in> error_free_edges (mem st)"
        using az(2) by (simp add: error_free_edges_def import_edges_def)
      then have "(a1, az) \<in> (error_free_edges (mem st))\<^sup>+" using free by (rule trancl.trancl_into_trancl [rotated])
      then show ?thesis using az(1) by blast
    next
      case (Some er)
      then show ?thesis using az(1) kz by blast
    qed
  next
    assume "\<exists>k' a'. (k1, k') \<in> (import_graph e b ctx K)\<^sup>+ \<and> (k', y) \<in> (import_graph e b ctx K)\<^sup>* \<and>
         packageCache st k' = Some a' \<and> Error (mem st a') \<noteq> None"
    then obtain k' a' where k': "(k1, k') \<in> (import_graph e b ctx K)\<^sup>+" "(k', y) \<in> (import_graph e b ctx K)\<^sup>*"
      "packageCache st k' = Some a'" "Error (mem st a') \<noteq> None" by blast
    have "(k', z) \<in> (import_graph e b ctx K)\<^sup>*" using k'(2) step.hyps(2) by (rule rtrancl.rtrancl_into_rtrancl)
    then show ?thesis using az(1) k'(1,3,4) by blast
  qed
qed

lemma on_cycle_not_failing:
  assumes cons: "consistent_calls e b ctx K" and cyc: "on_cycle e b ctx K k"
  shows "\<not> failing e b ctx K k"
proof
  assume "failing e b ctx K k"
  then obtain c2 where c2: "c2 \<in> K" "call_key e b ctx c2 = k" "call_fails e b ctx c2"
    unfolding failing_def by blast
  obtain y where "(k, y) \<in> import_graph e b ctx K" using cyc unfolding on_cycle_def by (meson tranclD)
  then obtain c1 c1' where c1: "c1 \<in> K" "c1' \<in> set (loadImport_calls e b ctx c1)" "k = call_key e b ctx c1"
    unfolding import_graph_def by blast
  have "\<not> call_fails e b ctx c1" using c1(2) loadImport_calls_fails [of e b ctx c1] by auto
  then show False using consistent_callsD(1) [OF cons c1(1) c2(1)] c1(3) c2(2,3) by simp
qed

lemma settled_cycle:
  assumes inv: "loader_inv st" and lk: "linked e b ctx K {} st" and cons: "consistent_calls e b ctx K"
    and c: "packageCache st k = Some a" and cyc: "on_cycle e b ctx K k"
  shows "\<exists>k' a'. (k, k') \<in> (import_graph e b ctx K)\<^sup>* \<and> (k', k) \<in> (import_graph e b ctx K)\<^sup>* \<and>
     packageCache st k' = Some a' \<and> (cycle_Error (mem st a') \<or> may_err e b ctx K k')"
proof -
  let ?G = "import_graph e b ctx K"
  have kk: "(k, k) \<in> ?G\<^sup>+" using cyc by (simp add: on_cycle_def)
  obtain a2 where a2: "packageCache st k = Some a2"
    and alt: "(a, a2) \<in> (error_free_edges (mem st))\<^sup>+ \<or>
      (\<exists>k' a'. (k, k') \<in> ?G\<^sup>+ \<and> (k', k) \<in> ?G\<^sup>* \<and> packageCache st k' = Some a' \<and> Error (mem st a') \<noteq> None)"
    using settled_split [OF lk c kk] by blast
  have "a2 = a" using a2 c by simp
  then have "(a, a2) \<notin> (error_free_edges (mem st))\<^sup>+" using loader_inv_error_free [OF inv, of a] by simp
  then obtain k' a' where k': "(k, k') \<in> ?G\<^sup>+" "(k', k) \<in> ?G\<^sup>*" "packageCache st k' = Some a'"
    "Error (mem st a') \<noteq> None"
    using alt by blast
  have "(k', k') \<in> ?G\<^sup>+" using k'(1,2) by (meson rtrancl_trancl_trancl)
  then have nf: "\<not> failing e b ctx K k'" using on_cycle_not_failing [OF cons] by (simp add: on_cycle_def)
  have "cycle_Error (mem st a') \<or> plain_Error (mem st a')"
    using k'(4) by (auto simp: cycle_Error_def plain_Error_def)
  then have "cycle_Error (mem st a') \<or> may_err e b ctx K k'"
    using linkedD(4) [OF lk k'(3)] nf by blast
  then show ?thesis using k'(1,2,3) by (meson trancl_into_rtrancl)
qed

section \<open>The order of map iteration in load\<close>



















lemma zero_Package_deps: "deps zero_Package = []"
  by (simp add: zero_Package_def)




text \<open>
  C1 (amended). Both versions of Fingerprint feed the hash in a fixed order, but not in
  the order of the claim, and a file contributes its name followed by its bytes.
  pkg.go writes first the fingerprints of the dependencies in the order of \<open>p.deps\<close>
  (a standard-library dependency is skipped unless \<open>p\<close> is a race variant), then the
  runtime version, GOOS, GOARCH and the import path, then the five cgo flag lists, and
  last every owned file, by category and in the listed order within a category.
  The first main.go writes the runtime version, GOOS, GOARCH and the import path, then
  the owned files, then the five cgo flag lists, and last the fingerprints of the
  dependencies in the order of \<open>p.Deps\<close> (names that isStdLib accepts are skipped).
  Stated for a call that computes a new, non-empty fingerprint of a unit that is not
  among its own dependencies.
\<close>

theorem Fingerprint_hash_input_order:
  "(Fingerprint (Suc n) e s p = Some (Inr (fp, s')) \<and> fingerprint (s p) = None \<and> fp \<noteq> [] \<and>
    p \<notin> set (deps (s p)) \<longrightarrow>
    fp = sha1_hex e (
      concat (map (\<lambda>d. the (fingerprint (s' d))) (included s p (deps (s p)))) @
      (runtime_Version e @ runtime_GOOS e @ runtime_GOARCH e @ ImportPath (Package_bp (s p))) @
      concat (cgo_flags (Package_bp (s p))) @
      concat (map (\<lambda>f. f @ file_bytes e (Dir (Package_bp (s p))) f) (owned_files (Package_bp (s p)))))) \<and>
   (golist_Fingerprint (Suc m) e pkgs gs gp = Some (Inr (gx, gs')) \<and>
    golist_Package.fingerprint (gs gp) = None \<and> gx \<noteq> [] \<and>
    gp \<notin> set (golist_included pkgs (Deps (gs gp))) \<longrightarrow>
    gx = sha1_hex e (
      (runtime_Version e @ runtime_GOOS e @ runtime_GOARCH e @ golist_Package.ImportPath (gs gp)) @
      concat (map (\<lambda>f. f @ file_bytes e (golist_Package.Dir (gs gp)) f) (golist_owned_files (gs gp))) @
      concat (golist_cgo_flags (gs gp)) @
      concat (map (\<lambda>d. the (golist_Package.fingerprint (gs' d))) (golist_included pkgs (Deps (gs gp))))))"
  using Fingerprint_order [of n e s p fp s'] golist_Fingerprint_order [of m e pkgs gs gp gx gs']
  by blast

theorem Fingerprint_hash_input_order_witness:
  "(\<exists>s'. Fingerprint (Suc (Suc 0)) ex_env ex_heap 1 =
       Some (Inr (''sha1(sha1(go1.4linuxamd64x.org/lib-O2l.gopackage lib)go1.4linuxamd64x.org/appm.gopackage main)'', s')) \<and>
     fingerprint (ex_heap 1) = None \<and> 1 \<notin> set (deps (ex_heap 1)) \<and>
     ''sha1(sha1(go1.4linuxamd64x.org/lib-O2l.gopackage lib)go1.4linuxamd64x.org/appm.gopackage main)'' =
     sha1_hex ex_env (
       concat (map (\<lambda>d. the (fingerprint (s' d))) (included ex_heap 1 (deps (ex_heap 1)))) @
       (runtime_Version ex_env @ runtime_GOOS ex_env @ runtime_GOARCH ex_env @ ImportPath (Package_bp (ex_heap 1))) @
       concat (cgo_flags (Package_bp (ex_heap 1))) @
       concat (map (\<lambda>f. f @ file_bytes ex_env (Dir (Package_bp (ex_heap 1))) f) (owned_files (Package_bp (ex_heap 1)))))) \<and>
   (\<exists>gs'. golist_Fingerprint (Suc (Suc 0)) ex_env ex_pkgs ex_golist_heap 1 =
       Some (Inr (''sha1(go1.4linuxamd64x.org/appm.gopackage mainsha1(go1.4linuxamd64x.org/libl.gopackage lib-O2))'', gs')) \<and>
     golist_Package.fingerprint (ex_golist_heap 1) = None \<and>
     1 \<notin> set (golist_included ex_pkgs (Deps (ex_golist_heap 1))) \<and>
     ''sha1(go1.4linuxamd64x.org/appm.gopackage mainsha1(go1.4linuxamd64x.org/libl.gopackage lib-O2))'' =
     sha1_hex ex_env (
       (runtime_Version ex_env @ runtime_GOOS ex_env @ runtime_GOARCH ex_env @ golist_Package.ImportPath (ex_golist_heap 1)) @
       concat (map (\<lambda>f. f @ file_bytes ex_env (golist_Package.Dir (ex_golist_heap 1)) f) (golist_owned_files (ex_golist_heap 1))) @
       concat (golist_cgo_flags (ex_golist_heap 1)) @
       concat (map (\<lambda>d. the (golist_Package.fingerprint (gs' d))) (golist_included ex_pkgs (Deps (ex_golist_heap 1))))))"
proof -
  let ?X = "''sha1(sha1(go1.4linuxamd64x.org/lib-O2l.gopackage lib)go1.4linuxamd64x.org/appm.gopackage main)''"
  let ?Y = "''sha1(go1.4linuxamd64x.org/appm.gopackage mainsha1(go1.4linuxamd64x.org/libl.gopackage lib-O2))''"
  obtain s' where run: "Fingerprint (Suc (Suc 0)) ex_env ex_heap 1 = Some (Inr (?X, s'))"
    by (simp add: ex_defs Let_def)
  have pre: "fingerprint (ex_heap 1) = None" "1 \<notin> set (deps (ex_heap 1))"
    by (simp_all add: ex_defs)
  obtain gs' where grun: "golist_Fingerprint (Suc (Suc 0)) ex_env ex_pkgs ex_golist_heap 1 = Some (Inr (?Y, gs'))"
    by (simp add: ex_golist_defs Let_def bindF_def isStdLib_def)
  have gpre: "golist_Package.fingerprint (ex_golist_heap 1) = None"
    "1 \<notin> set (golist_included ex_pkgs (Deps (ex_golist_heap 1)))"
    by (simp_all add: ex_golist_defs golist_included_def isStdLib_def)
  note inst = Fingerprint_hash_input_order [of "Suc 0" ex_env ex_heap 1 ?X s' "Suc 0" ex_pkgs ex_golist_heap 1 ?Y gs']
  have a: "?X = sha1_hex ex_env (
       concat (map (\<lambda>d. the (fingerprint (s' d))) (included ex_heap 1 (deps (ex_heap 1)))) @
       (runtime_Version ex_env @ runtime_GOOS ex_env @ runtime_GOARCH ex_env @ ImportPath (Package_bp (ex_heap 1))) @
       concat (cgo_flags (Package_bp (ex_heap 1))) @
       concat (map (\<lambda>f. f @ file_bytes ex_env (Dir (Package_bp (ex_heap 1))) f) (owned_files (Package_bp (ex_heap 1)))))"
    using inst [THEN conjunct1] run pre by simp
  have b: "?Y = sha1_hex ex_env (
       (runtime_Version ex_env @ runtime_GOOS ex_env @ runtime_GOARCH ex_env @ golist_Package.ImportPath (ex_golist_heap 1)) @
       concat (map (\<lambda>f. f @ file_bytes ex_env (golist_Package.Dir (ex_golist_heap 1)) f) (golist_owned_files (ex_golist_heap 1))) @
       concat (golist_cgo_flags (ex_golist_heap 1)) @
       concat (map (\<lambda>d. the (golist_Package.fingerprint (gs' d))) (golist_included ex_pkgs (Deps (ex_golist_heap 1)))))"
    using inst [THEN conjunct2] grun gpre by simp
  show ?thesis using run pre a grun gpre b by blast
qed

theorem Fingerprint_spec_order_counterexample:
  "returned (Fingerprint (Suc (Suc 0)) ex_env ex_heap 1) \<noteq>
   Some (sha1_hex ex_env (spec_digest_input ex_env (Package_bp (ex_heap 1))
           [the (returned (Fingerprint (Suc 0) ex_env ex_heap 2))]))"
  by (simp add: ex_defs Let_def returned_def spec_digest_input_def file_bytes_def)

text \<open>
  C3 (amended). pkg.go skips a standard-library dependency only when the unit is not a
  race variant (\<open>!p.race && dep.Standard\<close>); the first main.go skips every dependency
  whose name isStdLib accepts. So: in a graph where the dependencies of a unit that is
  not a race variant are not race variants either, changing what the files of a
  standard-library unit \<open>lib\<close> hold (every file of every other unit reads as before)
  changes the fingerprint of no other unit that is not a race variant; and in the first
  main.go it changes the fingerprint of no other unit, when \<open>lib\<close> is registered under
  standard-library names only.
\<close>

theorem Fingerprint_ignores_stdlib_files:
  "(Standard (s lib) \<and> \<not> race (s p) \<and> p \<noteq> lib \<and>
    (\<forall>a d. \<not> race (s a) \<longrightarrow> d \<in> set (deps (s a)) \<longrightarrow> \<not> race (s d)) \<and>
    (\<forall>a f. a \<noteq> lib \<longrightarrow> f \<in> set (owned_files (Package_bp (s a))) \<longrightarrow>
       rf (filepath_Join e (Dir (Package_bp (s a))) f) = readFile e (filepath_Join e (Dir (Package_bp (s a))) f)) \<longrightarrow>
    Fingerprint n (e\<lparr>readFile := rf\<rparr>) s p = Fingerprint n e s p) \<and>
   ((\<forall>dep. pkgs dep = Some glib \<longrightarrow> isStdLib dep) \<and> gp \<noteq> glib \<and>
    (\<forall>a f. a \<noteq> glib \<longrightarrow> f \<in> set (golist_owned_files (gs a)) \<longrightarrow>
       rf (filepath_Join e (golist_Package.Dir (gs a)) f) = readFile e (filepath_Join e (golist_Package.Dir (gs a)) f)) \<longrightarrow>
    golist_Fingerprint m (e\<lparr>readFile := rf\<rparr>) pkgs gs gp = golist_Fingerprint m e pkgs gs gp)"
proof (intro conjI impI)
  assume "Standard (s lib) \<and> \<not> race (s p) \<and> p \<noteq> lib \<and>
    (\<forall>a d. \<not> race (s a) \<longrightarrow> d \<in> set (deps (s a)) \<longrightarrow> \<not> race (s d)) \<and>
    (\<forall>a f. a \<noteq> lib \<longrightarrow> f \<in> set (owned_files (Package_bp (s a))) \<longrightarrow>
       rf (filepath_Join e (Dir (Package_bp (s a))) f) = readFile e (filepath_Join e (Dir (Package_bp (s a))) f))"
  then show "Fingerprint n (e\<lparr>readFile := rf\<rparr>) s p = Fingerprint n e s p"
    by (intro Fingerprint_stdlib_files [where lib = lib]) blast+
next
  assume "(\<forall>dep. pkgs dep = Some glib \<longrightarrow> isStdLib dep) \<and> gp \<noteq> glib \<and>
    (\<forall>a f. a \<noteq> glib \<longrightarrow> f \<in> set (golist_owned_files (gs a)) \<longrightarrow>
       rf (filepath_Join e (golist_Package.Dir (gs a)) f) = readFile e (filepath_Join e (golist_Package.Dir (gs a)) f))"
  then show "golist_Fingerprint m (e\<lparr>readFile := rf\<rparr>) pkgs gs gp = golist_Fingerprint m e pkgs gs gp"
    by (intro golist_Fingerprint_stdlib_files [where lib = glib]) blast+
qed

lemma ex_heap_no_race: "\<not> race (ex_heap a)"
  by (simp add: ex_defs)

lemma ex_heap_files:
  "a \<noteq> 3 \<Longrightarrow> f \<in> set (owned_files (Package_bp (ex_heap a))) \<Longrightarrow>
     readFile ex_env_edited (filepath_Join ex_env (Dir (Package_bp (ex_heap a))) f) =
     readFile ex_env (filepath_Join ex_env (Dir (Package_bp (ex_heap a))) f)"
  by (auto simp: ex_defs ex_env_edited_def owned_files_def split: if_splits)

lemma ex_golist_heap_files:
  "a \<noteq> 3 \<Longrightarrow> f \<in> set (golist_owned_files (ex_golist_heap a)) \<Longrightarrow>
     readFile ex_env_edited (filepath_Join ex_env (golist_Package.Dir (ex_golist_heap a)) f) =
     readFile ex_env (filepath_Join ex_env (golist_Package.Dir (ex_golist_heap a)) f)"
  by (auto simp: ex_golist_defs ex_env_edited_def golist_owned_files_def split: if_splits)

lemma ex_pkgs_fmt: "ex_pkgs dep = Some 3 \<Longrightarrow> isStdLib dep"
  by (auto simp: ex_pkgs_def isStdLib_def split: if_splits)

theorem Fingerprint_ignores_stdlib_files_witness:
  "Standard (ex_heap 3) \<and>
   Fingerprint (Suc (Suc 0)) (ex_env\<lparr>readFile := readFile ex_env_edited\<rparr>) ex_heap 1 =
     Fingerprint (Suc (Suc 0)) ex_env ex_heap 1 \<and>
   returned (Fingerprint (Suc (Suc 0)) ex_env ex_heap 1) =
     Some ''sha1(sha1(go1.4linuxamd64x.org/lib-O2l.gopackage lib)go1.4linuxamd64x.org/appm.gopackage main)'' \<and>
   golist_Fingerprint (Suc (Suc 0)) (ex_env\<lparr>readFile := readFile ex_env_edited\<rparr>) ex_pkgs ex_golist_heap 1 =
     golist_Fingerprint (Suc (Suc 0)) ex_env ex_pkgs ex_golist_heap 1"
proof -
  note inst = Fingerprint_ignores_stdlib_files [of ex_heap 3 1 "readFile ex_env_edited" ex_env
      "Suc (Suc 0)" ex_pkgs 3 1 ex_golist_heap "Suc (Suc 0)"]
  have std: "Standard (ex_heap 3)" by (simp add: ex_defs)
  have "Fingerprint (Suc (Suc 0)) (ex_env\<lparr>readFile := readFile ex_env_edited\<rparr>) ex_heap 1 =
     Fingerprint (Suc (Suc 0)) ex_env ex_heap 1"
    using inst [THEN conjunct1] std ex_heap_no_race ex_heap_files by simp
  moreover have "golist_Fingerprint (Suc (Suc 0)) (ex_env\<lparr>readFile := readFile ex_env_edited\<rparr>) ex_pkgs ex_golist_heap 1 =
     golist_Fingerprint (Suc (Suc 0)) ex_env ex_pkgs ex_golist_heap 1"
    using inst [THEN conjunct2] ex_pkgs_fmt ex_golist_heap_files by simp
  moreover have "returned (Fingerprint (Suc (Suc 0)) ex_env ex_heap 1) =
     Some ''sha1(sha1(go1.4linuxamd64x.org/lib-O2l.gopackage lib)go1.4linuxamd64x.org/appm.gopackage main)''"
    by (simp add: ex_defs Let_def returned_def)
  ultimately show ?thesis using std by simp
qed

theorem Fingerprint_race_stdlib_counterexample:
  "race (ex_race_heap 1) \<and> Standard (ex_race_heap 3) \<and> deps (ex_race_heap 1) = [3] \<and>
   returned (Fingerprint (Suc (Suc 0)) ex_env ex_race_heap 1) \<noteq>
     returned (Fingerprint (Suc (Suc 0)) ex_env_edited ex_race_heap 1) \<and>
   returned (Fingerprint (Suc (Suc 0)) ex_env ex_race_heap 1) =
     Some ''sha1(sha1(go1.4linuxamd64fmt:racep.gopackage fmt)go1.4linuxamd64x.org/app:racem.gopackage main)'' \<and>
   returned (Fingerprint (Suc (Suc 0)) ex_env_edited ex_race_heap 1) =
     Some ''sha1(sha1(go1.4linuxamd64fmt:racep.gopackage fmt // edited)go1.4linuxamd64x.org/app:racem.gopackage main)''"
  by (simp add: ex_race_heap_def ex_env_edited_def ex_defs Let_def returned_def)







text \<open>
  C7 (amended). isStale answers "not stale" for a fake builtin package, and for a package
  without Go source that has no load error, before it looks at the dependencies, and computeStale sets the
  flags along \<open>imports\<close>, so the claim needs three provisos. In an import graph without
  cycles (some rank falls along every import), for every unit \<open>U\<close> that the walk lists,
  that is not a fake builtin package and that has Go source, and every \<open>D\<close> among
  \<open>U.deps\<close> that \<open>U\<close> reaches through imports: if computeStale marks \<open>D\<close> stale, it marks
  \<open>U\<close> stale.
\<close>

theorem computeStale_dependency_stale:
  "computeStale n e s roots = Some (s', out) \<and>
   (\<forall>p q. q \<in> set (imports_of (s p)) \<longrightarrow> (rank q :: nat) < rank p) \<and>
   packageList n s roots = Some all \<and> U \<in> set all \<and>
   D \<in> set (deps (s U)) \<and> (U, D) \<in> (import_edges s)\<^sup>+ \<and>
   \<not> fake_builtin (s U) \<and> \<not> no_go_source (s U) \<and> Stale (s' D) \<longrightarrow>
   Stale (s' U)"
proof
  assume a: "computeStale n e s roots = Some (s', out) \<and>
   (\<forall>p q. q \<in> set (imports_of (s p)) \<longrightarrow> rank q < rank p) \<and>
   packageList n s roots = Some all \<and> U \<in> set all \<and>
   D \<in> set (deps (s U)) \<and> (U, D) \<in> (import_edges s)\<^sup>+ \<and>
   \<not> fake_builtin (s U) \<and> \<not> no_go_source (s U) \<and> Stale (s' D)"
  then have "\<And>p q. q \<in> set (imports_of (s p)) \<Longrightarrow> rank q < rank p" by blast
  from computeStale_monotone [of n e s roots s' out rank all U D, OF _ this] a
  show "Stale (s' U)" by blast
qed

lemmas ex_stale_defs = computeStale_def packageList_def isStale_def olderThan_def usesSwig_def
  imports_of_def Let_def

lemma ex_heap_rank: "q \<in> set (imports_of (ex_heap p)) \<Longrightarrow> 3 - q < 3 - p"
  by (auto simp: ex_defs imports_of_def split: if_splits)

theorem computeStale_dependency_stale_witness:
  "\<exists>s' out. computeStale (Suc (Suc (Suc 0))) ex_env_touched ex_heap [1] = Some (s', out) \<and>
     packageList (Suc (Suc (Suc 0))) ex_heap [1] = Some [3, 2, 1] \<and>
     2 \<in> set (deps (ex_heap 1)) \<and> (1, 2) \<in> (import_edges ex_heap)\<^sup>+ \<and>
     \<not> fake_builtin (ex_heap 1) \<and> \<not> no_go_source (ex_heap 1) \<and> Stale (s' 2) \<and> Stale (s' 1)"
proof -
  obtain s' out where run: "computeStale (Suc (Suc (Suc 0))) ex_env_touched ex_heap [1] = Some (s', out)"
    and D: "Stale (s' 2)"
    by (simp add: ex_stale_defs ex_env_touched_def ex_defs)
  have order: "packageList (Suc (Suc (Suc 0))) ex_heap [1] = Some [3, 2, 1]"
    by (simp add: ex_stale_defs ex_defs)
  have dep: "2 \<in> set (deps (ex_heap 1))" "(1, 2) \<in> (import_edges ex_heap)\<^sup>+"
    by (auto simp: import_edges_def imports_of_def ex_defs)
  have U: "\<not> fake_builtin (ex_heap 1)" "\<not> no_go_source (ex_heap 1)"
    by (simp_all add: fake_builtin_def no_go_source_def ex_defs)
  have "Stale (s' 1)"
    using computeStale_dependency_stale [of "Suc (Suc (Suc 0))" ex_env_touched ex_heap "[1]" s' out
        "\<lambda>a. 3 - a" "[3, 2, 1]" 1 2]
      run order dep U D ex_heap_rank by simp
  then show ?thesis using run order dep U D by blast
qed

theorem computeStale_binary_only_counterexample:
  "2 \<in> set (deps (ex_heap_binary_only 1)) \<and>
   map_option (\<lambda>(s', out). (Stale (s' 2), Stale (s' 1)))
     (computeStale (Suc (Suc (Suc 0))) ex_env_touched ex_heap_binary_only [1]) = Some (True, False)"
  by (simp add: ex_stale_defs ex_heap_binary_only_def ex_env_touched_def ex_defs)

text \<open>
  C8 (amended). The test of the root tree is the last but one of isStale: it comes
  after every test that can report the unit stale except the comparison with the source
  files, which it skips. So for a unit with a non-empty Root that is not the Root of a
  package named on the command line, isStale answers "stale" exactly when the unit is
  not a fake builtin package and either has a load error, or has Go source and one of:
  no install target, the flag Stale already set, no installed artifact (or one with the
  zero time), a dependency that is stale, a dependency with an install target whose
  artifact is newer than the unit's or cannot be examined. In every other case it
  answers "fresh", whatever the modification times of the source files are: the verdict
  is the same on any two file systems that agree on the unit's artifact and on its
  dependencies' artifacts.
\<close>

theorem isStale_outside_requested_roots:
  "Root (Package_bp (s p)) \<noteq> [] \<and> \<not> topRoot (Root (Package_bp (s p))) \<longrightarrow>
   (fst (isStale e s p topRoot) \<longleftrightarrow>
      \<not> fake_builtin (s p) \<and>
      (Error (s p) \<noteq> None \<or>
       \<not> no_go_source (s p) \<and>
       (Target (s p) = [] \<or> Stale (s p) \<or>
        (case modTime e (Target (s p)) of
           None \<Rightarrow> True
         | Some built \<Rightarrow> built = 0 \<or>
             (\<exists>d\<in>set (deps (s p)). Stale (s d) \<or> Target (s d) \<noteq> [] \<and> olderThan e built (Target (s d))))))) \<and>
   (mt (Target (s p)) = modTime e (Target (s p)) \<and>
    (\<forall>d. d \<in> set (deps (s p)) \<longrightarrow> mt (Target (s d)) = modTime e (Target (s d))) \<longrightarrow>
    fst (isStale (e\<lparr>modTime := mt\<rparr>) s p topRoot) = fst (isStale e s p topRoot))"
proof (intro impI conjI)
  assume out: "Root (Package_bp (s p)) \<noteq> [] \<and> \<not> topRoot (Root (Package_bp (s p)))"
  show "fst (isStale e s p topRoot) \<longleftrightarrow>
      \<not> fake_builtin (s p) \<and>
      (Error (s p) \<noteq> None \<or>
       \<not> no_go_source (s p) \<and>
       (Target (s p) = [] \<or> Stale (s p) \<or>
        (case modTime e (Target (s p)) of
           None \<Rightarrow> True
         | Some built \<Rightarrow> built = 0 \<or>
             (\<exists>d\<in>set (deps (s p)). Stale (s d) \<or> Target (s d) \<noteq> [] \<and> olderThan e built (Target (s d))))))"
    using out
    by (cases "modTime e (Target (s p))")
      (auto simp: isStale_def Let_def fake_builtin_def no_go_source_def list_ex_iff)
  {
    assume same: "mt (Target (s p)) = modTime e (Target (s p)) \<and>
      (\<forall>d. d \<in> set (deps (s p)) \<longrightarrow> mt (Target (s d)) = modTime e (Target (s d)))"
    have "list_ex (\<lambda>p1. Stale (s p1) \<or> Target (s p1) \<noteq> [] \<and> olderThan (e\<lparr>modTime := mt\<rparr>) b (Target (s p1))) (deps (s p)) =
        list_ex (\<lambda>p1. Stale (s p1) \<or> Target (s p1) \<noteq> [] \<and> olderThan e b (Target (s p1))) (deps (s p))" for b
      using same by (auto simp: list_ex_iff olderThan_def)
    then show "fst (isStale (e\<lparr>modTime := mt\<rparr>) s p topRoot) = fst (isStale e s p topRoot)"
      using out same by (simp add: isStale_def Let_def)
  }
qed

theorem isStale_outside_requested_roots_witness:
  "Root (Package_bp (ex_heap_two_trees 2)) = ''/v'' \<and>
   \<not> topRoots ex_heap_two_trees [1] (\<lambda>root. False) ''/v'' \<and>
   modTime ex_env_touched ''/w/lib/l.go'' = Some 25 \<and> modTime ex_env ''/w/lib/l.go'' = Some 10 \<and>
   modTime ex_env_touched (Target (ex_heap_two_trees 2)) = Some 20 \<and>
   \<not> fst (isStale ex_env_touched ex_heap_two_trees 2 (topRoots ex_heap_two_trees [1] (\<lambda>root. False))) \<and>
   fst (isStale (ex_env\<lparr>modTime := modTime ex_env_touched\<rparr>) ex_heap_two_trees 2
         (topRoots ex_heap_two_trees [1] (\<lambda>root. False))) =
     fst (isStale ex_env ex_heap_two_trees 2 (topRoots ex_heap_two_trees [1] (\<lambda>root. False))) \<and>
   fst (isStale (ex_env\<lparr>modTime := (modTime ex_env)(''/w/pkg/lib.a'' := None)\<rparr>) ex_heap_two_trees 2
         (topRoots ex_heap_two_trees [1] (\<lambda>root. False))) \<and>
   fst (isStale ex_env (ex_heap_two_trees(2 := (ex_heap_two_trees 2)\<lparr>Stale := True\<rparr>)) 2
         (topRoots ex_heap_two_trees [1] (\<lambda>root. False))) \<and>
   \<not> fst (isStale ex_env
         (ex_heap_two_trees(2 := (ex_heap_two_trees 2)\<lparr>Stale := True,
            Package_bp := (Package_bp (ex_heap_two_trees 2))\<lparr>GoFiles := []\<rparr>\<rparr>)) 2
         (topRoots ex_heap_two_trees [1] (\<lambda>root. False)))"
proof -
  let ?T = "topRoots ex_heap_two_trees [1] (\<lambda>root. False)"
  let ?s1 = "ex_heap_two_trees(2 := (ex_heap_two_trees 2)\<lparr>Stale := True\<rparr>)"
  let ?s2 = "ex_heap_two_trees(2 := (ex_heap_two_trees 2)\<lparr>Stale := True,
            Package_bp := (Package_bp (ex_heap_two_trees 2))\<lparr>GoFiles := []\<rparr>\<rparr>)"
  note defs = ex_heap_two_trees_def ex_env_touched_def ex_defs fake_builtin_def no_go_source_def
    olderThan_def usesSwig_def
  have out: "Root (Package_bp (ex_heap_two_trees 2)) = ''/v''" "\<not> ?T ''/v''"
    by (simp_all add: ex_heap_two_trees_def ex_defs)
  have times: "modTime ex_env_touched ''/w/lib/l.go'' = Some 25" "modTime ex_env ''/w/lib/l.go'' = Some 10"
    "modTime ex_env_touched (Target (ex_heap_two_trees 2)) = Some 20"
    by (simp_all add: ex_heap_two_trees_def ex_env_touched_def ex_defs)
  have a: "\<not> fst (isStale ex_env_touched ex_heap_two_trees 2 ?T)"
    using isStale_outside_requested_roots [of ex_heap_two_trees 2 ?T ex_env_touched "modTime ex_env_touched"] out
    by (simp add: defs)
  have b: "fst (isStale (ex_env\<lparr>modTime := modTime ex_env_touched\<rparr>) ex_heap_two_trees 2 ?T) =
      fst (isStale ex_env ex_heap_two_trees 2 ?T)"
    using isStale_outside_requested_roots [of ex_heap_two_trees 2 ?T ex_env "modTime ex_env_touched"] out
    by (simp add: defs)
  have c: "fst (isStale (ex_env\<lparr>modTime := (modTime ex_env)(''/w/pkg/lib.a'' := None)\<rparr>) ex_heap_two_trees 2 ?T)"
    using isStale_outside_requested_roots [of ex_heap_two_trees 2 ?T
        "ex_env\<lparr>modTime := (modTime ex_env)(''/w/pkg/lib.a'' := None)\<rparr>" "modTime ex_env"] out
    by (simp add: defs)
  have d: "fst (isStale ex_env ?s1 2 ?T)"
    using isStale_outside_requested_roots [of ?s1 2 ?T ex_env "modTime ex_env"] out
    by (simp add: defs)
  have e: "\<not> fst (isStale ex_env ?s2 2 ?T)"
    using isStale_outside_requested_roots [of ?s2 2 ?T ex_env "modTime ex_env"] out
    by (simp add: defs)
  show ?thesis using out times a b c d e by simp
qed

theorem isStale_outside_roots_counterexample:
  "Root (Package_bp (ex_heap_two_trees 2)) = ''/v'' \<and>
   \<not> topRoots ex_heap_two_trees [1] (\<lambda>root. False) ''/v'' \<and>
   isStale ex_env_fmt_rebuilt ex_heap_two_trees 2 (topRoots ex_heap_two_trees [1] (\<lambda>root. False)) =
     (True, [''isStale 3: x.org/lib''])"
  by (simp add: ex_stale_defs ex_heap_two_trees_def ex_env_fmt_rebuilt_def ex_defs)

text \<open>
  C9. linkOrCopy returns nil when the destination exists, and when \<open>os.Link\<close> fails with
  an error that \<open>os.IsExist\<close> accepts although the destination did not exist at the
  check before it (another writer completed the same insert in between). The insert of
  save then goes on without \<open>log.Fatal\<close>: also when the entry appears between the
  check of save and the check of linkOrCopy.
\<close>

theorem linkOrCopy_already_exists:
  "(exists api dst w = (True, w1) \<longrightarrow> linkOrCopy api src dst w = (None, w1)) \<and>
   (exists api dst w = (False, w1) \<and> os_Link api src dst w1 = (err, w2) \<and> os_IsExist err \<longrightarrow>
      linkOrCopy api src dst w = (None, w2)) \<and>
   (exists api dst w = (True, w1) \<longrightarrow> save_put api src dst w = (Inr '' '', w1)) \<and>
   (exists api dst w = (False, w1) \<and> exists api dst w1 = (True, w2) \<longrightarrow>
      save_put api src dst w = (Inr ''*'', w2)) \<and>
   (exists api dst w = (False, w1) \<and> exists api dst w1 = (False, w2) \<and>
    os_Link api src dst w2 = (err, w3) \<and> os_IsExist err \<longrightarrow>
      save_put api src dst w = (Inr ''*'', w3))"
  by (simp add: linkOrCopy_def save_put_def)

theorem linkOrCopy_already_exists_witness:
  "exists ex_racing_api ''/cache/ab'' 2 = (True, 3) \<and>
   linkOrCopy ex_racing_api ''/w/pkg/lib.a'' ''/cache/ab'' 2 = (None, 3) \<and>
   exists ex_racing_api ''/cache/ab'' 1 = (False, 2) \<and>
   os_Link ex_racing_api ''/w/pkg/lib.a'' ''/cache/ab'' 2 = (Some ErrExist, 3) \<and>
   os_IsExist (Some ErrExist) \<and>
   linkOrCopy ex_racing_api ''/w/pkg/lib.a'' ''/cache/ab'' 1 = (None, 3) \<and>
   save_put ex_racing_api ''/w/pkg/lib.a'' ''/cache/ab'' 2 = (Inr '' '', 3) \<and>
   save_put ex_racing_api ''/w/pkg/lib.a'' ''/cache/ab'' 1 = (Inr ''*'', 3) \<and>
   exists ex_racing_api ''/cache/ab'' 0 = (False, 1) \<and>
   save_put ex_racing_api ''/w/pkg/lib.a'' ''/cache/ab'' 0 = (Inr ''*'', 3)"
proof -
  have e: "exists ex_racing_api ''/cache/ab'' 2 = (True, 3)"
    "exists ex_racing_api ''/cache/ab'' 1 = (False, 2)"
    "exists ex_racing_api ''/cache/ab'' 0 = (False, 1)"
    by (simp_all add: exists_def ex_racing_api_def os_IsNotExist_def)
  have l: "os_Link ex_racing_api ''/w/pkg/lib.a'' ''/cache/ab'' 2 = (Some ErrExist, 3)"
    "os_IsExist (Some ErrExist)"
    by (simp_all add: ex_racing_api_def os_IsExist_def)
  note a = linkOrCopy_already_exists [of ex_racing_api "''/cache/ab''" 2 3 "''/w/pkg/lib.a''" "Some ErrExist" 3 3]
  note b = linkOrCopy_already_exists [of ex_racing_api "''/cache/ab''" 1 2 "''/w/pkg/lib.a''" "Some ErrExist" 3 3]
  note c = linkOrCopy_already_exists [of ex_racing_api "''/cache/ab''" 0 1 "''/w/pkg/lib.a''" "Some ErrExist" 2 3]
  show ?thesis using a b c e l by simp
qed

section \<open>C6: import cycles\<close>

text \<open>
  C6 (amended). Let \<open>K\<close> be a finite set of calls (import path, directory of the importer)
  that holds the calls made by the load of each of its members, in which two calls with
  the same key name the same package, and let the loader state satisfy \<open>loader_inv\<close> and
  \<open>linked\<close> with no load running, as the empty state does. Then loadImport returns for every
  call of \<open>K\<close> as soon as the number of nested calls allowed exceeds the number of packages
  of \<open>K\<close> that are not in the cache, import cycle or not, in a state that satisfies both
  invariants again. The package it returns is the one cached for the key of the call, and
  every key that the import graph reaches from there is cached with a package that is
  loaded as go/build describes it: with the cached packages of its import paths as
  \<open>imports\<close>, or, when its load failed, without \<open>imports\<close>, Incomplete and with an Error. Such
  a package is Incomplete exactly when its key reaches, in no step or more, a failing key
  or a key on a cycle: so every package on a cycle is Incomplete, so is every package that
  imports one directly or not, and a package that reaches no cycle and no failing key is
  not. The import-cycle error is recorded only on packages of a cycle, and not on all of
  them: every cycle holds a package with the import-cycle error, or a key with one of the
  two other errors of load. Any other Error is recorded only for a failing key or for one
  of these two other errors.
\<close>

theorem loadImport_import_cycle:
  assumes "finite K" and "closed_calls e b ctx K" and "consistent_calls e b ctx K"
    and "(path, srcDir) \<in> K"
    and "loader_inv st" and "linked e b ctx K {} st" and "card (uncached e b ctx K st) < n"
  shows "\<exists>p st'. loadImport n e b ctx path srcDir stk importPos st = Some (p, st') \<and>
      loader_inv st' \<and> linked e b ctx K {} st' \<and>
      packageCache st' (call_key e b ctx (path, srcDir)) = Some p \<and>
      (\<forall>k. (call_key e b ctx (path, srcDir), k) \<in> (import_graph e b ctx K)\<^sup>* \<longrightarrow>
         (\<exists>a. packageCache st' k = Some a \<and> node_ok e b ctx K st' k a \<and>
            (Incomplete (mem st' a) \<longleftrightarrow>
               (\<exists>k'. (k, k') \<in> (import_graph e b ctx K)\<^sup>* \<and> blamed e b ctx K k')) \<and>
            (cycle_Error (mem st' a) \<longrightarrow> on_cycle e b ctx K k) \<and>
            (plain_Error (mem st' a) \<longrightarrow> failing e b ctx K k \<or> may_err e b ctx K k) \<and>
            (on_cycle e b ctx K k \<longrightarrow>
               (\<exists>k' a'. (k, k') \<in> (import_graph e b ctx K)\<^sup>* \<and> (k', k) \<in> (import_graph e b ctx K)\<^sup>* \<and>
                  packageCache st' k' = Some a' \<and>
                  (cycle_Error (mem st' a') \<or> may_err e b ctx K k')))))"
proof -
  let ?G = "import_graph e b ctx K"
  let ?k0 = "call_key e b ctx (path, srcDir)"
  have reach: "\<And>k. k \<in> {} \<Longrightarrow> (k, ?k0) \<in> ?G\<^sup>+" by simp
  obtain p st' where run: "loadImport n e b ctx path srcDir stk importPos st = Some (p, st')"
    and rs: "resolved e b ctx K {} (path, srcDir) st p st'"
    using loadImport_resolved [OF assms(1,2,3,5,6,4) reach assms(7)] by blast
  note r = resolvedD [OF rs]
  have inv: "loader_inv st'" using r(1) by (simp add: loaded_def)
  note lk = r(2)
  have each: "\<exists>a. packageCache st' k = Some a \<and> node_ok e b ctx K st' k a \<and>
            (Incomplete (mem st' a) \<longleftrightarrow> (\<exists>k'. (k, k') \<in> ?G\<^sup>* \<and> blamed e b ctx K k')) \<and>
            (cycle_Error (mem st' a) \<longrightarrow> on_cycle e b ctx K k) \<and>
            (plain_Error (mem st' a) \<longrightarrow> failing e b ctx K k \<or> may_err e b ctx K k) \<and>
            (on_cycle e b ctx K k \<longrightarrow>
               (\<exists>k' a'. (k, k') \<in> ?G\<^sup>* \<and> (k', k) \<in> ?G\<^sup>* \<and> packageCache st' k' = Some a' \<and>
                  (cycle_Error (mem st' a') \<or> may_err e b ctx K k')))"
    if kk: "(?k0, k) \<in> ?G\<^sup>*" for k
  proof -
    obtain a where a: "packageCache st' k = Some a" using settled_path [OF lk r(3) kk] by blast
    have 1: "node_ok e b ctx K st' k a" using linkedD(2) [OF lk a] by simp
    note 2 = settled_Incomplete [OF inv lk a]
    have 3: "cycle_Error (mem st' a) \<longrightarrow> on_cycle e b ctx K k" using linkedD(5) [OF lk a] by blast
    have 4: "plain_Error (mem st' a) \<longrightarrow> failing e b ctx K k \<or> may_err e b ctx K k"
      using linkedD(4) [OF lk a] by blast
    have 5: "on_cycle e b ctx K k \<longrightarrow>
               (\<exists>k' a'. (k, k') \<in> ?G\<^sup>* \<and> (k', k) \<in> ?G\<^sup>* \<and> packageCache st' k' = Some a' \<and>
                  (cycle_Error (mem st' a') \<or> may_err e b ctx K k'))"
      using settled_cycle [OF inv lk assms(3) a] by blast
    show ?thesis using a 1 2 3 4 5 by blast
  qed
  show ?thesis using run inv lk r(3) each by blast
qed

lemmas ex_loader_defs = fullImportPath_def loadImport_bp_def loadImport_err_def loadImport_new_def
  loadImport_pos_def load_head_def load_tail_def load_failed_def load_imports_record_def
  load_imports_deps_def load_importPaths_def load_Target_def reusePackage_def
  ex_build_env_def ex_Import_def empty_loader_def contains_def zero_Package_def zero_build_Package_def
  sort_packageList_def Let_def shorterThan_def usesCgo_def cgoExclude_def cgoSyscallExclude_def raceExclude_def

lemma ex_calls_finite: "finite ex_calls"
  by (simp add: ex_calls_def)

lemma ex_loadImport_calls:
  "loadImport_calls ex_env ex_build_env (build_Default ex_build_env) (''x.org/d'', dir) =
     [(''x.org/a'', ''/w/src/x.org/d''), (''runtime'', ''/w/src/x.org/d'')]"
  "loadImport_calls ex_env ex_build_env (build_Default ex_build_env) (''x.org/a'', dir) =
     [(''x.org/b'', ''/w/src/x.org/a''), (''runtime'', ''/w/src/x.org/a'')]"
  "loadImport_calls ex_env ex_build_env (build_Default ex_build_env) (''x.org/b'', dir) =
     [(''x.org/a'', ''/w/src/x.org/b''), (''runtime'', ''/w/src/x.org/b'')]"
  "loadImport_calls ex_env ex_build_env (build_Default ex_build_env) (''runtime'', dir) = []"
  by (simp_all add: loadImport_calls_def loadImport_head_def ex_loader_defs)

lemma ex_calls_closed: "closed_calls ex_env ex_build_env (build_Default ex_build_env) ex_calls"
  unfolding closed_calls_def ex_calls_def by (simp add: ex_loadImport_calls)

lemma empty_loader_inv: "loader_inv empty_loader"
  by (simp add: loader_inv_def empty_loader_def zero_Package_def)

lemma empty_loader_linked: "linked e b ctx K {} empty_loader"
  by (simp add: linked_def empty_loader_def)

lemma ex_calls_uncached:
  "card (uncached ex_env ex_build_env (build_Default ex_build_env) ex_calls empty_loader) < Suc (Suc (Suc (Suc (Suc 0))))"
proof -
  have "uncached ex_env ex_build_env (build_Default ex_build_env) ex_calls empty_loader =
      {''x.org/d'', ''x.org/a'', ''x.org/b'', ''runtime''}"
    by (auto simp: uncached_def ex_calls_def fullImportPath_def ex_build_env_def empty_loader_def
        contains_def Let_def)
  then show ?thesis by simp
qed

lemma ex_call_key:
  "path \<in> {''x.org/d'', ''x.org/a'', ''x.org/b'', ''runtime''} \<Longrightarrow>
   call_key ex_env ex_build_env (build_Default ex_build_env) (path, dir) = path"
  by (auto simp: call_key_def fullImportPath_def ex_build_env_def contains_def Let_def)

lemma ex_call_fails:
  "path \<in> {''x.org/d'', ''x.org/a'', ''x.org/b'', ''runtime''} \<Longrightarrow>
   \<not> call_fails ex_env ex_build_env (build_Default ex_build_env) (path, dir)"
  by (auto simp: call_fails_def ex_loader_defs)

lemma ex_CFiles:
  "path \<in> {''x.org/d'', ''x.org/a'', ''x.org/b'', ''runtime''} \<Longrightarrow>
   CFiles (loadImport_bp ex_env ex_build_env (build_Default ex_build_env) path dir) = []"
  by (auto simp: ex_loader_defs)

lemma ex_calls_paths:
  "c \<in> ex_calls \<Longrightarrow> fst c \<in> {''x.org/d'', ''x.org/a'', ''x.org/b'', ''runtime''}"
  by (auto simp: ex_calls_def)

lemma ex_calls_consistent: "consistent_calls ex_env ex_build_env (build_Default ex_build_env) ex_calls"
  unfolding consistent_calls_def
proof (intro ballI impI)
  fix c c' assume c: "c \<in> ex_calls" "c' \<in> ex_calls"
    and k: "call_key ex_env ex_build_env (build_Default ex_build_env) c =
            call_key ex_env ex_build_env (build_Default ex_build_env) c'"
  obtain path dir path' dir' where p: "c = (path, dir)" "c' = (path', dir')" by (cases c; cases c')
  have m: "path \<in> {''x.org/d'', ''x.org/a'', ''x.org/b'', ''runtime''}"
    "path' \<in> {''x.org/d'', ''x.org/a'', ''x.org/b'', ''runtime''}"
    using ex_calls_paths [OF c(1)] ex_calls_paths [OF c(2)] p by simp_all
  have same: "path' = path" using k p ex_call_key [OF m(1)] ex_call_key [OF m(2)] by simp
  have calls: "loadImport_calls ex_env ex_build_env (build_Default ex_build_env) (path, dir') =
      loadImport_calls ex_env ex_build_env (build_Default ex_build_env) (path, dir)"
    using m(1) by (auto simp: ex_loadImport_calls)
  show "(call_fails ex_env ex_build_env (build_Default ex_build_env) c \<longleftrightarrow>
         call_fails ex_env ex_build_env (build_Default ex_build_env) c') \<and>
        map (call_key ex_env ex_build_env (build_Default ex_build_env))
          (loadImport_calls ex_env ex_build_env (build_Default ex_build_env) c) =
        map (call_key ex_env ex_build_env (build_Default ex_build_env))
          (loadImport_calls ex_env ex_build_env (build_Default ex_build_env) c')"
    using p same calls ex_call_fails [OF m(1)] by simp
qed

lemma ex_import_graph:
  "import_graph ex_env ex_build_env (build_Default ex_build_env) ex_calls =
     {(''x.org/d'', ''x.org/a''), (''x.org/d'', ''runtime''), (''x.org/a'', ''x.org/b''),
      (''x.org/a'', ''runtime''), (''x.org/b'', ''x.org/a''), (''x.org/b'', ''runtime'')}"
  unfolding import_graph_def ex_calls_def
  by (simp add: ex_loadImport_calls ex_call_key) blast

lemma ex_runtime_sink:
  assumes "(''runtime'', k) \<in> (import_graph ex_env ex_build_env (build_Default ex_build_env) ex_calls)\<^sup>*"
  shows "k = ''runtime''"
  using assms by (rule converse_rtranclE) (simp_all add: ex_import_graph)

lemma ex_runtime_clean:
  "\<not> blamed ex_env ex_build_env (build_Default ex_build_env) ex_calls ''runtime''"
  "\<not> may_err ex_env ex_build_env (build_Default ex_build_env) ex_calls ''runtime''"
proof -
  let ?G = "import_graph ex_env ex_build_env (build_Default ex_build_env) ex_calls"
  have "\<not> failing ex_env ex_build_env (build_Default ex_build_env) ex_calls ''runtime''"
    unfolding failing_def using ex_call_fails ex_calls_paths by (metis prod.collapse)
  moreover have "(''runtime'', ''runtime'') \<notin> ?G\<^sup>+"
  proof
    assume "(''runtime'', ''runtime'') \<in> ?G\<^sup>+"
    then obtain y where "(''runtime'', y) \<in> ?G" by (meson tranclD)
    then show False by (simp add: ex_import_graph)
  qed
  ultimately show "\<not> blamed ex_env ex_build_env (build_Default ex_build_env) ex_calls ''runtime''"
    by (simp add: blamed_def on_cycle_def)
  show "\<not> may_err ex_env ex_build_env (build_Default ex_build_env) ex_calls ''runtime''"
  proof
    assume "may_err ex_env ex_build_env (build_Default ex_build_env) ex_calls ''runtime''"
    then obtain c where c: "c \<in> ex_calls"
      "call_key ex_env ex_build_env (build_Default ex_build_env) c = ''runtime''"
      "CFiles (loadImport_bp ex_env ex_build_env (build_Default ex_build_env) (fst c) (snd c)) \<noteq> [] \<or>
       (\<exists>c'\<in>set (loadImport_calls ex_env ex_build_env (build_Default ex_build_env) c). True)"
      unfolding may_err_def by blast
    have "fst c = ''runtime''"
      using c(2) ex_call_key [OF ex_calls_paths [OF c(1)], of "snd c"] by simp
    then have "c = (''runtime'', snd c)" by (metis prod.collapse)
    then have "loadImport_calls ex_env ex_build_env (build_Default ex_build_env) c = []"
      using ex_loadImport_calls(4) [of "snd c"] by simp
    then show False using c(3) ex_CFiles [OF ex_calls_paths [OF c(1)]] by simp
  qed
qed

lemma ex_loadImport_d:
  "map_option (\<lambda>(p, st). (p, map (\<lambda>a. (imports' (mem st a), Incomplete (mem st a),
        map_option isImportCycle (Error (mem st a)))) [1, 2, 3, 4]))
     (loadImport (Suc (Suc (Suc (Suc (Suc 0))))) ex_env ex_build_env (build_Default ex_build_env)
        ''x.org/d'' ''/w/src'' [] [] empty_loader) =
   Some (1, [(Some [2, 4], True, None), (Some [3, 4], True, Some True),
       (Some [2, 4], True, None), (Some [], False, None)])"
  by (simp add: loadImport_Suc load_eq load_imports_Cons ex_loader_defs
      del: loadImport.simps load_imports.simps(2))

lemma ex_loadPackage_d:
  "loadPackage n ex_env ex_build_env ''x.org/d'' [] st =
   loadImport n ex_env ex_build_env (build_Default ex_build_env) ''x.org/d'' ''/w/src'' [] [] st"
  by (simp add: loadPackage_def packageBaseImportPath_def packageOptions_def ex_build_env_def
      contains_def Let_def)

theorem loadImport_import_cycle_witness:
  "finite ex_calls \<and> closed_calls ex_env ex_build_env (build_Default ex_build_env) ex_calls \<and>
   consistent_calls ex_env ex_build_env (build_Default ex_build_env) ex_calls \<and>
   (''x.org/d'', ''/w/src'') \<in> ex_calls \<and> loader_inv empty_loader \<and>
   linked ex_env ex_build_env (build_Default ex_build_env) ex_calls {} empty_loader \<and>
   card (uncached ex_env ex_build_env (build_Default ex_build_env) ex_calls empty_loader) <
     Suc (Suc (Suc (Suc (Suc 0)))) \<and>
   on_cycle ex_env ex_build_env (build_Default ex_build_env) ex_calls ''x.org/a'' \<and>
   on_cycle ex_env ex_build_env (build_Default ex_build_env) ex_calls ''x.org/b'' \<and>
   (\<exists>p st'. loadImport (Suc (Suc (Suc (Suc (Suc 0))))) ex_env ex_build_env (build_Default ex_build_env)
        ''x.org/d'' ''/w/src'' [] [] empty_loader = Some (p, st') \<and>
      packageCache st' ''x.org/d'' = Some p \<and> Incomplete (mem st' p) \<and>
      (\<exists>a. packageCache st' ''x.org/a'' = Some a \<and> Incomplete (mem st' a)) \<and>
      (\<exists>a. packageCache st' ''x.org/b'' = Some a \<and> Incomplete (mem st' a)) \<and>
      (\<exists>a. packageCache st' ''runtime'' = Some a \<and> \<not> Incomplete (mem st' a) \<and> Error (mem st' a) = None \<and>
           imports' (mem st' a) = Some []))"
proof -
  let ?e = ex_env and ?b = ex_build_env and ?ctx = "build_Default ex_build_env"
  let ?G = "import_graph ?e ?b ?ctx ex_calls"
  have k: "(''x.org/d'', ''/w/src'') \<in> ex_calls" by (simp add: ex_calls_def)
  have key: "call_key ?e ?b ?ctx (''x.org/d'', ''/w/src'') = ''x.org/d''" by (simp add: ex_call_key)
  have edges: "(''x.org/d'', ''x.org/a'') \<in> ?G" "(''x.org/a'', ''x.org/b'') \<in> ?G"
    "(''x.org/b'', ''x.org/a'') \<in> ?G" "(''x.org/d'', ''runtime'') \<in> ?G"
    by (simp_all add: ex_import_graph)
  have cyc: "on_cycle ?e ?b ?ctx ex_calls ''x.org/a''" "on_cycle ?e ?b ?ctx ex_calls ''x.org/b''"
    unfolding on_cycle_def using edges(2,3) by (meson r_into_trancl' trancl_trans)+
  have bl: "blamed ?e ?b ?ctx ex_calls ''x.org/a''" "blamed ?e ?b ?ctx ex_calls ''x.org/b''"
    using cyc by (simp_all add: blamed_def)
  have reach: "(''x.org/d'', ''x.org/d'') \<in> ?G\<^sup>*" "(''x.org/d'', ''x.org/a'') \<in> ?G\<^sup>*"
    "(''x.org/d'', ''x.org/b'') \<in> ?G\<^sup>*" "(''x.org/d'', ''runtime'') \<in> ?G\<^sup>*"
    "(''x.org/a'', ''x.org/a'') \<in> ?G\<^sup>*" "(''x.org/b'', ''x.org/b'') \<in> ?G\<^sup>*"
    using edges by (meson rtrancl.simps)+
  obtain p st' where run: "loadImport (Suc (Suc (Suc (Suc (Suc 0))))) ?e ?b ?ctx
        ''x.org/d'' ''/w/src'' [] [] empty_loader = Some (p, st')"
    and root: "packageCache st' (call_key ?e ?b ?ctx (''x.org/d'', ''/w/src'')) = Some p"
    and each: "\<forall>k. (call_key ?e ?b ?ctx (''x.org/d'', ''/w/src''), k) \<in> ?G\<^sup>* \<longrightarrow>
         (\<exists>a. packageCache st' k = Some a \<and> node_ok ?e ?b ?ctx ex_calls st' k a \<and>
            (Incomplete (mem st' a) \<longleftrightarrow> (\<exists>k'. (k, k') \<in> ?G\<^sup>* \<and> blamed ?e ?b ?ctx ex_calls k')) \<and>
            (cycle_Error (mem st' a) \<longrightarrow> on_cycle ?e ?b ?ctx ex_calls k) \<and>
            (plain_Error (mem st' a) \<longrightarrow> failing ?e ?b ?ctx ex_calls k \<or> may_err ?e ?b ?ctx ex_calls k) \<and>
            (on_cycle ?e ?b ?ctx ex_calls k \<longrightarrow>
               (\<exists>k' a'. (k, k') \<in> ?G\<^sup>* \<and> (k', k) \<in> ?G\<^sup>* \<and> packageCache st' k' = Some a' \<and>
                  (cycle_Error (mem st' a') \<or> may_err ?e ?b ?ctx ex_calls k'))))"
    using loadImport_import_cycle [OF ex_calls_finite ex_calls_closed ex_calls_consistent k empty_loader_inv
        empty_loader_linked ex_calls_uncached, of "[]" "[]"] by blast
  note each' = each [unfolded key, rule_format]
  have d: "Incomplete (mem st' p)"
    using each' [OF reach(1)] root [unfolded key] reach(2) bl(1) by auto
  have a: "\<exists>a. packageCache st' ''x.org/a'' = Some a \<and> Incomplete (mem st' a)"
    using each' [OF reach(2)] reach(5) bl(1) by blast
  have b: "\<exists>a. packageCache st' ''x.org/b'' = Some a \<and> Incomplete (mem st' a)"
    using each' [OF reach(3)] reach(6) bl(2) by blast
  obtain r where r: "packageCache st' ''runtime'' = Some r" "node_ok ?e ?b ?ctx ex_calls st' ''runtime'' r"
    "Incomplete (mem st' r) \<longleftrightarrow> (\<exists>k'. (''runtime'', k') \<in> ?G\<^sup>* \<and> blamed ?e ?b ?ctx ex_calls k')"
    "cycle_Error (mem st' r) \<longrightarrow> on_cycle ?e ?b ?ctx ex_calls ''runtime''"
    "plain_Error (mem st' r) \<longrightarrow> failing ?e ?b ?ctx ex_calls ''runtime'' \<or> may_err ?e ?b ?ctx ex_calls ''runtime''"
    using each' [OF reach(4)] by blast
  have r1: "\<not> Incomplete (mem st' r)" using r(3) ex_runtime_sink ex_runtime_clean(1) by blast
  have "\<not> cycle_Error (mem st' r)" "\<not> plain_Error (mem st' r)"
    using r(4,5) ex_runtime_clean by (auto simp: blamed_def)
  then have r2: "Error (mem st' r) = None"
    by (cases "Error (mem st' r)") (auto simp: cycle_Error_def plain_Error_def)
  have rk: "(''runtime'', ''/w/src/x.org/d'') \<in> ex_calls" by (simp add: ex_calls_def)
  have r3: "imports' (mem st' r) = Some []"
    using node_okD(2) [OF r(2) rk] ex_call_key [of "''runtime''"] ex_call_fails [of "''runtime''"]
    by (simp add: ex_loadImport_calls)
  show ?thesis
    using ex_calls_finite ex_calls_closed ex_calls_consistent k empty_loader_inv empty_loader_linked
      ex_calls_uncached cyc run root [unfolded key] d a b r(1) r1 r2 r3
    by blast
qed

theorem loadPackage_import_cycle_counterexample:
  "map_option (\<lambda>(p, st). (p, map (\<lambda>a. (imports' (mem st a), Incomplete (mem st a),
        map_option isImportCycle (Error (mem st a)))) [1, 2, 3, 4]))
     (loadPackage (Suc (Suc (Suc (Suc (Suc 0))))) ex_env ex_build_env ''x.org/d'' [] empty_loader) =
   Some (1, [(Some [2, 4], True, None), (Some [3, 4], True, Some True),
       (Some [2, 4], True, None), (Some [], False, None)])"
  using ex_loadImport_d by (simp add: ex_loadPackage_d del: loadImport.simps)

section \<open>C2: the digest does not depend on the order of map iteration\<close>



section \<open>C10: restore without a cache directory\<close>

text \<open>
  C10 (amended). When \<open>os.Stat\<close> of the cache directory fails with an error that
  \<open>os.IsNotExist\<close> accepts, restore of the second main.go ends with \<open>os.Exit(0)\<close> after
  the one line "... does not exist", whatever its arguments are: the state of the world
  is the one that \<open>os.Stat\<close> left, so no other call of package os was made, and the result
  is there even when no nested call of the loader is allowed, so nothing was loaded or
  fingerprinted. restore of the first main.go does the same when it has at most two
  arguments; with more it ends with \<open>log.Fatalf\<close> (status 1) before it looks at the
  cache directory. When the directory exists, both versions go on to load the packages:
  with no nested call allowed they do not return.
\<close>

theorem restore_missing_cache_dir:
  "(os_Stat api (cacheDir api) w = (Inl ErrNotExist, w1) \<longrightarrow>
      restore api b since n args st w = Some (Exit 0 [cacheDir api @ '' does not exist''] w1) \<and>
      (length args \<le> 2 \<longrightarrow>
         golist_restore api prog goList range1 range2 n args w =
           Some (Exit 0 [cacheDir api @ '' does not exist''] w1))) \<and>
   (exists api (cacheDir api) w = (True, w1) \<longrightarrow>
      restore api b since 0 args st w = None \<and>
      (length args \<le> 2 \<longrightarrow> golist_restore api prog goList range1 range2 0 args w = None))"
proof -
  have 1: "restore api b since n args st w = Some (Exit 0 [cacheDir api @ '' does not exist''] w1)"
    if "os_Stat api (cacheDir api) w = (Inl ErrNotExist, w1)"
    using that by (simp add: restore_def exists_def os_IsNotExist_def Let_def)
  have 2: "golist_restore api prog goList range1 range2 n args w =
      Some (Exit 0 [cacheDir api @ '' does not exist''] w1)"
    if "os_Stat api (cacheDir api) w = (Inl ErrNotExist, w1)" "length args \<le> 2"
    using that by (simp add: golist_restore_def exists_def os_IsNotExist_def Let_def)
  have 3: "restore api b since 0 args st w = None" if "exists api (cacheDir api) w = (True, w1)"
  proof -
    have "packagesForBuild 0 e b a st = None" for e a
      by (cases a) (simp_all add: packagesForBuild_def loadPackage_def Let_def)
    then have "loadAll 0 e b a st = None" for e a by (simp add: loadAll_def)
    then show ?thesis using that by (simp add: restore_def Let_def split: prod.splits)
  qed
  have 4: "golist_restore api prog goList range1 range2 0 args w = None"
    if "exists api (cacheDir api) w = (True, w1)" "length args \<le> 2"
    using that by (simp add: golist_restore_def golist_load_def Let_def)
  show ?thesis using 1 2 3 4 by blast
qed

theorem restore_missing_cache_dir_witness:
  "os_Stat ex_racing_api (cacheDir ex_racing_api) 0 = (Inl ErrNotExist, 1) \<and>
   restore ex_racing_api ex_build_env (\<lambda>d. ''1s'') 0 [''x.org/d''] empty_loader 0 =
     Some (Exit 0 [''/cache does not exist''] 1) \<and>
   length [''x.org/d''] \<le> 2 \<and>
   golist_restore ex_racing_api ''build-cache'' (\<lambda>dir. None) (\<lambda>entries. entries) (\<lambda>entries. entries) 0
     [''x.org/d''] 0 = Some (Exit 0 [''/cache does not exist''] 1) \<and>
   exists ex_racing_api (cacheDir ex_racing_api) 2 = (True, 3) \<and>
   restore ex_racing_api ex_build_env (\<lambda>d. ''1s'') 0 [''x.org/d''] empty_loader 2 = None \<and>
   golist_restore ex_racing_api ''build-cache'' (\<lambda>dir. None) (\<lambda>entries. entries) (\<lambda>entries. entries) 0
     [''x.org/d''] 2 = None"
proof -
  have s: "os_Stat ex_racing_api (cacheDir ex_racing_api) 0 = (Inl ErrNotExist, 1)"
    "exists ex_racing_api (cacheDir ex_racing_api) 2 = (True, 3)"
    by (simp_all add: ex_racing_api_def exists_def)
  have d: "cacheDir ex_racing_api = ''/cache''"
    by (simp add: cacheDir_def ex_racing_api_def)
  note a = restore_missing_cache_dir [of ex_racing_api 0 1 ex_build_env "\<lambda>d. ''1s''" 0 "[''x.org/d'']"
      empty_loader "''build-cache''" "\<lambda>dir. None" "\<lambda>entries. entries" "\<lambda>entries. entries"]
  note b = restore_missing_cache_dir [of ex_racing_api 2 3 ex_build_env "\<lambda>d. ''1s''" 0 "[''x.org/d'']"
      empty_loader "''build-cache''" "\<lambda>dir. None" "\<lambda>entries. entries" "\<lambda>entries. entries"]
  show ?thesis using a b s d by simp
qed

theorem golist_restore_usage_counterexample:
  "os_Stat ex_racing_api (cacheDir ex_racing_api) 0 = (Inl ErrNotExist, 1) \<and>
   golist_restore ex_racing_api ''build-cache'' (\<lambda>dir. None) (\<lambda>entries. entries) (\<lambda>entries. entries) 0
     [''x.org/a'', ''x.org/b'', ''x.org/c''] 0 =
     Some (Exit 1 [''usage: build-cache restore [package-path]''] 0)"
  by (simp add: golist_restore_def ex_racing_api_def)

end
